(* ===== verification/Kt_Prelude.thy ===== *)
theory Kt_Prelude
  imports Main "HOL-Library.Word" "HOL-Library.Multiset"
begin

text \<open>
  Shared vocabulary of the kt-bridge development.

  \<^item> Names for the machine integers of the Rust sources. Unsigned integers are words, whose
    arithmetic wraps; an \<^verbatim>\<open>i32\<close> is a 32-bit word that is read with \<open>sint\<close>. A \<^verbatim>\<open>usize\<close> is a
    \<open>nat\<close> wherever it only counts or indexes memory that exists.
  \<^item> \<open>outcome\<close>: what a Rust call does besides returning a value. \<open>Ok\<close> and \<open>Err\<close> are the two
    variants of \<^verbatim>\<open>Result\<close>; \<open>Panicked\<close> is an unwinding panic with its payload. A failed
    \<^verbatim>\<open>expect\<close>, an index out of range and \<^verbatim>\<open>unreachable!\<close> are all \<open>Panicked\<close>.
  \<^item> \<^verbatim>\<open>Vec\<close> used as a stack, and word lemmas on shifted and masked bit fields.
  \<^item> A locale for step relations with an invariant, which the concurrent components interpret.
\<close>

unbundle bit_operations_syntax

named_theorems kt_inv \<open>definitions of the components' invariants\<close>
named_theorems kt_op \<open>definitions of the components' operations\<close>

type_synonym u8 = "8 word"
type_synonym u16 = "16 word"
type_synonym u32 = "32 word"
type_synonym u64 = "64 word"
type_synonym i32 = "32 word"

datatype panic_payload =
    StaticStr string
  | OwnedString string
  | OtherPayload

datatype ('a, 'e) outcome =
    Ok 'a
  | Err 'e
  | Panicked panic_payload

text \<open>The operator \<^verbatim>\<open>?\<close>: continue on \<open>Ok\<close>, leave on an error, unwind on a panic.\<close>

fun and_then :: "('a, 'e) outcome \<Rightarrow> ('a \<Rightarrow> ('b, 'e) outcome) \<Rightarrow> ('b, 'e) outcome" where
  "and_then (Ok x) f = f x"
| "and_then (Err e) f = Err e"
| "and_then (Panicked p) f = Panicked p"

text \<open>\<^verbatim>\<open>Result::map_err\<close>.\<close>

definition map_err :: "('e \<Rightarrow> 'f) \<Rightarrow> ('a, 'e) outcome \<Rightarrow> ('a, 'f) outcome" where
  "map_err f r = (case r of Ok x \<Rightarrow> Ok x | Err e \<Rightarrow> Err (f e) | Panicked p \<Rightarrow> Panicked p)"

fun is_ok :: "('a, 'e) outcome \<Rightarrow> bool" where
  "is_ok (Ok _) = True"
| "is_ok (Err _) = False"
| "is_ok (Panicked _) = False"

fun panics :: "('a, 'e) outcome \<Rightarrow> bool" where
  "panics (Panicked _) = True"
| "panics (Ok _) = False"
| "panics (Err _) = False"

text \<open>\<^verbatim>\<open>Vec::pop\<close>: the last element and the rest.\<close>

definition vec_pop :: "'a list \<Rightarrow> ('a \<times> 'a list) option" where
  "vec_pop xs = (if xs = [] then None else Some (last xs, butlast xs))"

text \<open>The bytes of a Rust \<^verbatim>\<open>String\<close>: strings are modelled by their UTF-8 bytes.\<close>

definition string_bytes :: "string \<Rightarrow> u8 list" where
  "string_bytes s = map of_char s"

text \<open>Decimal digits, as \<^verbatim>\<open>format!\<close> prints an unsigned integer.\<close>

fun decimal :: "nat \<Rightarrow> string" where
  "decimal n = (if n < 10 then [char_of (48 + n)] else decimal (n div 10) @ [char_of (48 + n mod 10)])"

declare decimal.simps [simp del]

section \<open>Outcomes\<close>

lemma and_then_Ok_iff:
  "and_then m f = Ok y \<longleftrightarrow> (\<exists>x. m = Ok x \<and> f x = Ok y)"
  by (cases m) auto

lemma and_then_Err_iff:
  "and_then m f = Err e \<longleftrightarrow> m = Err e \<or> (\<exists>x. m = Ok x \<and> f x = Err e)"
  by (cases m) auto

lemma and_then_panics:
  "\<not> panics m \<Longrightarrow> (\<And>x. m = Ok x \<Longrightarrow> \<not> panics (f x)) \<Longrightarrow> \<not> panics (and_then m f)"
  by (cases m) auto

lemma is_ok_iff: "is_ok m \<longleftrightarrow> (\<exists>x. m = Ok x)"
  by (cases m) auto

section \<open>Vectors used as stacks\<close>

lemma vec_pop_None [simp]: "vec_pop xs = None \<longleftrightarrow> xs = []"
  by (simp add: vec_pop_def)

lemma vec_pop_Some: "vec_pop xs = Some (x, ys) \<longleftrightarrow> xs = ys @ [x]"
  by (auto simp: vec_pop_def)

lemma vec_pop_snoc [simp]: "vec_pop (xs @ [x]) = Some (x, xs)"
  by (simp add: vec_pop_def)

lemma set_butlast_distinct:
  "distinct xs \<Longrightarrow> xs \<noteq> [] \<Longrightarrow> set (butlast xs) = set xs - {last xs}"
  by (cases xs rule: rev_cases) auto

section \<open>Bit fields\<close>

text \<open>
  A word below \<open>2 ^ n\<close> has no bit at or above \<open>n\<close>; the lemmas on handles are proved bit by
  bit from this.
\<close>

lemma bit_imp_lt_of_less_exp:
  fixes w :: "'a::len word"
  assumes "w < 2 ^ n" and "n < LENGTH('a)" and "bit w i"
  shows "i < n"
proof (rule ccontr)
  assume "\<not> i < n"
  from assms(1,2) have "take_bit n w = w"
    by (simp add: less_mask_eq take_bit_eq_mask)
  with assms(3) have "bit (take_bit n w) i" by simp
  with \<open>\<not> i < n\<close> show False by (simp add: bit_take_bit_iff)
qed

lemma unat_of_nat_u32 [simp]: "n < 2 ^ 32 \<Longrightarrow> unat (of_nat n :: u32) = n"
  by (simp add: unat_of_nat take_bit_nat_eq_self)

lemma unat_of_nat_u64 [simp]: "n < 2 ^ 64 \<Longrightarrow> unat (of_nat n :: u64) = n"
  by (simp add: unat_of_nat take_bit_nat_eq_self)

lemma of_nat_u32_eq_iff:
  "m < 2 ^ 32 \<Longrightarrow> n < 2 ^ 32 \<Longrightarrow> (of_nat m :: u32) = of_nat n \<longleftrightarrow> m = n"
  by (metis unat_of_nat_u32)

section \<open>Sums over finite maps\<close>

text \<open>What the threads or tasks of a finite map hold together, and how one update changes it.\<close>

definition dom_sum :: "('v option \<Rightarrow> 'a) \<Rightarrow> ('k \<rightharpoonup> 'v) \<Rightarrow> 'a::cancel_comm_monoid_add" where
  "dom_sum f m = (\<Sum>k \<in> dom m. f (m k))"

lemma dom_sum_empty [simp]: "dom_sum f Map.empty = 0"
  by (simp add: dom_sum_def)

lemma dom_sum_split:
  assumes "finite (dom m)" and "f None = 0"
  shows "dom_sum f m = f (m k) + (\<Sum>j \<in> dom m - {k}. f (m j))"
proof (cases "k \<in> dom m")
  case True
  then show ?thesis by (simp add: dom_sum_def sum.remove [OF assms(1)])
next
  case False
  then have "dom m - {k} = dom m" "m k = None" by (auto simp: dom_def)
  then show ?thesis using assms(2) by (simp add: dom_sum_def)
qed

lemma dom_sum_upd:
  assumes "finite (dom m)" and "f None = 0"
  shows "dom_sum f (m(k := x)) + f (m k) = dom_sum f m + f x"
proof -
  have "dom (m(k := x)) - {k} = dom m - {k}" by auto
  moreover have "(\<Sum>j \<in> dom m - {k}. f ((m(k := x)) j)) = (\<Sum>j \<in> dom m - {k}. f (m j))"
    by (rule sum.cong) auto
  moreover have "finite (dom (m(k := x)))" using assms(1) by (cases x) auto
  ultimately show ?thesis
    using dom_sum_split [of m f k] dom_sum_split [of "m(k := x)" f k] assms
    by (simp add: add.commute add.left_commute)
qed

section \<open>Step relations with an invariant\<close>

text \<open>
  The concurrent components are step relations. \<open>runs init step\<close> holds of the states some
  interleaving reaches; a component that shows that its invariant holds at the start and is
  kept by every step interprets \<open>invariant_system\<close> and gets the invariant for all of them.
\<close>

inductive runs :: "('s \<Rightarrow> bool) \<Rightarrow> ('s \<Rightarrow> 's \<Rightarrow> bool) \<Rightarrow> 's \<Rightarrow> bool"
  for init :: "'s \<Rightarrow> bool" and step :: "'s \<Rightarrow> 's \<Rightarrow> bool" where
  runs_init: "init s \<Longrightarrow> runs init step s"
| runs_step: "runs init step s \<Longrightarrow> step s t \<Longrightarrow> runs init step t"

locale invariant_system =
  fixes init :: "'s \<Rightarrow> bool"
    and step :: "'s \<Rightarrow> 's \<Rightarrow> bool"
    and inv :: "'s \<Rightarrow> bool"
  assumes init_inv: "init s \<Longrightarrow> inv s"
    and step_inv: "inv s \<Longrightarrow> step s t \<Longrightarrow> inv t"
begin

lemma runs_inv: "runs init step s \<Longrightarrow> inv s"
  by (induction rule: runs.induct) (auto intro: init_inv step_inv)

lemma rtranclp_inv: "step\<^sup>*\<^sup>* s t \<Longrightarrow> inv s \<Longrightarrow> inv t"
  by (induction rule: rtranclp_induct) (auto intro: step_inv)

end

section \<open>Systems made of components\<close>

text \<open>
  A system keeps pools of objects that each have a step relation of their own. Between two states of
  the system, \<open>evolves\<close> says that every object took some number of its own steps and that new objects
  started from an initial state.
\<close>

definition evolves :: "('o \<Rightarrow> bool) \<Rightarrow> ('o \<Rightarrow> 'o \<Rightarrow> bool) \<Rightarrow> ('k \<rightharpoonup> 'o) \<Rightarrow> ('k \<rightharpoonup> 'o) \<Rightarrow> bool" where
  "evolves init step m m' \<longleftrightarrow> (\<forall>a. case m a of
      Some x \<Rightarrow> (\<exists>y. m' a = Some y \<and> step\<^sup>*\<^sup>* x y)
    | None \<Rightarrow> (\<forall>y. m' a = Some y \<longrightarrow> (\<exists>x. init x \<and> step\<^sup>*\<^sup>* x y)))"

lemma evolves_refl [simp]: "evolves init step m m"
  by (auto simp: evolves_def split: option.splits)

lemma evolves_Some: "evolves init step m m' \<Longrightarrow> m a = Some x \<Longrightarrow> \<exists>y. m' a = Some y \<and> step\<^sup>*\<^sup>* x y"
  by (auto simp: evolves_def split: option.splits dest: spec [of _ a])

lemma evolves_None:
  "evolves init step m m' \<Longrightarrow> m a = None \<Longrightarrow> m' a = Some y \<Longrightarrow> \<exists>x. init x \<and> step\<^sup>*\<^sup>* x y"
  by (auto simp: evolves_def split: option.splits dest: spec [of _ a])

lemma evolves_trans:
  assumes "evolves init step m m'" and "evolves init step m' m''"
  shows "evolves init step m m''"
  unfolding evolves_def
proof (rule allI)
  fix a
  show "case m a of Some x \<Rightarrow> (\<exists>y. m'' a = Some y \<and> step\<^sup>*\<^sup>* x y)
    | None \<Rightarrow> (\<forall>y. m'' a = Some y \<longrightarrow> (\<exists>x. init x \<and> step\<^sup>*\<^sup>* x y))"
  proof (cases "m a")
    case None
    have "\<exists>x. init x \<and> step\<^sup>*\<^sup>* x y" if y: "m'' a = Some y" for y
    proof (cases "m' a")
      case (Some z)
      with None evolves_None [OF assms(1)] obtain x where "init x" "step\<^sup>*\<^sup>* x z" by blast
      moreover have "step\<^sup>*\<^sup>* z y" using evolves_Some [OF assms(2) Some] y by simp
      ultimately show ?thesis by (meson rtranclp_trans)
    qed (use evolves_None [OF assms(2)] y in blast)
    with None show ?thesis by simp
  next
    case (Some x)
    with evolves_Some [OF assms(1)] obtain z where "m' a = Some z" "step\<^sup>*\<^sup>* x z" by blast
    moreover with evolves_Some [OF assms(2)] obtain y where "m'' a = Some y" "step\<^sup>*\<^sup>* z y" by blast
    ultimately show ?thesis using Some by (auto intro: rtranclp_trans)
  qed
qed

lemma evolves_upd: "m a = Some x \<Longrightarrow> step\<^sup>*\<^sup>* x y \<Longrightarrow> evolves init step m (m(a \<mapsto> y))"
  by (auto simp: evolves_def split: option.splits)

lemma evolves_new: "m a = None \<Longrightarrow> init x \<Longrightarrow> evolves init step m (m(a \<mapsto> x))"
  by (auto simp: evolves_def split: option.splits)

text \<open>
  The contract between a system and a pool of its components, and what it gives: each object alone
  behaves as its own step relation says, so that relation's invariants hold of it in every state of
  the system.
\<close>

locale component_pool = invariant_system +
  fixes pool :: "'a \<Rightarrow> 'k \<rightharpoonup> 'o"
    and cinit :: "'o \<Rightarrow> bool"
    and cstep :: "'o \<Rightarrow> 'o \<Rightarrow> bool"
  assumes pool_start: "init s \<Longrightarrow> pool s = Map.empty"
    and pool_step: "inv s \<Longrightarrow> step s t \<Longrightarrow> evolves cinit cstep (pool s) (pool t)"
begin

lemma member_runs: "runs init step s \<Longrightarrow> pool s a = Some x \<Longrightarrow> runs cinit cstep x"
proof (induction arbitrary: x rule: runs.induct)
  case (runs_init s)
  then show ?case by (simp add: pool_start)
next
  case (runs_step s t)
  from pool_step [OF runs_inv [OF runs_step.hyps(1)] runs_step.hyps(2)]
  have e: "evolves cinit cstep (pool s) (pool t)" .
  have go_on: "runs cinit cstep z" if "runs cinit cstep y" "cstep\<^sup>*\<^sup>* y z" for y z
    using that(2,1) by (induction rule: rtranclp_induct) (auto intro: runs.runs_step)
  show ?case
  proof (cases "pool s a")
    case None
    with evolves_None [OF e] runs_step.prems show ?thesis by (blast intro: runs.runs_init go_on)
  next
    case (Some y)
    with evolves_Some [OF e] runs_step.prems have "cstep\<^sup>*\<^sup>* y x" by fastforce
    with runs_step.IH [OF Some] show ?thesis by (rule go_on)
  qed
qed

end

section \<open>Refinement of a specification\<close>

text \<open>
  A system implements a specification when it starts where the specification starts, seen through
  \<open>abs\<close>, and each of its steps is some number of steps of the specification, none for a step the
  specification does not see. Then so is every run, and a pool of such systems implements a pool of
  specifications.
\<close>

locale refinement = invariant_system +
  fixes abs :: "'a \<Rightarrow> 'b"
    and ainit :: "'b \<Rightarrow> bool"
    and astep :: "'b \<Rightarrow> 'b \<Rightarrow> bool"
  assumes abs_init: "init s \<Longrightarrow> ainit (abs s)"
    and abs_step: "inv s \<Longrightarrow> step s t \<Longrightarrow> astep\<^sup>*\<^sup>* (abs s) (abs t)"
begin

lemma abs_path: "step\<^sup>*\<^sup>* s t \<Longrightarrow> inv s \<Longrightarrow> astep\<^sup>*\<^sup>* (abs s) (abs t)"
proof (induction rule: rtranclp_induct)
  case (step t u)
  then have "astep\<^sup>*\<^sup>* (abs t) (abs u)" by (blast intro: abs_step rtranclp_inv)
  with step show ?case by (meson rtranclp_trans)
qed simp

lemma abs_runs: "runs init step s \<Longrightarrow> runs ainit astep (abs s)"
proof (induction rule: runs.induct)
  case (runs_step s t)
  have "runs ainit astep c" if "astep\<^sup>*\<^sup>* b c" "runs ainit astep b" for b c
    using that by (induction rule: rtranclp_induct) (auto intro: runs.runs_step)
  then show ?case using abs_step [OF runs_inv [OF runs_step.hyps(1)] runs_step.hyps(2)] runs_step.IH by blast
qed (auto intro: runs.runs_init abs_init)

lemma evolves_abs:
  assumes "evolves init step m m'" and "\<And>a x. m a = Some x \<Longrightarrow> inv x"
  shows "evolves ainit astep (\<lambda>a. map_option abs (m a)) (\<lambda>a. map_option abs (m' a))"
  unfolding evolves_def
proof (rule allI)
  fix a
  show "case map_option abs (m a) of Some x \<Rightarrow> (\<exists>y. map_option abs (m' a) = Some y \<and> astep\<^sup>*\<^sup>* x y)
    | None \<Rightarrow> (\<forall>y. map_option abs (m' a) = Some y \<longrightarrow> (\<exists>x. ainit x \<and> astep\<^sup>*\<^sup>* x y))"
  proof (cases "m a")
    case None
    have "\<exists>x. ainit x \<and> astep\<^sup>*\<^sup>* x (abs y)" if y: "m' a = Some y" for y
      using evolves_None [OF assms(1) None y] by (blast intro: abs_init abs_path init_inv)
    then show ?thesis using None by auto
  next
    case (Some x)
    then show ?thesis using evolves_Some [OF assms(1) Some] abs_path assms(2) by auto
  qed
qed

end

end
