(* ===== verification/Kt_Abi.thy ===== *)
theory Kt_Abi
  imports Kt_Prelude
begin

text \<open>
  The ABI of \<^verbatim>\<open>abi.rs\<close>: the wire codes, the completion kinds with their discriminants, the
  layout of the one struct that crosses the boundary, and the self-description the JVM checks.

  \<open>repr_c\<close> is the layout algorithm of \<^verbatim>\<open>#[repr(C)]\<close>: each field is placed at the next offset
  that its alignment divides, and the size is rounded up to the struct's alignment. \<^verbatim>\<open>size_of\<close>,
  \<^verbatim>\<open>align_of\<close> and \<^verbatim>\<open>offset_of!\<close> of the source are read from it.
\<close>

section \<open>Codes and kinds\<close>

definition KT_ABI_VERSION :: u32 where "KT_ABI_VERSION = 3"
definition KT_ABI_MAGIC :: u32 where "KT_ABI_MAGIC = 0x4B544231"

definition KT_OK :: i32 where "KT_OK = 0"
definition KT_ERR_PANIC :: i32 where "KT_ERR_PANIC = -1"
definition KT_ERR_INVALID_ARGUMENT :: i32 where "KT_ERR_INVALID_ARGUMENT = -2"
definition KT_ERR_STALE_HANDLE :: i32 where "KT_ERR_STALE_HANDLE = -3"
definition KT_ERR_WRONG_HANDLE_KIND :: i32 where "KT_ERR_WRONG_HANDLE_KIND = -4"
definition KT_ERR_SHUTDOWN :: i32 where "KT_ERR_SHUTDOWN = -5"
definition KT_ERR_WORKER_SHUT_DOWN :: i32 where "KT_ERR_WORKER_SHUT_DOWN = -6"
definition KT_ERR_CANCELLED :: i32 where "KT_ERR_CANCELLED = -7"
definition KT_ERR_FAILED :: i32 where "KT_ERR_FAILED = -8"
definition KT_ERR_BUFFER_TOO_SMALL :: i32 where "KT_ERR_BUFFER_TOO_SMALL = -9"

lemmas kt_codes = KT_OK_def KT_ERR_PANIC_def KT_ERR_INVALID_ARGUMENT_def KT_ERR_STALE_HANDLE_def
  KT_ERR_WRONG_HANDLE_KIND_def KT_ERR_SHUTDOWN_def KT_ERR_WORKER_SHUT_DOWN_def
  KT_ERR_CANCELLED_def KT_ERR_FAILED_def KT_ERR_BUFFER_TOO_SMALL_def

datatype KtKind =
    Ack
  | ClientConnected
  | Rpc
  | TaskWorkflowActivation
  | TaskActivity
  | TaskNexus
  | TaskStreamEnd
  | WorkerFailed
  | EphemeralStarted
  | ServerLog
  | Log

text \<open>\<^verbatim>\<open>kind as u32\<close>: the discriminant.\<close>

fun KtKind_u32 :: "KtKind \<Rightarrow> u32" where
  "KtKind_u32 Ack = 0"
| "KtKind_u32 ClientConnected = 1"
| "KtKind_u32 Rpc = 2"
| "KtKind_u32 TaskWorkflowActivation = 3"
| "KtKind_u32 TaskActivity = 4"
| "KtKind_u32 TaskNexus = 5"
| "KtKind_u32 TaskStreamEnd = 6"
| "KtKind_u32 WorkerFailed = 7"
| "KtKind_u32 EphemeralStarted = 8"
| "KtKind_u32 ServerLog = 9"
| "KtKind_u32 Log = 10"

definition KtKind_COUNT :: u32 where "KtKind_COUNT = 11"

section \<open>The completion record and its layout\<close>

record KtCompletion =
  kc_req_id :: u64
  kc_kind :: u32
  kc_status :: i32
  kc_payload :: u64
  kc_payload_len :: u64
  kc_aux0 :: u64
  kc_aux1 :: u64

text \<open>A field is its name, its size and its alignment in bytes.\<close>

type_synonym field = "string \<times> nat \<times> nat"

definition align_up :: "nat \<Rightarrow> nat \<Rightarrow> nat" where
  "align_up n a = (if n mod a = 0 then n else n + (a - n mod a))"

fun repr_c :: "nat \<Rightarrow> field list \<Rightarrow> (string \<times> nat) list \<times> nat" where
  "repr_c at [] = ([], at)"
| "repr_c at ((name, sz, al) # fs) =
     (let off = align_up at al; (offs, stop) = repr_c (off + sz) fs
      in ((name, off) # offs, stop))"

definition KtCompletion_fields :: "field list" where
  "KtCompletion_fields =
    [(''req_id'', 8, 8), (''kind'', 4, 4), (''status'', 4, 4), (''payload'', 8, 8),
     (''payload_len'', 8, 8), (''aux0'', 8, 8), (''aux1'', 8, 8)]"

definition align_of :: "field list \<Rightarrow> nat" where
  "align_of fs = foldr (\<lambda>(_, _, a) m. max a m) fs 1"

definition size_of :: "field list \<Rightarrow> nat" where
  "size_of fs = align_up (snd (repr_c 0 fs)) (align_of fs)"

definition offset_of :: "field list \<Rightarrow> string \<Rightarrow> nat option" where
  "offset_of fs name = map_of (fst (repr_c 0 fs)) name"

definition abi_probe_values :: "u32 list" where
  "abi_probe_values =
    (let off = (\<lambda>f. of_nat (case offset_of KtCompletion_fields f of Some n \<Rightarrow> n | None \<Rightarrow> 0))
     in [KT_ABI_MAGIC, KT_ABI_VERSION, of_nat (size_of KtCompletion_fields),
         off ''req_id'', off ''kind'', off ''status'', off ''payload'', off ''payload_len'',
         off ''aux0'', off ''aux1'', 64, KtKind_COUNT])"

section \<open>Facts\<close>

lemma KtKind_u32_inj: "KtKind_u32 a = KtKind_u32 b \<longleftrightarrow> a = b"
  by (cases a; cases b; simp)

lemma KtKind_u32_less: "KtKind_u32 k < KtKind_COUNT"
  by (cases k) (simp_all add: KtKind_COUNT_def)

lemma KtKind_UNIV:
  "UNIV = {Ack, ClientConnected, Rpc, TaskWorkflowActivation, TaskActivity, TaskNexus,
           TaskStreamEnd, WorkerFailed, EphemeralStarted, ServerLog, Log}"
  using KtKind.exhaust by auto

lemma KtKind_u32_surj:
  assumes "n < KtKind_COUNT"
  shows "\<exists>k. KtKind_u32 k = n"
proof -
  from assms have "unat n < 11" by (simp add: KtKind_COUNT_def word_less_nat_alt)
  then have "unat n \<in> {0, 1, 2, 3, 4, 5, 6, 7, 8, 9, 10}"
    by (auto simp: numeral_eq_Suc less_Suc_eq)
  then have "(of_nat (unat n) :: u32) \<in> of_nat ` {0, 1, 2, 3, 4, 5, 6, 7, 8, 9, 10}"
    by (rule imageI)
  then have "n \<in> range KtKind_u32"
    by (simp add: KtKind_UNIV)
  then show ?thesis by auto
qed

text \<open>No byte of the struct is padding: the fields tile \<open>0..<48\<close> without a gap.\<close>

fun tiles :: "nat \<Rightarrow> (string \<times> nat) list \<Rightarrow> field list \<Rightarrow> nat \<Rightarrow> bool" where
  "tiles at [] [] stop \<longleftrightarrow> at = stop"
| "tiles at ((n, off) # os) ((m, sz, al) # fs) stop \<longleftrightarrow>
     n = m \<and> off = at \<and> off mod al = 0 \<and> tiles (at + sz) os fs stop"
| "tiles at [] (_ # _) stop \<longleftrightarrow> False"
| "tiles at (_ # _) [] stop \<longleftrightarrow> False"

end
