(* ===== verification/Kt_Error.thy ===== *)
theory Kt_Error
  imports Kt_Abi
begin

text \<open>
  Bridge errors (\<^verbatim>\<open>error.rs\<close>): the error type, its wire code, its message, and the gRPC code of a
  tonic status. A tonic status is outside the repository; the record below has the parts the
  bridge reads: the code, the message, the details and the chain of causes behind
  \<^verbatim>\<open>Error::source\<close>, outermost first, each with its text and whether it is a
  \<^verbatim>\<open>tonic::TimeoutExpired\<close>.
\<close>

datatype KtError =
    InvalidArgument string
  | StaleHandle
  | WrongHandleKind
  | Shutdown
  | WorkerShutDown
  | Cancelled
  | BufferTooSmall
  | Failed string

type_synonym 'a KtResult = "('a, KtError) outcome"

fun KtError_code :: "KtError \<Rightarrow> i32" where
  "KtError_code (InvalidArgument _) = KT_ERR_INVALID_ARGUMENT"
| "KtError_code StaleHandle = KT_ERR_STALE_HANDLE"
| "KtError_code WrongHandleKind = KT_ERR_WRONG_HANDLE_KIND"
| "KtError_code Shutdown = KT_ERR_SHUTDOWN"
| "KtError_code WorkerShutDown = KT_ERR_WORKER_SHUT_DOWN"
| "KtError_code Cancelled = KT_ERR_CANCELLED"
| "KtError_code BufferTooSmall = KT_ERR_BUFFER_TOO_SMALL"
| "KtError_code (Failed _) = KT_ERR_FAILED"

text \<open>\<^verbatim>\<open>Display\<close>, as the \<^verbatim>\<open>#[error(...)]\<close> attributes give it.\<close>

fun KtError_to_string :: "KtError \<Rightarrow> string" where
  "KtError_to_string (InvalidArgument m) = ''invalid argument: '' @ m"
| "KtError_to_string StaleHandle = ''stale handle''"
| "KtError_to_string WrongHandleKind = ''handle is not of the expected kind''"
| "KtError_to_string Shutdown = ''runtime is shutting down''"
| "KtError_to_string WorkerShutDown = ''worker already shut down''"
| "KtError_to_string Cancelled = ''cancelled''"
| "KtError_to_string BufferTooSmall = ''buffer too small''"
| "KtError_to_string (Failed m) = m"

text \<open>The two conversions \<^verbatim>\<open>From<anyhow::Error>\<close> and \<^verbatim>\<open>From<prost::DecodeError>\<close>.\<close>

definition KtError_from_anyhow :: "string \<Rightarrow> KtError" where
  "KtError_from_anyhow value = Failed value"

definition KtError_from_decode :: "string \<Rightarrow> KtError" where
  "KtError_from_decode value = InvalidArgument (''could not decode protobuf: '' @ value)"

record cause =
  is_timeout_expired :: bool
  cause_text :: string

record tonic_status =
  ts_code :: i32
  ts_message :: string
  ts_details :: "u8 list"
  ts_source :: "cause list"

text \<open>The gRPC codes the bridge names: \<^verbatim>\<open>Code::Cancelled\<close> and \<^verbatim>\<open>Code::DeadlineExceeded\<close>.\<close>

definition GRPC_CANCELLED :: i32 where "GRPC_CANCELLED = 1"
definition GRPC_DEADLINE_EXCEEDED :: i32 where "GRPC_DEADLINE_EXCEEDED = 4"

text \<open>The \<^verbatim>\<open>while let\<close> loop over the chain of causes: does it meet a local timeout?\<close>

fun timeout_in_chain :: "cause list \<Rightarrow> bool" where
  "timeout_in_chain [] = False"
| "timeout_in_chain (c # cs) = (if is_timeout_expired c then True else timeout_in_chain cs)"

definition grpc_status_code :: "tonic_status \<Rightarrow> i32" where
  "grpc_status_code status =
    (if ts_code status = GRPC_CANCELLED
     then (if timeout_in_chain (ts_source status) then GRPC_DEADLINE_EXCEEDED else ts_code status)
     else ts_code status)"

section \<open>Facts\<close>

lemma KT_OK_neq_PANIC [simp]: "KT_OK \<noteq> KT_ERR_PANIC" "KT_ERR_PANIC \<noteq> KT_OK"
  by (simp_all add: kt_codes)

lemma timeout_in_chain_iff: "timeout_in_chain cs \<longleftrightarrow> (\<exists>c \<in> set cs. is_timeout_expired c)"
  by (induction cs) auto

lemma KtError_code_negative: "sint (KtError_code e) < 0"
  by (cases e) (simp_all add: kt_codes)

lemma KtError_code_nonzero [simp]: "KtError_code e \<noteq> KT_OK"
  by (cases e) (simp_all add: kt_codes)

lemma KtError_code_not_panic [simp]: "KtError_code e \<noteq> KT_ERR_PANIC"
  by (cases e) (simp_all add: kt_codes)

end
