(* ===== verification/Kt_Panic.thy ===== *)
theory Kt_Panic
  imports Kt_Error
begin

text \<open>
  Panic containment (\<^verbatim>\<open>panic.rs\<close>). \<open>guard\<close> turns what an entry point's body did into a status
  code and the calling thread's last error text; a panic is just another value of the body's
  outcome here, because \<^verbatim>\<open>catch_unwind\<close> makes it one. The thread-local \<^verbatim>\<open>LAST_ERROR\<close> is passed in
  and out.
\<close>

definition set_last_error :: "string \<Rightarrow> string \<Rightarrow> string" where
  "set_last_error message slot = message"

definition with_last_error :: "(string \<Rightarrow> 'r) \<Rightarrow> string \<Rightarrow> 'r" where
  "with_last_error f slot = f slot"

fun panic_message :: "panic_payload \<Rightarrow> string" where
  "panic_message (StaticStr s) = s"
| "panic_message (OwnedString s) = s"
| "panic_message OtherPayload = ''non-string panic payload''"

fun guard :: "unit KtResult \<Rightarrow> string \<Rightarrow> i32 \<times> string" where
  "guard (Ok ()) slot = (KT_OK, slot)"
| "guard (Err err) slot = (KtError_code err, set_last_error (KtError_to_string err) slot)"
| "guard (Panicked payload) slot =
     (KT_ERR_PANIC, set_last_error (''panic: '' @ panic_message payload) slot)"

section \<open>Facts\<close>

lemma guard_OK_iff: "fst (guard r slot) = KT_OK \<longleftrightarrow> r = Ok ()"
  by (cases r) auto

lemma guard_PANIC_iff: "fst (guard r slot) = KT_ERR_PANIC \<longleftrightarrow> panics r"
  by (cases r) auto

end
