(* ===== verification/Kt_Ffi.thy ===== *)
theory Kt_Ffi
  imports Kt_Panic
begin

text \<open>
  Raw memory at the boundary (\<^verbatim>\<open>lib.rs\<close>, the helpers \<^verbatim>\<open>write_out\<close> and \<^verbatim>\<open>slice\<close> and the two entry
  points that are not \<^verbatim>\<open>kt_export!\<close>). A pointer is a 64-bit address and null is 0; memory maps
  addresses to bytes. Integers are stored little-endian, as on every supported target. The
  functions are the caller's contract made explicit: they write exactly the bytes the source
  writes, through the pointers it is given.
\<close>

type_synonym memory = "u64 \<Rightarrow> u8"

definition store_bytes :: "memory \<Rightarrow> u64 \<Rightarrow> u8 list \<Rightarrow> memory" where
  "store_bytes m a bs =
    (\<lambda>x. if unat (x - a) < length bs then bs ! unat (x - a) else m x)"

definition load_bytes :: "memory \<Rightarrow> u64 \<Rightarrow> nat \<Rightarrow> u8 list" where
  "load_bytes m a n = map (\<lambda>i. m (a + of_nat i)) [0..<n]"

definition u32_bytes :: "u32 \<Rightarrow> u8 list" where
  "u32_bytes w = map (\<lambda>i. ucast (drop_bit (8 * i) w)) [0..<4]"

definition u64_bytes :: "u64 \<Rightarrow> u8 list" where
  "u64_bytes w = map (\<lambda>i. ucast (drop_bit (8 * i) w)) [0..<8]"

definition store_u32 :: "memory \<Rightarrow> u64 \<Rightarrow> u32 \<Rightarrow> memory" where
  "store_u32 m a w = store_bytes m a (u32_bytes w)"

definition store_u64 :: "memory \<Rightarrow> u64 \<Rightarrow> u64 \<Rightarrow> memory" where
  "store_u64 m a w = store_bytes m a (u64_bytes w)"

definition write_out :: "u8 list \<Rightarrow> u64 \<Rightarrow> u32 \<Rightarrow> u64 \<Rightarrow> memory \<Rightarrow> unit KtResult \<times> memory" where
  "write_out src out cap out_len m =
    (if out_len = 0 then (Err (InvalidArgument ''out_len is null''), m)
     else let m = store_u32 m out_len (of_nat (length src))
          in if length src > unat cap then (Err BufferTooSmall, m)
             else if src \<noteq> []
             then (if out = 0 then (Err (InvalidArgument ''out is null''), m)
                   else (Ok (), store_bytes m out src))
             else (Ok (), m))"

definition slice :: "memory \<Rightarrow> u64 \<Rightarrow> u32 \<Rightarrow> u8 list KtResult" where
  "slice m ptr len =
    (if len = 0 then Ok []
     else if ptr = 0 then Err (InvalidArgument ''null pointer with non-zero length'')
     else Ok (load_bytes m ptr (unat len)))"

definition kt_abi_probe :: "u64 \<Rightarrow> u32 \<Rightarrow> memory \<Rightarrow> u32 \<times> memory" where
  "kt_abi_probe out cap m =
    (let values = abi_probe_values;
         n = min (unat cap) (length values)
     in (of_nat (length values),
         if out \<noteq> 0 then store_bytes m out (concat (map u32_bytes (take n values))) else m))"

definition kt_last_error :: "string \<Rightarrow> u64 \<Rightarrow> u32 \<Rightarrow> memory \<Rightarrow> u32 \<times> memory" where
  "kt_last_error slot out cap m =
    with_last_error (\<lambda>message.
      let bs = string_bytes message;
          n = min (unat cap) (length bs)
      in (of_nat (length bs), if out \<noteq> 0 then store_bytes m out (take n bs) else m)) slot"

section \<open>Memory laws\<close>

lemma length_u32_bytes [simp]: "length (u32_bytes w) = 4"
  by (simp add: u32_bytes_def)

lemma length_u64_bytes [simp]: "length (u64_bytes w) = 8"
  by (simp add: u64_bytes_def)

lemma length_load_bytes [simp]: "length (load_bytes m a n) = n"
  by (simp add: load_bytes_def)

lemma load_store_same:
  assumes "length bs < 2 ^ 64"
  shows "load_bytes (store_bytes m a bs) a (length bs) = bs"
  by (rule nth_equalityI) (use assms in \<open>simp_all add: load_bytes_def store_bytes_def\<close>)

text \<open>Two regions are disjoint when no address lies in both.\<close>

definition disjoint_regions :: "u64 \<Rightarrow> nat \<Rightarrow> u64 \<Rightarrow> nat \<Rightarrow> bool" where
  "disjoint_regions a n b k \<longleftrightarrow>
     list_all (\<lambda>i. list_all (\<lambda>j. a + of_nat i \<noteq> b + of_nat j) [0..<k]) [0..<n]"

lemma load_store_other:
  assumes "disjoint_regions a n b (length bs)"
  shows "load_bytes (store_bytes m b bs) a n = load_bytes m a n"
proof -
  have "\<not> unat (a + of_nat i - b) < length bs" if "i < n" for i
  proof
    assume u: "unat (a + of_nat i - b) < length bs"
    have "\<forall>j \<in> {0..<length bs}. a + of_nat i \<noteq> b + of_nat j"
      using assms that by (simp add: disjoint_regions_def list_all_iff)
    with u have "a + of_nat i \<noteq> b + of_nat (unat (a + of_nat i - b))"
      by (metis atLeastLessThan_iff le0)
    then show False by simp
  qed
  then show ?thesis by (simp add: load_bytes_def store_bytes_def)
qed

lemma u32_bytes_inj: "u32_bytes v = u32_bytes w \<Longrightarrow> v = w"
proof (rule bit_word_eqI)
  fix n assume eq: "u32_bytes v = u32_bytes w" and "n < LENGTH(32)"
  then have n: "n div 8 < 4" by simp
  have "(ucast (drop_bit (8 * (n div 8)) v) :: u8) = ucast (drop_bit (8 * (n div 8)) w)"
    using arg_cong [OF eq, of "\<lambda>l. l ! (n div 8)"] n by (simp add: u32_bytes_def)
  then have "bit (ucast (drop_bit (8 * (n div 8)) v) :: u8) (n mod 8) =
    bit (ucast (drop_bit (8 * (n div 8)) w) :: u8) (n mod 8)" by simp
  then show "bit v n = bit w n" by (simp add: bit_simps)
qed

section \<open>Properties\<close>

text \<open>Reporting the size before writing makes the two-call protocol work. For a source
  shorter than 4 GiB and a length cell that does not overlap the buffer: a call whose buffer is too
  small leaves the buffer untouched and stores the exact length needed, and a second call with that
  capacity succeeds and delivers every byte.\<close>

theorem write_out_retry:
  assumes "length src < 2 ^ 32" and "unat cap < length src" and "out \<noteq> 0" and "out_len \<noteq> 0"
    and "disjoint_regions out (length src) out_len 4"
  shows "\<exists>m1 m2. write_out src out cap out_len m = (Err BufferTooSmall, m1) \<and>
     load_bytes m1 out_len 4 = u32_bytes (of_nat (length src)) \<and>
     load_bytes m1 out (length src) = load_bytes m out (length src) \<and>
     write_out src out (of_nat (length src)) out_len m1 = (Ok (), m2) \<and>
     load_bytes m2 out (length src) = src"
proof -
  let ?n = "of_nat (length src) :: u32"
  let ?m1 = "store_u32 m out_len ?n"
  let ?m2 = "store_bytes (store_u32 ?m1 out_len ?n) out src"
  have "unat ?n = length src" using assms(1) by simp
  moreover have "src \<noteq> []" using assms(2) by auto
  moreover have "load_bytes ?m1 out_len 4 = u32_bytes ?n"
    using load_store_same [of "u32_bytes ?n" m out_len] by (simp add: store_u32_def)
  moreover have "load_bytes ?m1 out (length src) = load_bytes m out (length src)"
    using assms(5) by (simp add: store_u32_def load_store_other)
  moreover have "load_bytes ?m2 out (length src) = src"
    using assms(1) by (simp add: load_store_same)
  ultimately show ?thesis
    using assms by (intro exI [of _ ?m1] exI [of _ ?m2]) (simp add: write_out_def)
qed

theorem write_out_retry_witness:
  "\<exists>m1 m2. write_out [1, 2, 3] 0x1000 2 0x2000 (\<lambda>_. 0) = (Err BufferTooSmall, m1) \<and>
     load_bytes m1 0x2000 4 = [3, 0, 0, 0] \<and>
     write_out [1, 2, 3] 0x1000 3 0x2000 m1 = (Ok (), m2) \<and> load_bytes m2 0x1000 3 = [1, 2, 3]"
proof -
  have l: "length [1, 2, 3 :: u8] = 3" by simp
  have d: "disjoint_regions 0x1000 3 0x2000 4" by code_simp
  have b: "u32_bytes 3 = [3, 0, 0, 0]" by code_simp
  from write_out_retry [of "[1, 2, 3]" 2 "0x1000" "0x2000" "\<lambda>_. 0", unfolded l]
  show ?thesis using d b by fastforce
qed

text \<open>The self-description the JVM checks at load time is the layout the code has: the
  magic word, version 3, a struct of 48 bytes whose seven fields tile it at offsets 0, 8, 12, 16,
  24, 32 and 40 without padding, 64-bit pointers and 11 kinds, whose discriminants are exactly the
  numbers below 11.\<close>

theorem abi_probe_layout:
  "abi_probe_values = [0x4B544231, 3, 48, 0, 8, 12, 16, 24, 32, 40, 64, 11] \<and>
   tiles 0 (fst (repr_c 0 KtCompletion_fields)) KtCompletion_fields (size_of KtCompletion_fields) \<and>
   align_of KtCompletion_fields = 8 \<and>
   range KtKind_u32 = {n. n < KtKind_COUNT} \<and> inj KtKind_u32"
proof (intro conjI)
  show "abi_probe_values = [0x4B544231, 3, 48, 0, 8, 12, 16, 24, 32, 40, 64, 11]"
    by code_simp
  show "tiles 0 (fst (repr_c 0 KtCompletion_fields)) KtCompletion_fields
      (size_of KtCompletion_fields)"
    by code_simp
  show "align_of KtCompletion_fields = 8"
    by (simp add: KtCompletion_fields_def align_of_def)
  show "range KtKind_u32 = {n. n < KtKind_COUNT}"
    using KtKind_u32_less KtKind_u32_surj by (auto simp: image_iff) metis
  show "inj KtKind_u32"
    by (rule injI) (simp add: KtKind_u32_inj)
qed

text \<open>Containment at the boundary is total: whatever an entry point's body does, the caller
  gets a status. It is 0 exactly on success, -1 exactly on a panic, and otherwise the error's own
  negative code, different for any two errors of different kinds; on every failure the thread's
  last error is replaced by the text of that failure, and on success it is kept.\<close>

theorem guard_total:
  "(case r of
      Ok _ \<Rightarrow> guard r slot = (KT_OK, slot)
    | Err e \<Rightarrow> guard r slot = (KtError_code e, KtError_to_string e) \<and> sint (KtError_code e) < -1
    | Panicked p \<Rightarrow> guard r slot = (KT_ERR_PANIC, ''panic: '' @ panic_message p) \<and>
        sint KT_ERR_PANIC = -1) \<and>
   (KtError_code e1 = KtError_code e2 \<longleftrightarrow>
      e1 = e2 \<or> (\<exists>m m'. e1 = InvalidArgument m \<and> e2 = InvalidArgument m') \<or>
      (\<exists>m m'. e1 = Failed m \<and> e2 = Failed m'))"
proof
  show "case r of
      Ok _ \<Rightarrow> guard r slot = (KT_OK, slot)
    | Err e \<Rightarrow> guard r slot = (KtError_code e, KtError_to_string e) \<and> sint (KtError_code e) < -1
    | Panicked p \<Rightarrow> guard r slot = (KT_ERR_PANIC, ''panic: '' @ panic_message p) \<and>
        sint KT_ERR_PANIC = -1"
  proof (cases r)
    case (Err e)
    then show ?thesis by (cases e) (simp_all add: kt_codes set_last_error_def)
  qed (simp_all add: kt_codes set_last_error_def)
  show "KtError_code e1 = KtError_code e2 \<longleftrightarrow>
      e1 = e2 \<or> (\<exists>m m'. e1 = InvalidArgument m \<and> e2 = InvalidArgument m') \<or>
      (\<exists>m m'. e1 = Failed m \<and> e2 = Failed m')"
    by (cases e1; cases e2) (simp_all add: kt_codes)
qed

end
