(* ===== verification/Kt_Call.thy ===== *)
theory Kt_Call
  imports Kt_Error
begin

text \<open>
  Calls that read and change a state and may fail: the shape of every \<^verbatim>\<open>kt_export!\<close> body. A call is a
  function from the state to its result and the state it leaves, also when it fails, because what was
  done before an early return stays done. \<open>then_do\<close> is the sequencing that \<^verbatim>\<open>?\<close> gives: it stops at the
  first error or panic.

  The second part is a small Hoare logic: \<open>triple P m Q E\<close> says that from \<open>P\<close> the call \<open>m\<close> ends with \<open>Q\<close>
  of its result, or fails in a state with \<open>E\<close>. Its rules are collected in \<open>kt_wp\<close>.
\<close>

type_synonym ('s, 'a) api_call = "'s \<Rightarrow> 'a KtResult \<times> 's"

definition then_do :: "('s, 'a) api_call \<Rightarrow> ('a \<Rightarrow> ('s, 'b) api_call) \<Rightarrow> ('s, 'b) api_call" where
  "then_do m f = (\<lambda>s. case m s of
      (Ok x, s') \<Rightarrow> f x s'
    | (Err e, s') \<Rightarrow> (Err e, s')
    | (Panicked p, s') \<Rightarrow> (Panicked p, s'))"

definition give :: "'a KtResult \<Rightarrow> ('s, 'a) api_call" where
  "give r = (\<lambda>s. (r, s))"

definition ask :: "('s \<Rightarrow> 'a KtResult) \<Rightarrow> ('s, 'a) api_call" where
  "ask f = (\<lambda>s. (f s, s))"

definition require :: "bool \<Rightarrow> KtError \<Rightarrow> ('s, unit) api_call" where
  "require b e = give (if b then Ok () else Err e)"

definition change :: "('s \<Rightarrow> 's) \<Rightarrow> ('s, unit) api_call" where
  "change f = (\<lambda>s. (Ok (), f s))"

named_theorems kt_call \<open>evaluation of calls\<close>

lemmas call_defs = then_do_def give_def ask_def require_def change_def

lemma then_do_Ok [kt_call]: "m s = (Ok x, s') \<Longrightarrow> then_do m f s = f x s'"
  by (simp add: then_do_def)

lemma then_do_Err [kt_call]: "m s = (Err e, s') \<Longrightarrow> then_do m f s = (Err e, s')"
  by (simp add: then_do_def)

lemma then_do_Panicked [kt_call]: "m s = (Panicked p, s') \<Longrightarrow> then_do m f s = (Panicked p, s')"
  by (simp add: then_do_def)

lemma then_do_give [simp]: "then_do (give (Ok x)) f = f x"
  by (simp add: then_do_def give_def)

lemma then_do_assoc: "then_do (then_do m f) g = then_do m (\<lambda>x. then_do (f x) g)"
  by (rule ext) (simp add: then_do_def split: prod.splits outcome.splits)

lemma then_do_Ok_iff:
  "then_do m f s = (Ok y, s') \<longleftrightarrow> (\<exists>x s1. m s = (Ok x, s1) \<and> f x s1 = (Ok y, s'))"
  by (auto simp: then_do_def split: prod.splits outcome.splits)

lemma ask_iff: "ask f s = (r, s') \<longleftrightarrow> r = f s \<and> s' = s"
  by (auto simp: ask_def)

lemma require_iff: "require b e s = (r, s') \<longleftrightarrow> r = (if b then Ok () else Err e) \<and> s' = s"
  by (auto simp: require_def give_def)

lemma give_iff: "give x s = (r, s') \<longleftrightarrow> r = x \<and> s' = s"
  by (auto simp: give_def)

lemma change_iff: "change f s = (r, s') \<longleftrightarrow> r = Ok () \<and> s' = f s"
  by (auto simp: change_def)

lemmas call_iffs = ask_iff require_iff give_iff change_iff

lemma call_Ok_iffs:
  "ask f s = (Ok x, s') \<longleftrightarrow> f s = Ok x \<and> s' = s" "give r s = (Ok x, s') \<longleftrightarrow> r = Ok x \<and> s' = s"
  "require b e s = (Ok u, s') \<longleftrightarrow> b \<and> s' = s" "change g s = (Ok u, s') \<longleftrightarrow> s' = g s"
  by (auto simp: call_iffs)

section \<open>A small Hoare logic\<close>

definition triple ::
  "('s \<Rightarrow> bool) \<Rightarrow> ('s, 'a) api_call \<Rightarrow> ('a \<Rightarrow> 's \<Rightarrow> bool) \<Rightarrow> ('s \<Rightarrow> bool) \<Rightarrow> bool"
where
  "triple P m Q E \<longleftrightarrow> (\<forall>s. P s \<longrightarrow> (case m s of (Ok x, s') \<Rightarrow> Q x s' | (_, s') \<Rightarrow> E s'))"

named_theorems kt_wp \<open>rules of the Hoare logic of calls\<close>

lemma triple_then_do [kt_wp]:
  assumes "triple P m R E" and "\<And>x. triple (R x) (f x) Q E"
  shows "triple P (then_do m f) Q E"
  unfolding triple_def
proof (intro allI impI)
  fix s
  assume p: "P s"
  obtain r s1 where m: "m s = (r, s1)" by (cases "m s")
  show "case then_do m f s of (Ok x, s') \<Rightarrow> Q x s' | (_, s') \<Rightarrow> E s'"
  proof (cases r)
    case (Ok x)
    then have "R x s1" using assms(1) p m by (auto simp: triple_def)
    then show ?thesis using assms(2) [of x] m Ok by (simp add: triple_def then_do_def)
  qed (use assms(1) p m in \<open>auto simp: triple_def then_do_def\<close>)
qed

lemma triple_ask [kt_wp]:
  assumes "\<And>s. P s \<Longrightarrow> E s"
  shows "triple P (ask f) (\<lambda>x s. P s \<and> f s = Ok x) E"
  using assms by (simp add: triple_def ask_def split: outcome.splits)

lemma triple_require [kt_wp]:
  assumes "\<And>s. P s \<Longrightarrow> E s"
  shows "triple P (require b e) (\<lambda>_ s. P s \<and> b) E"
  using assms by (simp add: triple_def require_def give_def)

lemma triple_give [kt_wp]:
  assumes "\<And>s. P s \<Longrightarrow> E s"
  shows "triple P (give r) (\<lambda>x s. P s \<and> r = Ok x) E"
  using assms by (simp add: triple_def give_def split: outcome.splits)

lemma triple_change:
  assumes "\<And>s. P s \<Longrightarrow> Q () (f s)"
  shows "triple P (change f) Q E"
  using assms by (simp add: triple_def change_def)

lemma triple_weaken:
  assumes "triple P m Q E" and "\<And>s. P' s \<Longrightarrow> P s" and "\<And>x s. Q x s \<Longrightarrow> Q' x s" and "\<And>s. E s \<Longrightarrow> E' s"
  shows "triple P' m Q' E'"
  using assms by (fastforce simp: triple_def split: prod.splits outcome.splits)

lemma triple_use:
  assumes "triple P m Q E" and "P s" and "m s = (r, s')"
  shows "case r of Ok x \<Rightarrow> Q x s' | _ \<Rightarrow> E s'"
  using assms by (auto simp: triple_def split: outcome.splits)

end
