(* ===== verification/Kt_Handle.thy ===== *)
theory Kt_Handle
  imports Kt_Error
begin

text \<open>
  The generation-counted handle table of \<^verbatim>\<open>handle.rs\<close>.

  An \<^verbatim>\<open>Arc\<close> held by an entry is the address of its allocation (\<open>arc\<close>), so two handles to one
  object hold equal addresses. The functions below take the table that the write or read guard of
  \<^verbatim>\<open>RwLock<Table>\<close> gives access to and return the table at the end of the critical section: one
  call is one atomic step.

  A handle is \<^verbatim>\<open>[kind:u8 | generation:u24 | index:u32]\<close>. \<open>handle_kind\<close>, \<open>handle_gen\<close> and
  \<open>handle_index\<close> are the three expressions the source reads it with.
\<close>

type_synonym arc = nat

datatype Entry =
    Runtime arc
  | Client arc
  | Worker arc
  | Ephemeral arc
  | Poller arc

definition KIND_SHIFT :: nat where "KIND_SHIFT = 56"
definition GEN_SHIFT :: nat where "GEN_SHIFT = 32"
definition GEN_MASK :: u64 where "GEN_MASK = 0x00FFFFFF"

definition KIND_RUNTIME :: u8 where "KIND_RUNTIME = 1"
definition KIND_CLIENT :: u8 where "KIND_CLIENT = 2"
definition KIND_WORKER :: u8 where "KIND_WORKER = 3"
definition KIND_EPHEMERAL :: u8 where "KIND_EPHEMERAL = 4"
definition KIND_POLLER :: u8 where "KIND_POLLER = 5"

lemmas kind_defs = KIND_RUNTIME_def KIND_CLIENT_def KIND_WORKER_def KIND_EPHEMERAL_def
  KIND_POLLER_def

fun Entry_kind :: "Entry \<Rightarrow> u8" where
  "Entry_kind (Runtime _) = KIND_RUNTIME"
| "Entry_kind (Client _) = KIND_CLIENT"
| "Entry_kind (Worker _) = KIND_WORKER"
| "Entry_kind (Ephemeral _) = KIND_EPHEMERAL"
| "Entry_kind (Poller _) = KIND_POLLER"

record Slot =
  generation :: u32
  owner :: u64
  entry :: "Entry option"

record Table =
  slots :: "Slot list"
  free :: "u32 list"

definition HandleTable_new :: Table where
  "HandleTable_new = \<lparr>slots = [], free = []\<rparr>"

definition handle_kind :: "u64 \<Rightarrow> u8" where
  "handle_kind handle = ucast (drop_bit KIND_SHIFT handle)"

definition handle_gen :: "u64 \<Rightarrow> u32" where
  "handle_gen handle = ucast (drop_bit GEN_SHIFT handle AND GEN_MASK)"

definition handle_index :: "u64 \<Rightarrow> nat" where
  "handle_index handle = unat (ucast handle :: u32)"

definition make_handle :: "u8 \<Rightarrow> u32 \<Rightarrow> u32 \<Rightarrow> u64" where
  "make_handle kind gen index =
    push_bit KIND_SHIFT (ucast kind) OR push_bit GEN_SHIFT (ucast gen AND GEN_MASK) OR ucast index"

definition next_generation :: "u32 \<Rightarrow> u32" where
  "next_generation gen = max ((gen + 1) AND ucast GEN_MASK) 1"

definition insert_into :: "Table \<Rightarrow> Entry \<Rightarrow> u64 \<Rightarrow> u64 KtResult \<times> Table" where
  "insert_into table e own =
    (case vec_pop (free table) of
       Some (index, rest) \<Rightarrow>
         (if unat index < length (slots table)
          then let slot = (slots table ! unat index)\<lparr>entry := Some e, owner := own\<rparr>
               in (Ok (make_handle (Entry_kind e) (generation slot) index),
                   \<lparr>slots = (slots table)[unat index := slot], free = rest\<rparr>)
          else (Panicked (OwnedString ''index out of bounds''), table\<lparr>free := rest\<rparr>))
     | None \<Rightarrow>
         (let ss = slots table @ [\<lparr>generation = 1, owner = own, entry = Some e\<rparr>];
              index = (of_nat (length ss - 1) :: u32)
          in (Ok (make_handle (Entry_kind e) (generation (ss ! unat index)) index),
              table\<lparr>slots := ss\<rparr>)))"

definition validate :: "Table \<Rightarrow> u64 \<Rightarrow> u8 \<Rightarrow> nat KtResult" where
  "validate table handle expected_kind =
    (if handle = 0 then Err StaleHandle
     else if handle_kind handle \<noteq> expected_kind then Err WrongHandleKind
     else if \<not> handle_index handle < length (slots table) then Err StaleHandle
     else let slot = slots table ! handle_index handle
          in if generation slot \<noteq> handle_gen handle then Err StaleHandle
             else case entry slot of
                    None \<Rightarrow> Err StaleHandle
                  | Some e \<Rightarrow> if Entry_kind e \<noteq> expected_kind then Err WrongHandleKind
                              else Ok (handle_index handle))"

definition take_slot :: "Table \<Rightarrow> nat \<Rightarrow> Entry KtResult \<times> Table" where
  "take_slot table index =
    (if \<not> index < length (slots table)
     then (Panicked (OwnedString ''index out of bounds''), table)
     else let slot = slots table ! index
          in case entry slot of
               None \<Rightarrow> (Panicked (OwnedString ''validated live slot''), table)
             | Some e \<Rightarrow>
                 (Ok e, \<lparr>slots = (slots table)[index :=
                          \<lparr>generation = next_generation (generation slot), owner = 0,
                           entry = None\<rparr>],
                         free = free table @ [of_nat index]\<rparr>))"

definition insert_entry :: "Table \<Rightarrow> Entry \<Rightarrow> u64 KtResult \<times> Table" where
  "insert_entry table e = insert_into table e 0"

text \<open>
  The third component lists the entries that the call closes after it has released the lock.
\<close>

definition insert_owned :: "Table \<Rightarrow> u64 \<Rightarrow> Entry \<Rightarrow> u64 KtResult \<times> Table \<times> Entry list" where
  "insert_owned table runtime e =
    (case validate table runtime KIND_RUNTIME of
       Ok _ \<Rightarrow> (case insert_into table e runtime of (r, table') \<Rightarrow> (r, table', []))
     | Err _ \<Rightarrow> (Err Shutdown, table, [e])
     | Panicked p \<Rightarrow> (Panicked p, table, []))"

fun take_owned :: "u64 \<Rightarrow> nat list \<Rightarrow> Table \<Rightarrow> Entry list KtResult \<times> Table" where
  "take_owned runtime [] table = (Ok [], table)"
| "take_owned runtime (index # rest) table =
     (if owner (slots table ! index) = runtime
      then case take_slot table index of
             (Ok e, table') \<Rightarrow>
               (case take_owned runtime rest table' of
                  (r, table'') \<Rightarrow> (and_then r (\<lambda>es. Ok (e # es)), table''))
           | (Err x, table') \<Rightarrow> (Err x, table')
           | (Panicked p, table') \<Rightarrow> (Panicked p, table')
      else take_owned runtime rest table)"

definition remove_runtime :: "Table \<Rightarrow> u64 \<Rightarrow> (arc \<times> Entry list) KtResult \<times> Table" where
  "remove_runtime table runtime =
    (case validate table runtime KIND_RUNTIME of
       Err x \<Rightarrow> (Err x, table)
     | Panicked p \<Rightarrow> (Panicked p, table)
     | Ok index \<Rightarrow>
         (case take_slot table index of
            (Ok (Runtime r), table') \<Rightarrow>
              (case take_owned runtime [0..<length (slots table')] table' of
                 (res, table'') \<Rightarrow> (and_then res (\<lambda>children. Ok (r, children)), table''))
          | (Ok _, table') \<Rightarrow> (Panicked (StaticStr ''internal error: entered unreachable code''), table')
          | (Err x, table') \<Rightarrow> (Err x, table')
          | (Panicked p, table') \<Rightarrow> (Panicked p, table')))"

definition require_owner :: "Table \<Rightarrow> u64 \<Rightarrow> u64 \<Rightarrow> unit KtResult" where
  "require_owner table handle runtime =
    and_then (validate table handle (handle_kind handle)) (\<lambda>index.
      if owner (slots table ! index) \<noteq> runtime
      then Err (InvalidArgument ''handle belongs to a different runtime'')
      else Ok ())"

definition remove_of_kind :: "Table \<Rightarrow> u64 \<Rightarrow> u8 \<Rightarrow> Entry KtResult \<times> Table" where
  "remove_of_kind table handle expected_kind =
    (case validate table handle expected_kind of
       Ok index \<Rightarrow> take_slot table index
     | Err x \<Rightarrow> (Err x, table)
     | Panicked p \<Rightarrow> (Panicked p, table))"

definition with_entry :: "Table \<Rightarrow> u64 \<Rightarrow> (Entry \<Rightarrow> 'r KtResult) \<Rightarrow> 'r KtResult" where
  "with_entry table handle f =
    and_then (validate table handle (handle_kind handle)) (\<lambda>index.
      case entry (slots table ! index) of
        Some e \<Rightarrow> f e
      | None \<Rightarrow> Panicked (OwnedString ''validated live slot''))"

text \<open>The five getters that the macro \<^verbatim>\<open>typed_getter!\<close> expands to.\<close>

definition get_runtime :: "Table \<Rightarrow> u64 \<Rightarrow> arc KtResult" where
  "get_runtime table handle =
    with_entry table handle (\<lambda>e. case e of Runtime v \<Rightarrow> Ok v | _ \<Rightarrow> Err WrongHandleKind)"

definition get_client :: "Table \<Rightarrow> u64 \<Rightarrow> arc KtResult" where
  "get_client table handle =
    with_entry table handle (\<lambda>e. case e of Client v \<Rightarrow> Ok v | _ \<Rightarrow> Err WrongHandleKind)"

definition get_worker :: "Table \<Rightarrow> u64 \<Rightarrow> arc KtResult" where
  "get_worker table handle =
    with_entry table handle (\<lambda>e. case e of Worker v \<Rightarrow> Ok v | _ \<Rightarrow> Err WrongHandleKind)"

definition get_ephemeral :: "Table \<Rightarrow> u64 \<Rightarrow> arc KtResult" where
  "get_ephemeral table handle =
    with_entry table handle (\<lambda>e. case e of Ephemeral v \<Rightarrow> Ok v | _ \<Rightarrow> Err WrongHandleKind)"

definition get_poller :: "Table \<Rightarrow> u64 \<Rightarrow> arc KtResult" where
  "get_poller table handle =
    with_entry table handle (\<lambda>e. case e of Poller v \<Rightarrow> Ok v | _ \<Rightarrow> Err WrongHandleKind)"

section \<open>Specification\<close>

text \<open>
  What a client of the table sees: a partial map from handles to the owner and the entry behind
  them. \<open>lookup_handle\<close> is the map; \<open>wf_table\<close> is the invariant that makes every operation a
  map operation: generations are never 0 and fit their 24 bits, a dead slot has no owner, and the
  free list names exactly the dead slots, each once.
\<close>

definition lookup_handle :: "Table \<Rightarrow> u64 \<Rightarrow> (u64 \<times> Entry) option" where
  "lookup_handle table handle =
    (case validate table handle (handle_kind handle) of
       Ok i \<Rightarrow> map_option (\<lambda>e. (owner (slots table ! i), e)) (entry (slots table ! i))
     | _ \<Rightarrow> None)"

definition wf_slot :: "Slot \<Rightarrow> bool" where
  "wf_slot s \<longleftrightarrow> 0 < generation s \<and> generation s < 2 ^ 24 \<and> (entry s = None \<longrightarrow> owner s = 0)"

definition wf_table :: "Table \<Rightarrow> bool" where
  "wf_table t \<longleftrightarrow>
     length (slots t) \<le> 2 ^ 32 \<and> list_all wf_slot (slots t) \<and> distinct (free t) \<and>
     set (free t) = {of_nat i |i. i < length (slots t) \<and> entry (slots t ! i) = None}"

text \<open>
  Ownership: an owner is always a live runtime, and runtimes themselves are not owned. The
  bridge keeps it by inserting runtimes unowned and by removing a runtime only with
  \<^verbatim>\<open>remove_runtime\<close>.
\<close>

definition owners_live :: "Table \<Rightarrow> bool" where
  "owners_live t \<longleftrightarrow>
     (\<forall>h own e. lookup_handle t h = Some (own, e) \<longrightarrow> own \<noteq> 0 \<longrightarrow>
        (\<exists>r. lookup_handle t own = Some (0, Runtime r)) \<and> Entry_kind e \<noteq> KIND_RUNTIME)"

section \<open>Handles as bit fields\<close>

lemma GEN_MASK_mask: "GEN_MASK = mask 24" "(ucast GEN_MASK :: u32) = mask 24"
  by (simp_all add: GEN_MASK_def mask_eq_exp_minus_1)

lemmas handle_bit_defs = handle_kind_def handle_gen_def handle_index_def make_handle_def
  KIND_SHIFT_def GEN_SHIFT_def GEN_MASK_mask

lemma bit_generation: "(g :: u32) < 16777216 \<Longrightarrow> bit g n \<Longrightarrow> n < 24"
  by (rule bit_imp_lt_of_less_exp) simp_all

lemma handle_kind_make [simp]: "handle_kind (make_handle k g i) = k"
  unfolding handle_bit_defs
  by (rule bit_word_eqI) (auto simp: bit_simps dest: bit_imp_le_length)

lemma handle_index_make [simp]: "handle_index (make_handle k g i) = unat i"
proof -
  have "ucast (make_handle k g i) = i"
    unfolding handle_bit_defs by (rule bit_word_eqI) (auto simp: bit_simps)
  then show ?thesis by (simp add: handle_index_def)
qed

lemma handle_gen_make [simp]: "g < 2 ^ 24 \<Longrightarrow> handle_gen (make_handle k g i) = g"
  unfolding handle_bit_defs
  by (rule bit_word_eqI)
    (auto simp: bit_simps dest: bit_imp_le_length bit_generation)

lemma make_handle_of_parts: "make_handle (handle_kind h) (handle_gen h) (ucast h) = h"
  unfolding handle_bit_defs
proof (rule bit_word_eqI, goal_cases)
  case (1 n)
  then show ?case by (cases "n < 32"; cases "n < 56") (auto simp: bit_simps)
qed

lemma handle_eqI:
  "handle_kind h = handle_kind h' \<Longrightarrow> handle_gen h = handle_gen h' \<Longrightarrow>
   handle_index h = handle_index h' \<Longrightarrow> h = h'"
  by (metis handle_index_def make_handle_of_parts word_unat_eq_iff)

lemma make_handle_nonzero: "0 < g \<Longrightarrow> g < 2 ^ 24 \<Longrightarrow> make_handle k g i \<noteq> 0"
  by (metis handle_gen_make handle_gen_def drop_bit_of_0 and_zero_eq unsigned_0 less_irrefl
      zero_and_eq)

section \<open>Generations\<close>

text \<open>
  Generations run through \<open>1, 2, ..., 2 ^ 24 - 1\<close> and start again at 1: a cycle of length
  \<open>2 ^ 24 - 1\<close> in which 0 never occurs.
\<close>

lemma unat_mask24_u32: "unat (w AND mask 24 :: u32) = unat w mod 2 ^ 24"
  by (simp add: take_bit_eq_mod unat_mod flip: take_bit_eq_mask)

lemma next_generation_mask: "next_generation g = max ((g + 1) AND mask 24) 1"
  by (simp add: next_generation_def GEN_MASK_def mask_eq_exp_minus_1)

lemma unat_next_generation:
  assumes "0 < g" and "g < 2 ^ 24"
  shows "unat (next_generation g) = unat g mod (2 ^ 24 - 1) + 1"
proof -
  from assms have g: "0 < unat g" "unat g < 2 ^ 24"
    by (simp_all add: word_less_nat_alt unat_gt_0)
  then have "unat (g + 1) = unat g + 1"
    by (simp add: unat_word_ariths)
  then have m: "unat ((g + 1) AND mask 24) = (unat g + 1) mod 2 ^ 24"
    by (simp add: unat_mask24_u32)
  show ?thesis
  proof (cases "unat g = 2 ^ 24 - 1")
    case True
    then have "(g + 1) AND mask 24 = 0"
      using m by (simp add: word_unat_eq_iff)
    then show ?thesis using True
      by (simp add: next_generation_mask)
  next
    case False
    with g m have "unat ((g + 1) AND mask 24) = unat g + 1" by simp
    moreover from this have "1 \<le> (g + 1) AND mask 24"
      by (simp add: word_le_nat_alt)
    ultimately show ?thesis using False g
      by (simp add: next_generation_mask max_def)
  qed
qed

lemma next_generation_valid:
  assumes "0 < g" and "g < 2 ^ 24"
  shows "0 < next_generation g" and "next_generation g < 2 ^ 24"
proof -
  have "unat g mod (2 ^ 24 - 1) < (2 ^ 24 - 1 :: nat)" by simp
  with unat_next_generation [OF assms]
  show "0 < next_generation g" "next_generation g < 2 ^ 24"
    by (simp_all add: word_less_nat_alt)
qed

lemma next_generation_iterate:
  assumes "0 < g" and "g < 2 ^ 24"
  shows "unat ((next_generation ^^ n) g) = (unat g - 1 + n) mod (2 ^ 24 - 1) + 1 \<and>
         0 < (next_generation ^^ n) g \<and> (next_generation ^^ n) g < 2 ^ 24"
proof (induction n)
  case 0
  from assms have "0 < unat g" "unat g < 2 ^ 24"
    by (simp_all add: word_less_nat_alt unat_gt_0)
  with assms show ?case by simp
next
  case (Suc n)
  let ?h = "(next_generation ^^ n) g"
  from Suc have v: "0 < ?h" "?h < 2 ^ 24"
    and u: "unat ?h = (unat g - 1 + n) mod (2 ^ 24 - 1) + 1" by auto
  have "unat (next_generation ?h) = ((unat g - 1 + n) mod (2 ^ 24 - 1) + 1) mod (2 ^ 24 - 1) + 1"
    using unat_next_generation [OF v] u by simp
  also have "\<dots> = (unat g - 1 + Suc n) mod (2 ^ 24 - 1) + 1"
    by (simp add: mod_Suc_eq)
  finally show ?case using next_generation_valid [OF v] by simp
qed

lemma next_generation_no_return:
  assumes "0 < g" and "g < 2 ^ 24" and "0 < n" and "n < 2 ^ 24 - 1"
  shows "(next_generation ^^ n) g \<noteq> g"
proof
  assume ret: "(next_generation ^^ n) g = g"
  have "unat ((next_generation ^^ n) g) = (unat g - 1 + n) mod (2 ^ 24 - 1) + 1"
    using next_generation_iterate [OF assms(1,2), of n] by blast
  then have eq: "unat g = (unat g - 1 + n) mod (2 ^ 24 - 1) + 1"
    unfolding ret .
  from assms(1,2) have g: "0 < unat g" "unat g < 2 ^ 24"
    by (simp_all add: word_less_nat_alt unat_gt_0)
  show False
  proof (cases "unat g - 1 + n < 2 ^ 24 - 1")
    case True
    with eq assms(3) g show False by simp
  next
    case False
    with g assms(4) have "(unat g - 1 + n) mod (2 ^ 24 - 1) = unat g - 1 + n - (2 ^ 24 - 1)"
      by (simp add: le_mod_geq)
    with eq g assms(4) False show False by simp
  qed
qed

section \<open>Looking a handle up\<close>

text \<open>What one slot answers to a handle that indexes it.\<close>

definition slot_lookup :: "Slot \<Rightarrow> u64 \<Rightarrow> (u64 \<times> Entry) option" where
  "slot_lookup s h =
    (if h \<noteq> 0 \<and> generation s = handle_gen h
     then case entry s of
            None \<Rightarrow> None
          | Some e \<Rightarrow> if Entry_kind e = handle_kind h then Some (owner s, e) else None
     else None)"

lemma lookup_handle_slot:
  "lookup_handle t h =
    (if handle_index h < length (slots t)
     then slot_lookup (slots t ! handle_index h) h else None)"
  by (auto simp: lookup_handle_def validate_def slot_lookup_def Let_def split: option.splits)

lemma validate_Ok_iff:
  "validate t h k = Ok i \<longleftrightarrow>
     handle_kind h = k \<and> i = handle_index h \<and> (\<exists>x. lookup_handle t h = Some x)"
  by (auto simp: lookup_handle_def validate_def Let_def split: option.splits if_splits)

lemma validate_not_panics [simp]: "validate t h k \<noteq> Panicked p"
  by (auto simp: validate_def Let_def split: option.splits)

lemma validate_lookup:
  assumes "lookup_handle t h = Some (own, e)"
  shows "validate t h (handle_kind h) = Ok (handle_index h)"
    and "handle_index h < length (slots t)"
    and "entry (slots t ! handle_index h) = Some e"
    and "owner (slots t ! handle_index h) = own"
    and "generation (slots t ! handle_index h) = handle_gen h"
    and "Entry_kind e = handle_kind h"
    and "h \<noteq> 0"
  using assms validate_Ok_iff [of t h "handle_kind h" "handle_index h"]
  by (auto simp: lookup_handle_slot slot_lookup_def split: if_splits option.splits)

lemma wf_slotD:
  "wf_table t \<Longrightarrow> i < length (slots t) \<Longrightarrow> wf_slot (slots t ! i)"
  by (simp add: wf_table_def list_all_length)

text \<open>The handle under which a live slot is known.\<close>

lemma lookup_slot_handle:
  assumes "wf_table t" and "i < length (slots t)" and "entry (slots t ! i) = Some e"
  shows "lookup_handle t (make_handle (Entry_kind e) (generation (slots t ! i)) (of_nat i)) =
         Some (owner (slots t ! i), e)"
proof -
  from assms(1,2) have "i < 2 ^ 32" by (simp add: wf_table_def)
  moreover from wf_slotD [OF assms(1,2)]
  have g: "0 < generation (slots t ! i)" "generation (slots t ! i) < 2 ^ 24"
    by (simp_all add: wf_slot_def)
  ultimately show ?thesis
    using assms(2,3) make_handle_nonzero [OF g]
    by (simp add: lookup_handle_slot slot_lookup_def)
qed

lemma lookup_handle_unique:
  "lookup_handle t h = Some x \<Longrightarrow> lookup_handle t h' = Some x' \<Longrightarrow>
   handle_index h = handle_index h' \<Longrightarrow> h = h'"
  by (rule handle_eqI) (auto simp: lookup_handle_slot slot_lookup_def split: if_splits option.splits)

lemma slot_lookup_live:
  assumes "wf_slot s" and "entry s = Some e" and "i < 2 ^ 32" and "handle_index h = i"
  shows "slot_lookup s h =
    (if h = make_handle (Entry_kind e) (generation s) (of_nat i) then Some (owner s, e) else None)"
proof (cases "h = make_handle (Entry_kind e) (generation s) (of_nat i)")
  case True
  with assms show ?thesis
    using make_handle_nonzero [of "generation s"]
    by (simp add: slot_lookup_def wf_slot_def)
next
  case False
  have "\<not> (generation s = handle_gen h \<and> Entry_kind e = handle_kind h)"
    using False assms(3,4) handle_eqI [of h "make_handle (Entry_kind e) (generation s) (of_nat i)"]
      assms(1) by (auto simp: wf_slot_def)
  with False assms(2) show ?thesis by (auto simp: slot_lookup_def)
qed

lemma wf_freeD:
  assumes "wf_table t" and "index \<in> set (free t)"
  shows "unat index < length (slots t)" and "entry (slots t ! unat index) = None"
proof -
  from assms obtain i where i: "index = of_nat i" "i < length (slots t)" "entry (slots t ! i) = None"
    by (auto simp: wf_table_def)
  with assms(1) have "i < 2 ^ 32" by (simp add: wf_table_def)
  with i show "unat index < length (slots t)" and "entry (slots t ! unat index) = None"
    by simp_all
qed

section \<open>Freeing a slot\<close>

definition freed :: "Table \<Rightarrow> nat \<Rightarrow> Table" where
  "freed t i =
    \<lparr>slots = (slots t)[i := \<lparr>generation = next_generation (generation (slots t ! i)), owner = 0,
                             entry = None\<rparr>],
     free = free t @ [of_nat i]\<rparr>"

lemma take_slot_eq:
  "i < length (slots t) \<Longrightarrow> entry (slots t ! i) = Some e \<Longrightarrow> take_slot t i = (Ok e, freed t i)"
  by (simp add: take_slot_def freed_def Let_def)

lemma length_freed [simp]: "length (slots (freed t i)) = length (slots t)"
  by (simp add: freed_def)

lemma slots_freed_other [simp]: "j \<noteq> i \<Longrightarrow> slots (freed t i) ! j = slots t ! j"
  by (simp add: freed_def)

lemma slots_freed_same:
  "i < length (slots t) \<Longrightarrow> slots (freed t i) ! i =
     \<lparr>generation = next_generation (generation (slots t ! i)), owner = 0, entry = None\<rparr>"
  by (simp add: freed_def)

lemma entry_freed:
  "i < length (slots t) \<Longrightarrow>
   entry (slots (freed t i) ! j) = (if j = i then None else entry (slots t ! j))"
  by (simp add: slots_freed_same)

lemma wf_freed:
  assumes wf: "wf_table t" and i: "i < length (slots t)" and live: "entry (slots t ! i) \<noteq> None"
  shows "wf_table (freed t i)"
proof -
  have i32: "i < 2 ^ 32" using wf i by (simp add: wf_table_def)
  have s: "list_all wf_slot (slots (freed t i))"
  proof (simp add: list_all_length, intro allI impI)
    fix j assume "j < length (slots t)"
    then show "wf_slot (slots (freed t i) ! j)"
      using wf_slotD [OF wf, of j] next_generation_valid [of "generation (slots t ! i)"] i
      by (cases "j = i") (auto simp: slots_freed_same wf_slot_def)
  qed
  have "of_nat i \<notin> set (free t)"
    using wf_freeD(2) [OF wf, of "of_nat i"] i32 live by auto
  then have d: "distinct (free (freed t i))"
    using wf by (simp add: freed_def wf_table_def)
  have "set (free (freed t i)) = insert (of_nat i) (set (free t))"
    by (simp add: freed_def)
  also have "set (free t) = {of_nat j |j. j < length (slots t) \<and> entry (slots t ! j) = None}"
    using wf by (simp add: wf_table_def)
  also have "insert (of_nat i) \<dots> =
    {of_nat j |j. j < length (slots t) \<and> entry (slots (freed t i) ! j) = None}"
    using i by (auto simp: entry_freed)
  finally show ?thesis using s d wf by (simp add: wf_table_def)
qed

lemma lookup_freed:
  "i < length (slots t) \<Longrightarrow>
   lookup_handle (freed t i) h = (if handle_index h = i then None else lookup_handle t h)"
  by (auto simp: lookup_handle_slot slot_lookup_def slots_freed_same)

lemma lookup_freed_handle:
  assumes "lookup_handle t h = Some x"
  shows "lookup_handle (freed t (handle_index h)) = (lookup_handle t)(h := None)"
proof
  fix k
  have "handle_index h < length (slots t)"
    using assms by (cases x) (simp add: validate_lookup)
  then show "lookup_handle (freed t (handle_index h)) k = ((lookup_handle t)(h := None)) k"
    using assms lookup_handle_unique [of t h x k]
    by (cases "lookup_handle t k") (auto simp: lookup_freed)
qed

section \<open>Inserting an entry\<close>

definition has_room :: "Table \<Rightarrow> bool" where
  "has_room t \<longleftrightarrow> free t \<noteq> [] \<or> length (slots t) < 2 ^ 32"

text \<open>The new slot, the new handle and the new table, in both branches of \<^verbatim>\<open>insert_into\<close>.\<close>

definition insert_index :: "Table \<Rightarrow> nat" where
  "insert_index t = (if free t = [] then length (slots t) else unat (last (free t)))"

definition insert_gen :: "Table \<Rightarrow> u32" where
  "insert_gen t = (if free t = [] then 1 else generation (slots t ! insert_index t))"

definition inserted :: "Table \<Rightarrow> Entry \<Rightarrow> u64 \<Rightarrow> Table" where
  "inserted t e own =
    (let s = \<lparr>generation = insert_gen t, owner = own, entry = Some e\<rparr>
     in \<lparr>slots = (if free t = [] then slots t @ [s] else (slots t)[insert_index t := s]),
         free = butlast (free t)\<rparr>)"

lemma insert_index_le:
  assumes "wf_table t" and "has_room t"
  shows "insert_index t < 2 ^ 32" and "insert_index t \<le> length (slots t)"
    and "free t \<noteq> [] \<Longrightarrow> insert_index t < length (slots t)"
    and "free t \<noteq> [] \<Longrightarrow> entry (slots t ! insert_index t) = None"
  using assms wf_freeD [OF assms(1), of "last (free t)"] unsigned_less [of "last (free t)"]
  by (auto simp: insert_index_def has_room_def)

lemma insert_gen_valid:
  assumes "wf_table t" and "has_room t"
  shows "0 < insert_gen t" and "insert_gen t < 2 ^ 24"
  using assms wf_slotD [OF assms(1), of "insert_index t"] insert_index_le [OF assms]
  by (auto simp: insert_gen_def wf_slot_def)

lemma Slot_reuse:
  "s\<lparr>entry := e, owner := own\<rparr> = \<lparr>generation = generation s, owner = own, entry = e\<rparr>" for s :: Slot
  by (cases s) simp

lemma insert_into_eq:
  assumes "wf_table t" and "has_room t"
  shows "insert_into t e own =
    (Ok (make_handle (Entry_kind e) (insert_gen t) (of_nat (insert_index t))), inserted t e own)"
proof (cases "free t = []")
  case True
  with assms(2) have "length (slots t) < 2 ^ 32" by (simp add: has_room_def)
  with True show ?thesis
    by (simp add: insert_into_def vec_pop_def insert_gen_def insert_index_def inserted_def Let_def
        nth_append)
next
  case False
  with insert_index_le(3) [OF assms] have "unat (last (free t)) < length (slots t)"
    by (simp add: insert_index_def)
  with False show ?thesis
    by (simp add: insert_into_def vec_pop_def insert_gen_def insert_index_def inserted_def Let_def
        Slot_reuse)
qed

lemma slots_inserted:
  assumes "wf_table t" and "has_room t"
  shows "j < length (slots (inserted t e own)) \<longleftrightarrow> j < length (slots t) \<or> j = insert_index t"
    and "slots (inserted t e own) ! insert_index t =
           \<lparr>generation = insert_gen t, owner = own, entry = Some e\<rparr>"
    and "j \<noteq> insert_index t \<Longrightarrow> j < length (slots t) \<Longrightarrow>
           slots (inserted t e own) ! j = slots t ! j"
  using insert_index_le [OF assms]
  by (auto simp: inserted_def Let_def insert_index_def nth_append)

lemma length_inserted:
  "length (slots (inserted t e own)) = (if free t = [] then Suc (length (slots t)) else length (slots t))"
  by (simp add: inserted_def Let_def)

lemma entry_inserted:
  assumes "wf_table t" and "has_room t" and "j < length (slots (inserted t e own))"
  shows "entry (slots (inserted t e own) ! j) =
    (if j = insert_index t then Some e else entry (slots t ! j))"
  using slots_inserted [OF assms(1,2)] assms(3) by auto

lemma wf_inserted:
  assumes "wf_table t" and "has_room t"
  shows "wf_table (inserted t e own)"
proof -
  let ?t' = "inserted t e own"
  let ?i = "insert_index t"
  have s: "list_all wf_slot (slots ?t')"
    unfolding list_all_length
  proof (intro allI impI)
    fix j assume "j < length (slots ?t')"
    then show "wf_slot (slots ?t' ! j)"
      using slots_inserted [OF assms] wf_slotD [OF assms(1), of j] insert_gen_valid [OF assms]
      by (cases "j = ?i") (auto simp: wf_slot_def)
  qed
  have d: "distinct (free ?t')"
    using assms(1) by (simp add: inserted_def Let_def wf_table_def distinct_butlast)
  have dead: "set (free t) = {of_nat j |j. j < length (slots t) \<and> entry (slots t ! j) = None}"
    using assms(1) by (simp add: wf_table_def)
  have "set (free ?t') = set (free t) - {of_nat ?i}"
    using assms(1) set_butlast_distinct [of "free t"]
    by (cases "free t = []") (auto simp: inserted_def Let_def insert_index_def wf_table_def)
  also have "\<dots> = {of_nat j |j. j < length (slots t) \<and> j \<noteq> ?i \<and> entry (slots t ! j) = None}"
    using insert_index_le(1) [OF assms] assms(1) dead
    by (auto simp: wf_table_def of_nat_u32_eq_iff)
  also have "\<dots> = {of_nat j |j. j < length (slots ?t') \<and> entry (slots ?t' ! j) = None}"
    using entry_inserted [OF assms] slots_inserted(1) [OF assms] by (auto split: if_splits)
  finally show ?thesis
    using s d assms insert_index_le [OF assms] by (auto simp: wf_table_def length_inserted has_room_def)
qed

lemma lookup_inserted:
  fixes e :: Entry
  assumes "wf_table t" and "has_room t"
  defines "h \<equiv> make_handle (Entry_kind e) (insert_gen t) (of_nat (insert_index t))"
  shows "lookup_handle t h = None"
    and "lookup_handle (inserted t e own) = (lookup_handle t)(h \<mapsto> (own, e))"
proof -
  let ?i = "insert_index t"
  note le = insert_index_le [OF assms(1,2)]
  have hi: "handle_index h = ?i" using le by (simp add: h_def)
  have dead: "lookup_handle t k = None" if "handle_index k = ?i" for k
    using le that by (cases "free t = []")
      (auto simp: lookup_handle_slot slot_lookup_def insert_index_def)
  from dead [OF hi] show "lookup_handle t h = None" .
  show "lookup_handle (inserted t e own) = (lookup_handle t)(h \<mapsto> (own, e))"
  proof
    fix k
    show "lookup_handle (inserted t e own) k = ((lookup_handle t)(h \<mapsto> (own, e))) k"
    proof (cases "handle_index k = ?i")
      case True
      let ?s = "\<lparr>generation = insert_gen t, owner = own, entry = Some e\<rparr>"
      have "lookup_handle (inserted t e own) k = slot_lookup ?s k"
        using True slots_inserted [OF assms(1,2)] by (simp add: lookup_handle_slot)
      also have "\<dots> = (if k = h then Some (own, e) else None)"
        using slot_lookup_live [of ?s e ?i k] True le insert_gen_valid [OF assms(1,2)]
        by (simp add: wf_slot_def h_def)
      finally show ?thesis using dead [OF True] by simp
    next
      case False
      then show ?thesis using hi slots_inserted [OF assms(1,2)]
        by (auto simp: lookup_handle_slot)
    qed
  qed
qed

section \<open>Freeing a runtime's resources\<close>

definition freed_all :: "Table \<Rightarrow> nat list \<Rightarrow> Table" where
  "freed_all t is = foldl freed t is"

lemma freed_all_simps [simp]:
  "freed_all t [] = t"
  "freed_all t (i # is) = freed_all (freed t i) is"
  by (simp_all add: freed_all_def)

lemma length_freed_all [simp]: "length (slots (freed_all t is)) = length (slots t)"
  by (induction "is" arbitrary: t) auto

lemma slots_freed_all_other:
  "j \<notin> set is \<Longrightarrow> slots (freed_all t is) ! j = slots t ! j"
  by (induction "is" arbitrary: t) auto

lemma slots_freed_all_same:
  "distinct is \<Longrightarrow> j \<in> set is \<Longrightarrow> j < length (slots t) \<Longrightarrow>
   slots (freed_all t is) ! j =
     \<lparr>generation = next_generation (generation (slots t ! j)), owner = 0, entry = None\<rparr>"
proof (induction "is" arbitrary: t)
  case (Cons i "is")
  show ?case
  proof (cases "j = i")
    case True
    with Cons.prems show ?thesis by (simp add: slots_freed_all_other slots_freed_same)
  next
    case False
    with Cons show ?thesis by simp
  qed
qed simp

lemma wf_freed_all:
  "wf_table t \<Longrightarrow> distinct is \<Longrightarrow>
   (\<And>i. i \<in> set is \<Longrightarrow> i < length (slots t) \<and> entry (slots t ! i) \<noteq> None) \<Longrightarrow>
   wf_table (freed_all t is)"
proof (induction "is" arbitrary: t)
  case (Cons i "is")
  then have "wf_table (freed t i)" by (auto intro: wf_freed)
  then have "wf_table (freed_all (freed t i) is)"
  proof (rule Cons.IH)
    show "distinct is" using Cons.prems by simp
    fix j assume "j \<in> set is"
    with Cons.prems have "j \<noteq> i" "j < length (slots t) \<and> entry (slots t ! j) \<noteq> None" by auto
    then show "j < length (slots (freed t i)) \<and> entry (slots (freed t i) ! j) \<noteq> None" by simp
  qed
  then show ?case by simp
qed simp

lemma lookup_freed_all:
  "(\<And>i. i \<in> set is \<Longrightarrow> i < length (slots t)) \<Longrightarrow>
   lookup_handle (freed_all t is) h = (if handle_index h \<in> set is then None else lookup_handle t h)"
  by (induction "is" arbitrary: t) (auto simp: lookup_freed)

lemma take_owned_eq:
  assumes "wf_table t" and "runtime \<noteq> 0" and "distinct is"
    and "\<And>i. i \<in> set is \<Longrightarrow> i < length (slots t)"
  shows "take_owned runtime is t =
    (let js = filter (\<lambda>i. owner (slots t ! i) = runtime) is
     in (Ok (map (\<lambda>i. the (entry (slots t ! i))) js), freed_all t js))"
  using assms
proof (induction "is" arbitrary: t)
  case (Cons i "is")
  have i: "i < length (slots t)" using Cons.prems(4) [of i] by simp
  show ?case
  proof (cases "owner (slots t ! i) = runtime")
    case True
    with Cons.prems(1,2) wf_slotD [OF Cons.prems(1) i]
    obtain e where e: "entry (slots t ! i) = Some e" by (auto simp: wf_slot_def)
    let ?js = "filter (\<lambda>j. owner (slots t ! j) = runtime) is"
    have same: "filter (\<lambda>j. owner (slots (freed t i) ! j) = runtime) is = ?js"
      "map (\<lambda>j. the (entry (slots (freed t i) ! j))) ?js = map (\<lambda>j. the (entry (slots t ! j))) ?js"
      using Cons.prems(3) by (auto intro!: filter_cong map_cong) (metis slots_freed_other)+
    have "take_owned runtime is (freed t i) =
      (let js = filter (\<lambda>j. owner (slots (freed t i) ! j) = runtime) is
       in (Ok (map (\<lambda>j. the (entry (slots (freed t i) ! j))) js), freed_all (freed t i) js))"
      by (rule Cons.IH) (use Cons.prems e i in \<open>auto intro: wf_freed\<close>)
    then have "take_owned runtime is (freed t i) =
      (Ok (map (\<lambda>j. the (entry (slots t ! j))) ?js), freed_all (freed t i) ?js)"
      by (simp add: same Let_def)
    then show ?thesis
      using True e i by (simp add: take_slot_eq Let_def)
  next
    case False
    then show ?thesis using Cons by simp
  qed
qed simp

section \<open>The operations against the specification\<close>

lemma insert_into_spec:
  assumes "wf_table t" and "has_room t"
  obtains h where "insert_into t e own = (Ok h, inserted t e own)"
    and "handle_kind h = Entry_kind e" and "h \<noteq> 0" and "lookup_handle t h = None"
    and "lookup_handle (inserted t e own) = (lookup_handle t)(h \<mapsto> (own, e))"
    and "wf_table (inserted t e own)"
  using that [OF insert_into_eq [OF assms]] lookup_inserted [OF assms] wf_inserted [OF assms]
    make_handle_nonzero [OF insert_gen_valid [OF assms]] by simp

lemma remove_of_kind_live:
  assumes "lookup_handle t h = Some (own, e)"
  shows "remove_of_kind t h (handle_kind h) = (Ok e, freed t (handle_index h))"
  using validate_lookup [OF assms] by (simp add: remove_of_kind_def take_slot_eq)

lemma remove_of_kind_rejected:
  assumes "lookup_handle t h = None \<or> handle_kind h \<noteq> k"
  shows "\<exists>x. remove_of_kind t h k = (Err x, t)"
proof (cases "validate t h k")
  case (Ok i)
  then have "handle_kind h = k \<and> lookup_handle t h \<noteq> None" by (auto simp: validate_Ok_iff)
  with assms show ?thesis by simp
qed (simp_all add: remove_of_kind_def)

lemma wf_freed_handle:
  "wf_table t \<Longrightarrow> lookup_handle t h = Some x \<Longrightarrow> wf_table (freed t (handle_index h))"
  by (cases x) (simp add: wf_freed validate_lookup)

lemma owners_live_runtime:
  "owners_live t \<Longrightarrow> lookup_handle t h = Some (own, Runtime r) \<Longrightarrow> own = 0"
  unfolding owners_live_def by (metis Entry_kind.simps(1))

definition owned_slots :: "Table \<Rightarrow> u64 \<Rightarrow> nat list" where
  "owned_slots t runtime = filter (\<lambda>i. owner (slots t ! i) = runtime) [0..<length (slots t)]"

lemma owned_slots_freed:
  assumes "owner (slots t ! i) \<noteq> runtime" and "runtime \<noteq> 0" and "i < length (slots t)"
  shows "owned_slots (freed t i) runtime = owned_slots t runtime"
    and "j \<in> set (owned_slots t runtime) \<Longrightarrow> slots (freed t i) ! j = slots t ! j"
proof -
  have "owner (slots (freed t i) ! j) = runtime \<longleftrightarrow> owner (slots t ! j) = runtime" for j
    using assms by (cases "j = i") (auto simp: slots_freed_same)
  then show "owned_slots (freed t i) runtime = owned_slots t runtime"
    by (simp add: owned_slots_def)
  show "j \<in> set (owned_slots t runtime) \<Longrightarrow> slots (freed t i) ! j = slots t ! j"
    using assms by (auto simp: owned_slots_def intro: slots_freed_other)
qed

lemma remove_runtime_eq:
  assumes wf: "wf_table t" and own: "owners_live t"
    and live: "lookup_handle t h = Some (o', Runtime r)"
  shows "remove_runtime t h =
    (Ok (r, map (\<lambda>i. the (entry (slots t ! i))) (owned_slots t h)),
     freed_all t (handle_index h # owned_slots t h))"
proof -
  note l = validate_lookup [OF live]
  have k: "handle_kind h = KIND_RUNTIME" using l(6) by simp
  have "o' = 0" using owners_live_runtime [OF own live] .
  then have no: "owner (slots t ! handle_index h) \<noteq> h" using l(4,7) by simp
  let ?t = "freed t (handle_index h)"
  note same = owned_slots_freed [OF no l(7) l(2)]
  have "take_owned h [0..<length (slots ?t)] ?t =
    (Ok (map (\<lambda>i. the (entry (slots ?t ! i))) (owned_slots ?t h)), freed_all ?t (owned_slots ?t h))"
    using take_owned_eq [OF wf_freed_handle [OF wf live] l(7), of "[0..<length (slots ?t)]"]
    by (simp add: owned_slots_def Let_def)
  also have "map (\<lambda>i. the (entry (slots ?t ! i))) (owned_slots ?t h) =
    map (\<lambda>i. the (entry (slots t ! i))) (owned_slots t h)"
    using same by simp
  finally show ?thesis
    using l(1,2,3) k by (simp add: remove_runtime_def take_slot_eq same)
qed

lemma owned_slots_lookup:
  assumes "wf_table t" and "h \<noteq> 0"
  shows "handle_index k \<in> set (owned_slots t h) \<and> lookup_handle t k \<noteq> None \<longleftrightarrow>
    (\<exists>e. lookup_handle t k = Some (h, e))"
proof
  assume "handle_index k \<in> set (owned_slots t h) \<and> lookup_handle t k \<noteq> None"
  then obtain own e where k: "lookup_handle t k = Some (own, e)"
    and "owner (slots t ! handle_index k) = h" by (auto simp: owned_slots_def)
  with validate_lookup(4) [OF k] show "\<exists>e. lookup_handle t k = Some (h, e)" by simp
next
  assume "\<exists>e. lookup_handle t k = Some (h, e)"
  then show "handle_index k \<in> set (owned_slots t h) \<and> lookup_handle t k \<noteq> None"
    by (auto simp: owned_slots_def validate_lookup)
qed

lemma owned_slots_live:
  assumes "wf_table t" and "h \<noteq> 0" and "i \<in> set (owned_slots t h)"
  shows "i < length (slots t)" and "entry (slots t ! i) \<noteq> None"
  using assms wf_slotD [OF assms(1), of i] by (auto simp: owned_slots_def wf_slot_def)

lemma remove_runtime_wf:
  assumes wf: "wf_table t" and own: "owners_live t"
    and live: "lookup_handle t h = Some (o', Runtime r)"
  shows "wf_table (freed_all t (handle_index h # owned_slots t h))"
proof (rule wf_freed_all [OF wf])
  note l = validate_lookup [OF live]
  have "o' = 0" using owners_live_runtime [OF own live] .
  then have "owner (slots t ! handle_index h) \<noteq> h" using l(4,7) by simp
  then show "distinct (handle_index h # owned_slots t h)" by (simp add: owned_slots_def)
  show "i < length (slots t) \<and> entry (slots t ! i) \<noteq> None"
    if "i \<in> set (handle_index h # owned_slots t h)" for i
    using that owned_slots_live [OF wf l(7)] l(2,3) by auto
qed

lemma remove_runtime_lookup:
  assumes wf: "wf_table t" and live: "lookup_handle t h = Some (o', Runtime r)"
  shows "lookup_handle (freed_all t (handle_index h # owned_slots t h)) k =
    (if k = h \<or> (\<exists>e. lookup_handle t k = Some (h, e)) then None else lookup_handle t k)"
proof -
  note l = validate_lookup [OF live]
  have "lookup_handle (freed_all t (handle_index h # owned_slots t h)) k =
    (if handle_index k \<in> set (handle_index h # owned_slots t h) then None else lookup_handle t k)"
    by (rule lookup_freed_all) (use owned_slots_live(1) [OF wf l(7)] l(2) in auto)
  moreover have "handle_index k = handle_index h \<Longrightarrow> lookup_handle t k \<noteq> None \<Longrightarrow> k = h"
    using lookup_handle_unique [OF live] by (metis not_None_eq)
  ultimately show ?thesis
    using owned_slots_lookup [OF wf l(7), of k] by (cases "lookup_handle t k = None") auto
qed

section \<open>Sequences of operations\<close>

text \<open>
  Every way the bridge changes the table, as data, so that a history is a list. \<open>bridge_op\<close>
  excludes what no caller does: owning a runtime, or removing one as if it were a leaf.
\<close>

datatype table_op =
    OpInsert Entry
  | OpInsertOwned u64 Entry
  | OpRemoveOfKind u64 u8
  | OpRemoveRuntime u64

fun table_step :: "Table \<Rightarrow> table_op \<Rightarrow> Table" where
  "table_step t (OpInsert e) = snd (insert_entry t e)"
| "table_step t (OpInsertOwned r e) = fst (snd (insert_owned t r e))"
| "table_step t (OpRemoveOfKind h k) = snd (remove_of_kind t h k)"
| "table_step t (OpRemoveRuntime r) = snd (remove_runtime t r)"

fun bridge_op :: "table_op \<Rightarrow> bool" where
  "bridge_op (OpInsert _) = True"
| "bridge_op (OpInsertOwned _ e) = (Entry_kind e \<noteq> KIND_RUNTIME)"
| "bridge_op (OpRemoveOfKind _ k) = (k \<noteq> KIND_RUNTIME)"
| "bridge_op (OpRemoveRuntime _) = True"

lemma Entry_kind_runtime_iff: "Entry_kind e = KIND_RUNTIME \<longleftrightarrow> (\<exists>r. e = Runtime r)"
  by (cases e) (simp_all add: kind_defs)

lemma validate_runtime_lookup:
  assumes "validate t r KIND_RUNTIME = Ok i"
  obtains own a where "lookup_handle t r = Some (own, Runtime a)" and "i = handle_index r"
proof -
  from assms obtain own e where l: "lookup_handle t r = Some (own, e)"
    and k: "handle_kind r = KIND_RUNTIME" "i = handle_index r"
    by (auto simp: validate_Ok_iff)
  from validate_lookup(6) [OF l] k(1) obtain a where "e = Runtime a"
    by (auto simp: Entry_kind_runtime_iff)
  with l k(2) that show ?thesis by blast
qed

text \<open>
  One case analysis for all operations: each leaves the table as it is, fills a slot, frees a
  slot, or frees a runtime with everything it owns.
\<close>

lemma table_step_cases:
  assumes "wf_table t" and "has_room t" and "owners_live t" and "bridge_op op"
  obtains (same) "table_step t op = t"
  | (filled) e own where "table_step t op = inserted t e own"
      "own \<noteq> 0 \<Longrightarrow> (\<exists>r. lookup_handle t own = Some (0, Runtime r)) \<and> Entry_kind e \<noteq> KIND_RUNTIME"
  | (freed) h own e where "lookup_handle t h = Some (own, e)" "Entry_kind e \<noteq> KIND_RUNTIME"
      "table_step t op = freed t (handle_index h)"
  | (closed) h own r where "lookup_handle t h = Some (own, Runtime r)"
      "table_step t op = freed_all t (handle_index h # owned_slots t h)"
proof (cases op)
  case (OpInsert e)
  then have "table_step t op = inserted t e 0"
    by (simp add: insert_entry_def insert_into_eq [OF assms(1,2)])
  then show ?thesis using filled by blast
next
  case (OpInsertOwned r e)
  show ?thesis
  proof (cases "validate t r KIND_RUNTIME")
    case (Ok i)
    then obtain own a where l: "lookup_handle t r = Some (own, Runtime a)"
      by (rule validate_runtime_lookup)
    have "table_step t op = inserted t e r"
      using OpInsertOwned Ok by (simp add: insert_owned_def insert_into_eq [OF assms(1,2)])
    moreover have "lookup_handle t r = Some (0, Runtime a)"
      using l owners_live_runtime [OF assms(3) l] by simp
    ultimately show ?thesis using filled assms(4) OpInsertOwned by auto
  qed (use same OpInsertOwned in \<open>simp_all add: insert_owned_def\<close>)
next
  case (OpRemoveOfKind h k)
  show ?thesis
  proof (cases "handle_kind h = k \<and> lookup_handle t h \<noteq> None")
    case True
    then obtain own e where l: "lookup_handle t h = Some (own, e)" by auto
    have "Entry_kind e \<noteq> KIND_RUNTIME"
      using validate_lookup(6) [OF l] True assms(4) OpRemoveOfKind by simp
    moreover have "table_step t op = Kt_Handle.freed t (handle_index h)"
      using OpRemoveOfKind True remove_of_kind_live [OF l] by simp
    ultimately show ?thesis using freed l by blast
  next
    case False
    then have "lookup_handle t h = None \<or> handle_kind h \<noteq> k" by auto
    then obtain x where "remove_of_kind t h k = (Err x, t)"
      using remove_of_kind_rejected by blast
    then show ?thesis using same OpRemoveOfKind by simp
  qed
next
  case (OpRemoveRuntime h)
  show ?thesis
  proof (cases "validate t h KIND_RUNTIME")
    case (Ok i)
    then obtain own a where l: "lookup_handle t h = Some (own, Runtime a)"
      by (rule validate_runtime_lookup)
    have "table_step t op = freed_all t (handle_index h # owned_slots t h)"
      using OpRemoveRuntime remove_runtime_eq [OF assms(1,3) l] by simp
    then show ?thesis using closed l by blast
  qed (use same OpRemoveRuntime in \<open>simp_all add: remove_runtime_def\<close>)
qed

lemma owners_live_inserted:
  assumes "wf_table t" and "has_room t" and "owners_live t"
    and "own \<noteq> 0 \<Longrightarrow> (\<exists>r. lookup_handle t own = Some (0, Runtime r)) \<and> Entry_kind e \<noteq> KIND_RUNTIME"
  shows "owners_live (inserted t e own)"
proof -
  obtain h where h: "lookup_handle t h = None"
    "lookup_handle (inserted t e own) = (lookup_handle t)(h \<mapsto> (own, e))"
    by (rule insert_into_spec [OF assms(1,2)])
  show ?thesis
  proof (cases "own = 0")
    case True
    then show ?thesis using assms(3) h(1)
      unfolding owners_live_def h(2) by (auto split: if_splits) (metis option.distinct(1))+
  next
    case False
    with assms(4) obtain r where "lookup_handle t own = Some (0, Runtime r)"
      and "Entry_kind e \<noteq> KIND_RUNTIME" by blast
    then show ?thesis using assms(3) h(1)
      unfolding owners_live_def h(2) by (auto split: if_splits) (metis option.distinct(1))+
  qed
qed

lemma owners_live_freed:
  assumes "owners_live t" and "lookup_handle t h = Some (own, e)" and "Entry_kind e \<noteq> KIND_RUNTIME"
  shows "owners_live (freed t (handle_index h))"
proof -
  have "lookup_handle t own' \<noteq> Some (0, Runtime r) \<or> own' \<noteq> h" for own' r
    using assms(2,3) by (auto simp: Entry_kind_runtime_iff)
  then show ?thesis
    using assms(1) unfolding owners_live_def lookup_freed_handle [OF assms(2)]
    by (auto split: if_splits) metis
qed

lemma owners_live_closed:
  assumes "wf_table t" and "owners_live t" and "lookup_handle t h = Some (own, Runtime r)"
  shows "owners_live (freed_all t (handle_index h # owned_slots t h))"
  unfolding owners_live_def remove_runtime_lookup [OF assms(1,3)]
proof (intro allI impI)
  fix k own' e
  assume k: "(if k = h \<or> (\<exists>e. lookup_handle t k = Some (h, e)) then None else lookup_handle t k) =
    Some (own', e)" and nz: "own' \<noteq> 0"
  then have k': "lookup_handle t k = Some (own', e)" and ne: "own' \<noteq> h"
    by (auto split: if_splits)
  with assms(2) nz obtain r' where r': "lookup_handle t own' = Some (0, Runtime r')"
    and "Entry_kind e \<noteq> KIND_RUNTIME" unfolding owners_live_def by blast
  moreover have "h \<noteq> 0" using validate_lookup(7) [OF assms(3)] .
  ultimately show "(\<exists>r. (if own' = h \<or> (\<exists>e. lookup_handle t own' = Some (h, e)) then None
      else lookup_handle t own') = Some (0, Runtime r)) \<and> Entry_kind e \<noteq> KIND_RUNTIME"
    using ne by auto
qed

definition table_ok :: "Table \<Rightarrow> bool" where
  "table_ok t \<longleftrightarrow> wf_table t \<and> owners_live t"

lemma table_ok_new: "table_ok HandleTable_new"
  by (simp add: table_ok_def wf_table_def owners_live_def HandleTable_new_def lookup_handle_slot)

lemma table_step_ok:
  assumes "table_ok t" and "has_room t" and "bridge_op op"
  shows "table_ok (table_step t op)"
  using assms(1) unfolding table_ok_def
proof (elim conjE)
  assume wf: "wf_table t" and own: "owners_live t"
  from wf assms(2) own assms(3) show "wf_table (table_step t op) \<and> owners_live (table_step t op)"
  proof (cases rule: table_step_cases)
    case same
    with wf own show ?thesis by simp
  next
    case (filled e own')
    with wf own assms(2) show ?thesis by (simp add: wf_inserted owners_live_inserted)
  next
    case (freed h own' e)
    with wf own show ?thesis by (simp add: wf_freed_handle owners_live_freed)
  next
    case (closed h own' r)
    with wf own show ?thesis by (simp only: remove_runtime_wf owners_live_closed)
  qed
qed

lemma table_step_slots:
  assumes "table_ok t" and "has_room t" and "bridge_op op"
  shows "length (slots t) \<le> length (slots (table_step t op)) \<and>
         length (slots (table_step t op)) \<le> Suc (length (slots t))"
    and "i < length (slots t) \<Longrightarrow>
         generation (slots (table_step t op) ! i) \<in>
           {generation (slots t ! i), next_generation (generation (slots t ! i))}"
proof -
  from assms(1) have wf: "wf_table t" and own: "owners_live t" by (simp_all add: table_ok_def)
  have "(length (slots t) \<le> length (slots (table_step t op)) \<and>
         length (slots (table_step t op)) \<le> Suc (length (slots t))) \<and>
        (i < length (slots t) \<longrightarrow> generation (slots (table_step t op) ! i) \<in>
           {generation (slots t ! i), next_generation (generation (slots t ! i))})"
    using wf assms(2) own assms(3)
  proof (cases rule: table_step_cases)
    case (filled e own')
    have "generation (slots (inserted t e own') ! i) = generation (slots t ! i)"
      if "i < length (slots t)"
      using that slots_inserted [OF wf assms(2)] insert_index_le [OF wf assms(2)]
      by (cases "i = insert_index t") (auto simp: insert_gen_def insert_index_def)
    with filled show ?thesis by (simp add: length_inserted)
  next
    case (freed h own' e)
    then show ?thesis
      by (cases "i = handle_index h") (auto simp: slots_freed_same)
  next
    case (closed h own' r)
    have "distinct (handle_index h # owned_slots t h)"
      using owners_live_runtime [OF own closed(1)] validate_lookup(4,7) [OF closed(1)]
      by (auto simp: owned_slots_def)
    then show ?thesis
      using slots_freed_all_same [of "handle_index h # owned_slots t h" i t]
        slots_freed_all_other [of i "handle_index h # owned_slots t h" t] closed(2)
      by (cases "i \<in> set (handle_index h # owned_slots t h)") (simp_all del: freed_all_simps)
  qed simp
  then show "length (slots t) \<le> length (slots (table_step t op)) \<and>
         length (slots (table_step t op)) \<le> Suc (length (slots t))"
    and "i < length (slots t) \<Longrightarrow>
         generation (slots (table_step t op) ! i) \<in>
           {generation (slots t ! i), next_generation (generation (slots t ! i))}"
    by auto
qed

lemma has_room_length: "length (slots t) < 2 ^ 32 \<Longrightarrow> has_room t"
  by (simp add: has_room_def)

lemma table_run:
  assumes "table_ok t" and "list_all bridge_op ops" and "length (slots t) + length ops \<le> 2 ^ 32"
  shows "table_ok (foldl table_step t ops) \<and> length (slots t) \<le> length (slots (foldl table_step t ops)) \<and>
    (\<forall>i < length (slots t). \<exists>m \<le> length ops.
       generation (slots (foldl table_step t ops) ! i) = (next_generation ^^ m) (generation (slots t ! i)))"
  using assms
proof (induction ops arbitrary: t)
  case Nil
  then show ?case by auto
next
  case (Cons op ops)
  let ?u = "table_step t op"
  from Cons.prems have room: "has_room t" and op: "bridge_op op"
    by (auto intro: has_room_length)
  note st = table_step_slots [OF Cons.prems(1) room op]
  have IH: "table_ok (foldl table_step ?u ops) \<and>
      length (slots ?u) \<le> length (slots (foldl table_step ?u ops)) \<and>
      (\<forall>i < length (slots ?u). \<exists>m \<le> length ops. generation (slots (foldl table_step ?u ops) ! i) =
         (next_generation ^^ m) (generation (slots ?u ! i)))"
    by (rule Cons.IH) (use Cons.prems st(1) table_step_ok [OF Cons.prems(1) room op] in auto)
  have "\<exists>m \<le> length (op # ops). generation (slots (foldl table_step t (op # ops)) ! i) =
      (next_generation ^^ m) (generation (slots t ! i))" if i: "i < length (slots t)" for i
  proof -
    from i st(1) have "i < length (slots ?u)" by simp
    with IH obtain m where m: "m \<le> length ops"
      "generation (slots (foldl table_step ?u ops) ! i) = (next_generation ^^ m) (generation (slots ?u ! i))"
      by blast
    from st(2) [OF i] consider "generation (slots ?u ! i) = generation (slots t ! i)"
      | "generation (slots ?u ! i) = next_generation (generation (slots t ! i))" by auto
    then show ?thesis
    proof cases
      case 1
      with m show ?thesis by (intro exI [of _ m]) simp
    next
      case 2
      with m show ?thesis by (intro exI [of _ "Suc m"]) (simp add: funpow_swap1)
    qed
  qed
  with IH st(1) show ?case by simp
qed

lemma with_entry_stale:
  assumes "handle_index h < length (slots t)" and "generation (slots t ! handle_index h) \<noteq> handle_gen h"
  shows "with_entry t h f = Err StaleHandle"
  using assms by (simp add: with_entry_def validate_def)

section \<open>The interface\<close>

text \<open>
  What the rest of the bridge relies on: the table is a finite map under fresh keys. \<open>ins\<close> never
  reuses a live key and never touches another one; \<open>del\<close> removes exactly its key; deleting what
  is not there changes nothing.
\<close>

locale handle_map =
  fixes inv :: "'t \<Rightarrow> bool"
    and room :: "'t \<Rightarrow> bool"
    and look :: "'t \<Rightarrow> 'h \<Rightarrow> ('o \<times> 'e) option"
    and ins :: "'t \<Rightarrow> 'e \<Rightarrow> 'o \<Rightarrow> ('h, 'x) outcome \<times> 't"
    and del :: "'t \<Rightarrow> 'h \<Rightarrow> ('e, 'x) outcome \<times> 't"
  assumes ins_law: "inv t \<Longrightarrow> room t \<Longrightarrow>
      \<exists>h t'. ins t e own = (Ok h, t') \<and> look t h = None \<and> look t' = (look t)(h \<mapsto> (own, e)) \<and> inv t'"
    and del_law: "inv t \<Longrightarrow> look t h = Some (own, e) \<Longrightarrow>
      \<exists>t'. del t h = (Ok e, t') \<and> look t' = (look t)(h := None) \<and> inv t'"
    and del_missing: "look t h = None \<Longrightarrow> \<exists>x. del t h = (Err x, t)"
begin

lemma ins_then_look:
  "inv t \<Longrightarrow> room t \<Longrightarrow> ins t e own = (r, t') \<Longrightarrow> \<exists>h. r = Ok h \<and> look t' h = Some (own, e) \<and> inv t'"
  using ins_law [of t e own] by auto

lemma ins_frame:
  "inv t \<Longrightarrow> room t \<Longrightarrow> ins t e own = (r, t') \<Longrightarrow> look t k = Some x \<Longrightarrow> look t' k = Some x"
  using ins_law [of t e own] by auto

lemma ins_del_restores:
  assumes "inv t" and "room t" and "ins t e own = (Ok h, t')"
  shows "\<exists>t''. del t' h = (Ok e, t'') \<and> look t'' = look t \<and> inv t''"
proof -
  from ins_law [OF assms(1,2), of e own] assms(3)
  have h: "look t h = None" "look t' = (look t)(h \<mapsto> (own, e))" "inv t'" by auto
  then have "look t' h = Some (own, e)" by simp
  from del_law [OF h(3) this] h(1,2) show ?thesis by (auto simp: fun_upd_idem)
qed

lemma del_again:
  assumes "inv t" and "look t h = Some x" and "del t h = (r, t')"
  shows "\<exists>y. del t' h = (Err y, t')"
proof (rule del_missing)
  obtain own e where "look t h = Some (own, e)" using assms(2) by (cases x) auto
  from del_law [OF assms(1) this] assms(3) show "look t' h = None" by auto
qed

lemma del_frame:
  assumes "inv t" and "del t h = (r, t')" and "k \<noteq> h"
  shows "look t' k = look t k"
proof (cases "look t h")
  case None
  then show ?thesis using del_missing [of t h] assms(2) by auto
next
  case (Some x)
  then obtain own e where "look t h = Some (own, e)" by (cases x) auto
  from del_law [OF assms(1) this] assms(2,3) show ?thesis by auto
qed

end

interpretation ht: handle_map wf_table has_room lookup_handle insert_into
  "\<lambda>t h. remove_of_kind t h (handle_kind h)"
proof unfold_locales
  fix t e own
  assume "wf_table t" "has_room t"
  then obtain h where "insert_into t e own = (Ok h, inserted t e own)" "lookup_handle t h = None"
    "lookup_handle (inserted t e own) = (lookup_handle t)(h \<mapsto> (own, e))"
    "wf_table (inserted t e own)" by (rule insert_into_spec)
  then show "\<exists>h t'. insert_into t e own = (Ok h, t') \<and> lookup_handle t h = None \<and>
      lookup_handle t' = (lookup_handle t)(h \<mapsto> (own, e)) \<and> wf_table t'" by auto
next
  fix t h own e
  assume "wf_table t" "lookup_handle t h = Some (own, e)"
  then show "\<exists>t'. remove_of_kind t h (handle_kind h) = (Ok e, t') \<and>
      lookup_handle t' = (lookup_handle t)(h := None) \<and> wf_table t'"
    by (simp add: remove_of_kind_live lookup_freed_handle wf_freed_handle)
next
  fix t h
  assume "lookup_handle t h = None"
  then show "\<exists>x. remove_of_kind t h (handle_kind h) = (Err x, t)"
    by (simp add: remove_of_kind_rejected)
qed

text \<open>
  A small history for the witnesses: a runtime, a client it owns and an unowned poller.
\<close>

definition demo_ops :: "table_op list" where
  "demo_ops = [OpInsert (Runtime 10), OpInsertOwned 0x0100000100000000 (Client 11),
               OpInsert (Poller 12)]"

definition demo_table :: Table where
  "demo_table =
    \<lparr>slots = [\<lparr>generation = 1, owner = 0, entry = Some (Runtime 10)\<rparr>,
              \<lparr>generation = 1, owner = 0x0100000100000000, entry = Some (Client 11)\<rparr>,
              \<lparr>generation = 1, owner = 0, entry = Some (Poller 12)\<rparr>],
     free = []\<rparr>"

lemma demo_run: "foldl table_step HandleTable_new demo_ops = demo_table"
  by (simp add: demo_ops_def demo_table_def HandleTable_new_def insert_entry_def insert_owned_def
      insert_into_def validate_def vec_pop_def handle_kind_def handle_gen_def handle_index_def
      KIND_SHIFT_def GEN_SHIFT_def GEN_MASK_def KIND_RUNTIME_def Let_def)

lemma demo_table_ok: "table_ok demo_table"
  using table_run [OF table_ok_new, of demo_ops] demo_run
  by (simp add: HandleTable_new_def) (simp add: demo_ops_def kind_defs)

lemma demo_lookup:
  "lookup_handle demo_table 0x0100000100000000 = Some (0, Runtime 10)"
  "lookup_handle demo_table 0x0200000100000001 = Some (0x0100000100000000, Client 11)"
  "lookup_handle demo_table 0x0500000100000002 = Some (0, Poller 12)"
  by (simp_all add: lookup_handle_slot slot_lookup_def demo_table_def handle_kind_def
      handle_gen_def handle_index_def KIND_SHIFT_def GEN_SHIFT_def GEN_MASK_def kind_defs)

section \<open>Properties\<close>

text \<open>A handle packs its kind, generation and slot index without loss: unpacking a packed
  handle gives the three parts back (for every generation that fits 24 bits), and packing the parts
  of any 64-bit value gives that value.\<close>

theorem handle_roundtrip:
  assumes "g < 2 ^ 24"
  shows "handle_kind (make_handle k g i) = k \<and> handle_gen (make_handle k g i) = g \<and>
         handle_index (make_handle k g i) = unat i \<and>
         make_handle (handle_kind h) (handle_gen h) (ucast h) = h"
  using assms by (simp add: make_handle_of_parts)

theorem handle_roundtrip_witness:
  "make_handle KIND_WORKER 0xFFFFFF 7 = 0x03FFFFFF00000007 \<and>
   handle_gen (make_handle KIND_WORKER 0xFFFFFF 7) = 0xFFFFFF"
proof
  show "make_handle KIND_WORKER 0xFFFFFF 7 = 0x03FFFFFF00000007"
    by (simp add: make_handle_def KIND_WORKER_def KIND_SHIFT_def GEN_SHIFT_def GEN_MASK_def)
  show "handle_gen (make_handle KIND_WORKER 0xFFFFFF 7) = 0xFFFFFF"
    using handle_roundtrip [of "0xFFFFFF" KIND_WORKER 7 0] by simp
qed

text \<open>C30: Issuing a handle refines a map update at a fresh key. Whichever branch runs (a
  recycled slot, at any point of the generation cycle, or a new one), the new handle is not 0,
  carries the entry's kind, was not in use, resolves to exactly the inserted entry and owner, and
  every other handle resolves as before; the table stays well formed and the call does not
  panic.\<close>

theorem insert_into_refines:
  assumes "wf_table t" and "has_room t"
  shows "\<exists>h t'. insert_into t e own = (Ok h, t') \<and> h \<noteq> 0 \<and> handle_kind h = Entry_kind e \<and>
           lookup_handle t h = None \<and> lookup_handle t' = (lookup_handle t)(h \<mapsto> (own, e)) \<and>
           wf_table t'"
  by (rule insert_into_spec [OF assms, of e own]) auto

theorem insert_into_refines_witness:
  "\<exists>h t'. insert_into demo_table (Worker 13) 0x0100000100000000 = (Ok h, t') \<and> h \<noteq> 0 \<and>
     lookup_handle t' h = Some (0x0100000100000000, Worker 13) \<and>
     lookup_handle t' 0x0500000100000002 = Some (0, Poller 12)"
proof -
  have "wf_table demo_table" using demo_table_ok by (simp add: table_ok_def)
  moreover have "has_room demo_table" by (simp add: has_room_def demo_table_def)
  ultimately obtain h t' where "insert_into demo_table (Worker 13) 0x0100000100000000 = (Ok h, t')"
    "h \<noteq> 0" "lookup_handle demo_table h = None"
    "lookup_handle t' = (lookup_handle demo_table)(h \<mapsto> (0x0100000100000000, Worker 13))"
    using insert_into_refines by blast
  then show ?thesis using demo_lookup(3) by auto
qed

text \<open>Freeing a handle, on every branch: a live handle of the expected kind is removed and
  only it; a live handle of another kind is rejected as of the wrong kind; a dead or forged handle
  is rejected. A rejected free changes nothing, and a second free of the same handle is always
  rejected.\<close>

theorem remove_of_kind_behaviour:
  assumes "wf_table t"
  shows "case lookup_handle t h of
      Some (own, e) \<Rightarrow>
        (if k = handle_kind h
         then (\<exists>t' x. remove_of_kind t h k = (Ok e, t') \<and> wf_table t' \<and>
                 lookup_handle t' = (lookup_handle t)(h := None) \<and>
                 remove_of_kind t' h k = (Err x, t'))
         else remove_of_kind t h k = (Err WrongHandleKind, t))
    | None \<Rightarrow> (\<exists>x \<in> {StaleHandle, WrongHandleKind}. remove_of_kind t h k = (Err x, t))"
proof (cases "lookup_handle t h")
  case None
  then obtain x where x: "remove_of_kind t h k = (Err x, t)"
    using remove_of_kind_rejected by blast
  moreover have "x \<in> {StaleHandle, WrongHandleKind}"
    using x by (auto simp: remove_of_kind_def validate_def take_slot_def Let_def
        split: if_splits option.splits)
  ultimately show ?thesis using None by auto
next
  case (Some p)
  then obtain own e where l: "lookup_handle t h = Some (own, e)" by (cases p) auto
  show ?thesis
  proof (cases "k = handle_kind h")
    case True
    from ht.del_law [OF assms l] obtain t' where
      t': "remove_of_kind t h k = (Ok e, t')" "lookup_handle t' = (lookup_handle t)(h := None)"
        "wf_table t'" unfolding True by blast
    obtain x where "remove_of_kind t' h k = (Err x, t')"
      using ht.del_again [OF assms l t'(1) [unfolded True]] True by blast
    with t' l True show ?thesis by auto
  next
    case False
    then show ?thesis using l validate_lookup(7) [OF l]
      by (simp add: remove_of_kind_def validate_def)
  qed
qed

theorem remove_of_kind_behaviour_witness:
  "remove_of_kind demo_table 0x0500000100000002 KIND_RUNTIME = (Err WrongHandleKind, demo_table)"
proof -
  have "wf_table demo_table" using demo_table_ok by (simp add: table_ok_def)
  from remove_of_kind_behaviour [OF this, of "0x0500000100000002" KIND_RUNTIME]
  show ?thesis
    by (simp add: demo_lookup handle_kind_def KIND_SHIFT_def KIND_RUNTIME_def)
qed

text \<open>Closing a runtime invalidates, in one critical section, the runtime's handle and every
  handle it owns, and no other: pollers, which are inserted unowned, keep resolving. The call
  returns each owned entry exactly once, so that all of them are closed, and never panics.\<close>

theorem remove_runtime_closes_owned:
  assumes "table_ok t" and "lookup_handle t h = Some (own, Runtime r)"
  shows "\<exists>children t'. remove_runtime t h = (Ok (r, children), t') \<and> table_ok t' \<and>
     lookup_handle t' =
       (\<lambda>k. if k = h \<or> (\<exists>e. lookup_handle t k = Some (h, e)) then None else lookup_handle t k) \<and>
     mset children = image_mset (\<lambda>i. the (entry (slots t ! i)))
       (mset_set {i. i < length (slots t) \<and> owner (slots t ! i) = h})"
proof -
  from assms(1) have wf: "wf_table t" and ol: "owners_live t" by (simp_all add: table_ok_def)
  let ?t' = "freed_all t (handle_index h # owned_slots t h)"
  have "mset (owned_slots t h) = mset_set (set (owned_slots t h))"
    by (simp add: owned_slots_def mset_set_set)
  moreover have "set (owned_slots t h) = {i. i < length (slots t) \<and> owner (slots t ! i) = h}"
    by (auto simp: owned_slots_def)
  ultimately have "mset (map (\<lambda>i. the (entry (slots t ! i))) (owned_slots t h)) =
    image_mset (\<lambda>i. the (entry (slots t ! i)))
      (mset_set {i. i < length (slots t) \<and> owner (slots t ! i) = h})" by simp
  moreover have "table_ok ?t'"
    using remove_runtime_wf [OF wf ol assms(2)] owners_live_closed [OF wf ol assms(2)]
    by (simp add: table_ok_def)
  ultimately show ?thesis
    using remove_runtime_eq [OF wf ol assms(2)] remove_runtime_lookup [OF wf assms(2)]
    by (intro exI conjI) (assumption | rule ext | simp del: freed_all_simps)+
qed

theorem remove_runtime_closes_owned_witness:
  "\<exists>children t'. remove_runtime demo_table 0x0100000100000000 = (Ok (10, children), t') \<and>
     lookup_handle t' 0x0200000100000001 = None \<and>
     lookup_handle t' 0x0500000100000002 = Some (0, Poller 12)"
proof -
  from remove_runtime_closes_owned [OF demo_table_ok demo_lookup(1)]
  obtain children t' where "remove_runtime demo_table 0x0100000100000000 = (Ok (10, children), t')"
    "lookup_handle t' = (\<lambda>k. if k = 0x0100000100000000 \<or>
       (\<exists>e. lookup_handle demo_table k = Some (0x0100000100000000, e)) then None
       else lookup_handle demo_table k)" by blast
  then show ?thesis by (simp add: demo_lookup)
qed



text \<open>In every table the bridge can produce, the invariant holds: generations fit their
  field and are never 0, the free list is exactly the dead slots, and every owner is a live
  runtime, so no resource outlives the runtime that created it.\<close>

theorem table_history_ok:
  assumes "list_all bridge_op ops" and "length ops \<le> 2 ^ 32"
  shows "table_ok (foldl table_step HandleTable_new ops)"
  using table_run [OF table_ok_new assms(1)] assms(2) by (simp add: HandleTable_new_def)

theorem table_history_ok_witness: "table_ok demo_table"
  using table_history_ok [of demo_ops] demo_run by (simp add: demo_ops_def kind_defs)

end
