(* ===== verification/Kt_Queue.thy ===== *)
theory Kt_Queue
  imports Kt_Handle
begin

text \<open>
  The completion queue (\<^verbatim>\<open>queue.rs\<close>): what producers push, what a poll hands to the JVM, and how
  pollers wait.

  The sequential half models each critical section as a function on the state its mutex guards:
  \<open>Sender_push\<close>, \<open>Queue_close\<close>, \<open>PollerEntry_wake\<close>, the body of the wait loop (\<open>poll_check\<close>),
  the drain (\<open>poll_drain\<close>) and the copy into the slab (\<open>poll_deliver\<close>). The concurrent half runs
  them in any interleaving: \<open>queue_step\<close> has one rule per critical section, and parking on the
  condition variable releases the mutex in the same step as the check that decided to park, as
  \<^verbatim>\<open>Condvar::wait\<close> does.

  The slab of a poller is a byte vector at some address (\<open>base\<close>); growing it may move it, so the
  address after a growth is a parameter (\<open>new_base\<close>) that stands for the allocator.
\<close>

record Pending =
  req_id :: u64
  kind :: KtKind
  status :: i32
  payload :: "u8 list"
  aux0 :: u64
  aux1 :: u64

definition Pending_ack :: "u64 \<Rightarrow> Pending" where
  "Pending_ack r = \<lparr>req_id = r, kind = Ack, status = KT_OK, payload = [], aux0 = 0, aux1 = 0\<rparr>"

definition Pending_error :: "u64 \<Rightarrow> i32 \<Rightarrow> string \<Rightarrow> Pending" where
  "Pending_error r st message =
    \<lparr>req_id = r, kind = Ack, status = st, payload = string_bytes message, aux0 = 0, aux1 = 0\<rparr>"

definition Pending_kind :: "KtKind \<Rightarrow> Pending \<Rightarrow> Pending" where
  "Pending_kind k p = p\<lparr>kind := k\<rparr>"

definition Pending_payload :: "u8 list \<Rightarrow> Pending \<Rightarrow> Pending" where
  "Pending_payload b p = p\<lparr>payload := b\<rparr>"

definition Pending_aux0 :: "u64 \<Rightarrow> Pending \<Rightarrow> Pending" where
  "Pending_aux0 a p = p\<lparr>aux0 := a\<rparr>"

definition Pending_aux1 :: "u64 \<Rightarrow> Pending \<Rightarrow> Pending" where
  "Pending_aux1 a p = p\<lparr>aux1 := a\<rparr>"

lemmas pending_defs = Pending_ack_def Pending_error_def Pending_kind_def Pending_payload_def
  Pending_aux0_def Pending_aux1_def

text \<open>
  \<^verbatim>\<open>Drop for Pending\<close>: the table after the drop, and the entry it removed, whose last reference
  may go with it. A stale handle is ignored, as \<^verbatim>\<open>let _ =\<close> does.
\<close>

definition Pending_drop :: "Pending \<Rightarrow> Table \<Rightarrow> Entry option \<times> Table" where
  "Pending_drop p table =
    (if status p \<noteq> KT_OK \<or> aux0 p = 0 then (None, table)
     else let release = (\<lambda>k. case remove_of_kind table (aux0 p) k of
                               (Ok e, table') \<Rightarrow> (Some e, table')
                             | (_, table') \<Rightarrow> (None, table'))
          in case kind p of
               ClientConnected \<Rightarrow> release KIND_CLIENT
             | EphemeralStarted \<Rightarrow> release KIND_EPHEMERAL
             | _ \<Rightarrow> (None, table))"

section \<open>The slab\<close>

record BatchBuf =
  bytes :: "u8 list"
  used :: nat
  base :: u64

definition BatchBuf_reset :: "BatchBuf \<Rightarrow> BatchBuf" where
  "BatchBuf_reset buf = buf\<lparr>used := 0\<rparr>"

definition BatchBuf_put :: "BatchBuf \<Rightarrow> u8 list \<Rightarrow> (u64 \<times> u64) KtResult \<times> BatchBuf" where
  "BatchBuf_put buf src =
    (let start = used buf
     in if start + length src > length (bytes buf)
        then (Panicked (OwnedString ''range end index out of range for slice''), buf)
        else let buf' = buf\<lparr>bytes := take start (bytes buf) @ src @ drop (start + length src) (bytes buf),
                            used := start + length src\<rparr>
             in (Ok (base buf' + of_nat start, of_nat (length src)), buf'))"

function next_power_of_two_from :: "nat \<Rightarrow> nat \<Rightarrow> nat" where
  "next_power_of_two_from p n = (if p = 0 \<or> n \<le> p then p else next_power_of_two_from (2 * p) n)"
  by pat_completeness auto
termination
  by (relation "measure (\<lambda>(p, n). n - p)") auto

declare next_power_of_two_from.simps [simp del]

definition next_power_of_two :: "nat \<Rightarrow> nat" where
  "next_power_of_two n = next_power_of_two_from 1 n"

definition BatchBuf_reserve :: "nat \<Rightarrow> u64 \<Rightarrow> BatchBuf \<Rightarrow> BatchBuf" where
  "BatchBuf_reserve need new_base buf =
    (if length (bytes buf) < need
     then let n = max (next_power_of_two need) (64 * 1024)
          in buf\<lparr>bytes := bytes buf @ replicate (n - length (bytes buf)) 0, base := new_base\<rparr>
     else buf)"

section \<open>The queue\<close>

record QueueState =
  queue :: "Pending list"
  wakes :: u64
  closed :: bool

definition Queue_new :: QueueState where
  "Queue_new = \<lparr>queue = [], wakes = 0, closed = False\<rparr>"

text \<open>A push into a closed queue drops the completion: the second component is what is dropped.\<close>

definition Sender_push :: "QueueState \<Rightarrow> Pending \<Rightarrow> QueueState \<times> Pending option" where
  "Sender_push s p = (if closed s then (s, Some p) else (s\<lparr>queue := queue s @ [p]\<rparr>, None))"

definition Queue_close :: "QueueState \<Rightarrow> QueueState" where
  "Queue_close s = s\<lparr>closed := True\<rparr>"

definition Queue_is_closed :: "QueueState \<Rightarrow> bool" where
  "Queue_is_closed s = closed s"

definition PollerEntry_wake :: "QueueState \<Rightarrow> QueueState" where
  "PollerEntry_wake s = s\<lparr>wakes := wakes s + 1\<rparr>"

section \<open>One poll\<close>

datatype poll_wait = Leave | Park

text \<open>The body of the wait loop: leave it, or wait on the condition variable.\<close>

definition poll_check :: "QueueState \<Rightarrow> i32 \<Rightarrow> poll_wait \<times> QueueState" where
  "poll_check s timeout_millis =
    (if queue s \<noteq> [] \<or> closed s then (Leave, s)
     else if wakes s > 0 then (Leave, s\<lparr>wakes := wakes s - 1\<rparr>)
     else if timeout_millis = 0 then (Leave, s)
     else (Park, s))"

definition poll_drain :: "QueueState \<Rightarrow> u32 \<Rightarrow> (Pending list \<times> bool) \<times> QueueState" where
  "poll_drain s cap =
    (let n = min (unat cap) (length (queue s))
     in ((take n (queue s), closed s), s\<lparr>queue := drop n (queue s)\<rparr>))"

definition completion_of :: "Pending \<Rightarrow> u64 \<Rightarrow> u64 \<Rightarrow> KtCompletion" where
  "completion_of p ptr len =
    \<lparr>kc_req_id = req_id p, kc_kind = KtKind_u32 (kind p), kc_status = status p, kc_payload = ptr,
     kc_payload_len = len, kc_aux0 = aux0 p, kc_aux1 = aux1 p\<rparr>"

text \<open>
  The copy loop: the records in the order they are written to \<^verbatim>\<open>out\<close>, and the completions as the
  loop leaves them, with \<^verbatim>\<open>aux0\<close> cleared because the caller now owns what it names.
\<close>

fun poll_emit :: "Pending list \<Rightarrow> BatchBuf \<Rightarrow> (KtCompletion list \<times> Pending list) KtResult \<times> BatchBuf"
where
  "poll_emit [] buf = (Ok ([], []), buf)"
| "poll_emit (p # ps) buf =
     (case (if payload p = [] then (Ok (0, 0), buf) else BatchBuf_put buf (payload p)) of
        (Ok (ptr, len), buf') \<Rightarrow>
          (case poll_emit ps buf' of
             (r, buf'') \<Rightarrow>
               (and_then r (\<lambda>(cs, qs). Ok (completion_of p ptr len # cs, p\<lparr>aux0 := 0\<rparr> # qs)), buf''))
      | (Err x, buf') \<Rightarrow> (Err x, buf')
      | (Panicked x, buf') \<Rightarrow> (Panicked x, buf'))"

definition poll_deliver ::
  "Pending list \<Rightarrow> bool \<Rightarrow> u64 \<Rightarrow> BatchBuf \<Rightarrow> (KtCompletion list \<times> Pending list) KtResult \<times> BatchBuf"
where
  "poll_deliver drained was_closed new_base buf =
    (if drained = [] then (if was_closed then (Err Shutdown, buf) else (Ok ([], []), buf))
     else let buf = BatchBuf_reset buf;
              need = sum_list (map (\<lambda>p. length (payload p)) drained);
              buf = BatchBuf_reserve need new_base buf
          in poll_emit drained buf)"

text \<open>The checks before the lock: \<open>Inl\<close> is an early return, \<open>Inr\<close> the new value of \<^verbatim>\<open>in_poll\<close>.\<close>

definition poll_enter :: "u64 \<Rightarrow> u32 \<Rightarrow> bool \<Rightarrow> u32 KtResult + bool" where
  "poll_enter out cap in_poll =
    (if cap = 0 then Inl (Ok 0)
     else if out = 0 then Inl (Err (InvalidArgument ''out is null''))
     else if in_poll then Inl (Err (InvalidArgument
       ''this poller is already being polled by another thread; each poller belongs to one pump thread''))
     else Inr True)"

section \<open>The slab holds the whole batch\<close>

lemma next_power_of_two_from_ge: "0 < p \<Longrightarrow> n \<le> next_power_of_two_from p n"
proof (induction p n rule: next_power_of_two_from.induct)
  case (1 p n)
  then show ?case by (subst next_power_of_two_from.simps) simp
qed

lemma next_power_of_two_ge: "n \<le> next_power_of_two n"
  by (simp add: next_power_of_two_def next_power_of_two_from_ge)

definition batch_size :: "Pending list \<Rightarrow> nat" where
  "batch_size ps = sum_list (map (\<lambda>p. length (payload p)) ps)"

lemma batch_size_simps [simp]:
  "batch_size [] = 0"
  "batch_size (p # ps) = length (payload p) + batch_size ps"
  by (simp_all add: batch_size_def)

lemma BatchBuf_reserve_enough:
  "need \<le> length (bytes (BatchBuf_reserve need nb buf))"
  using next_power_of_two_ge [of need] by (auto simp: BatchBuf_reserve_def Let_def)

lemma BatchBuf_reserve_used [simp]: "used (BatchBuf_reserve need nb buf) = used buf"
  by (simp add: BatchBuf_reserve_def Let_def)

lemma BatchBuf_reset_used [simp]: "used (BatchBuf_reset buf) = 0"
  by (simp add: BatchBuf_reset_def)

lemma BatchBuf_put_ok:
  assumes "used buf + length src \<le> length (bytes buf)"
  obtains buf' where "BatchBuf_put buf src = (Ok (base buf + of_nat (used buf), of_nat (length src)), buf')"
    and "base buf' = base buf" and "length (bytes buf') = length (bytes buf)"
    and "used buf' = used buf + length src"
    and "take (used buf) (bytes buf') = take (used buf) (bytes buf)"
    and "take (length src) (drop (used buf) (bytes buf')) = src"
  using assms that by (simp add: BatchBuf_put_def Let_def)

text \<open>The records that the copy loop writes when the next free byte of the slab is \<open>u\<close>.\<close>

fun batch_records :: "u64 \<Rightarrow> nat \<Rightarrow> Pending list \<Rightarrow> KtCompletion list" where
  "batch_records b u [] = []"
| "batch_records b u (p # ps) =
     completion_of p (if payload p = [] then 0 else b + of_nat u) (of_nat (length (payload p))) #
     batch_records b (u + length (payload p)) ps"

lemma poll_emit_ok:
  assumes "used buf + batch_size ps \<le> length (bytes buf)"
  shows "\<exists>buf'. poll_emit ps buf =
      (Ok (batch_records (base buf) (used buf) ps, map (\<lambda>p. p\<lparr>aux0 := 0\<rparr>) ps), buf') \<and>
    base buf' = base buf \<and> length (bytes buf') = length (bytes buf) \<and>
    take (used buf) (bytes buf') = take (used buf) (bytes buf) \<and>
    take (batch_size ps) (drop (used buf) (bytes buf')) = concat (map payload ps)"
  using assms
proof (induction ps arbitrary: buf)
  case (Cons p ps)
  obtain buf1 where put: "(if payload p = [] then (Ok (0, 0), buf) else BatchBuf_put buf (payload p)) =
      (Ok (if payload p = [] then 0 else base buf + of_nat (used buf), of_nat (length (payload p))), buf1)"
    and b: "base buf1 = base buf" "length (bytes buf1) = length (bytes buf)"
    and u: "used buf1 = used buf + length (payload p)"
    and pre: "take (used buf) (bytes buf1) = take (used buf) (bytes buf)"
    and mid: "take (length (payload p)) (drop (used buf) (bytes buf1)) = payload p"
  proof (cases "payload p = []")
    case True
    then show ?thesis by (intro that [of buf]) simp_all
  next
    case False
    from Cons.prems have "used buf + length (payload p) \<le> length (bytes buf)" by simp
    then obtain b1 where
      "BatchBuf_put buf (payload p) = (Ok (base buf + of_nat (used buf), of_nat (length (payload p))), b1)"
      "base b1 = base buf" "length (bytes b1) = length (bytes buf)"
      "used b1 = used buf + length (payload p)"
      "take (used buf) (bytes b1) = take (used buf) (bytes buf)"
      "take (length (payload p)) (drop (used buf) (bytes b1)) = payload p"
      by (rule BatchBuf_put_ok)
    with False show ?thesis by (intro that [of b1]) simp_all
  qed
  have "used buf1 + batch_size ps \<le> length (bytes buf1)" using Cons.prems b u by simp
  from Cons.IH [OF this] obtain buf2 where
    em: "poll_emit ps buf1 =
      (Ok (batch_records (base buf1) (used buf1) ps, map (\<lambda>p. p\<lparr>aux0 := 0\<rparr>) ps), buf2)"
    and b2: "base buf2 = base buf1" "length (bytes buf2) = length (bytes buf1)"
    and pre2: "take (used buf1) (bytes buf2) = take (used buf1) (bytes buf1)"
    and post2: "take (batch_size ps) (drop (used buf1) (bytes buf2)) = concat (map payload ps)"
    by blast
  let ?k = "length (payload p)"
  have p1: "take (used buf) (bytes buf2) = take (used buf) (bytes buf)"
    using arg_cong [OF pre2, of "take (used buf)"] pre by (simp add: u)
  have "take ?k (drop (used buf) (bytes buf2)) = take ?k (drop (used buf) (take (used buf1) (bytes buf2)))"
    by (simp add: u drop_take)
  also have "\<dots> = payload p" using pre2 mid by (simp add: u drop_take)
  finally have p2: "take ?k (drop (used buf) (bytes buf2)) = payload p" .
  have "take (batch_size (p # ps)) (drop (used buf) (bytes buf2)) =
    take ?k (drop (used buf) (bytes buf2)) @ take (batch_size ps) (drop (used buf1) (bytes buf2))"
    by (simp add: take_add u add.commute [of "used buf"])
  then have "take (batch_size (p # ps)) (drop (used buf) (bytes buf2)) = concat (map payload (p # ps))"
    using p2 post2 by simp
  moreover have "poll_emit (p # ps) buf =
      (Ok (batch_records (base buf) (used buf) (p # ps), map (\<lambda>p. p\<lparr>aux0 := 0\<rparr>) (p # ps)), buf2)"
    using put em b u by simp
  ultimately show ?case using p1 b b2 by (intro exI [of _ buf2]) simp
qed simp

text \<open>What the JVM reads through a record: \<open>payload_len\<close> bytes of the slab at \<open>payload\<close>.\<close>

definition read_payload :: "BatchBuf \<Rightarrow> KtCompletion \<Rightarrow> u8 list" where
  "read_payload buf c = take (unat (kc_payload_len c)) (drop (unat (kc_payload c - base buf)) (bytes buf))"

definition delivered :: "BatchBuf \<Rightarrow> Pending \<Rightarrow> KtCompletion \<Rightarrow> bool" where
  "delivered buf p c \<longleftrightarrow>
     kc_req_id c = req_id p \<and> kc_kind c = KtKind_u32 (kind p) \<and> kc_status c = status p \<and>
     kc_aux0 c = aux0 p \<and> kc_aux1 c = aux1 p \<and> read_payload buf c = payload p"

lemma batch_records_delivered:
  assumes "take (batch_size ps) (drop u (bytes buf)) = concat (map payload ps)"
    and "u + batch_size ps \<le> length (bytes buf)" and "length (bytes buf) < 2 ^ 64"
  shows "list_all2 (delivered buf) ps (batch_records (base buf) u ps)"
  using assms
proof (induction ps arbitrary: u)
  case (Cons p ps)
  let ?k = "length (payload p)"
  have split: "take ?k (drop u (bytes buf)) = payload p"
    "take (batch_size ps) (drop (u + ?k) (bytes buf)) = concat (map payload ps)"
  proof -
    have "take (batch_size (p # ps)) (drop u (bytes buf)) =
      take ?k (drop u (bytes buf)) @ take (batch_size ps) (drop (u + ?k) (bytes buf))"
      by (simp add: take_add add.commute [of u])
    moreover have "length (take ?k (drop u (bytes buf))) = ?k" using Cons.prems(2) by simp
    ultimately show "take ?k (drop u (bytes buf)) = payload p"
      "take (batch_size ps) (drop (u + ?k) (bytes buf)) = concat (map payload ps)"
      using Cons.prems(1) by (simp_all add: append_eq_append_conv)
  qed
  have "u < 2 ^ 64" "?k < 2 ^ 64" using Cons.prems(2,3) by simp_all
  then have "delivered buf p
      (completion_of p (if payload p = [] then 0 else base buf + of_nat u) (of_nat ?k))"
    using split(1) by (simp add: delivered_def completion_of_def read_payload_def)
  moreover have "list_all2 (delivered buf) ps (batch_records (base buf) (u + ?k) ps)"
    by (rule Cons.IH) (use split(2) Cons.prems in simp_all)
  ultimately show ?case by simp
qed simp

lemma poll_deliver_ok:
  assumes "drained \<noteq> []"
    and "length (bytes (BatchBuf_reserve (batch_size drained) nb (BatchBuf_reset buf))) < 2 ^ 64"
  shows "\<exists>cs buf'. poll_deliver drained was_closed nb buf =
      (Ok (cs, map (\<lambda>p. p\<lparr>aux0 := 0\<rparr>) drained), buf') \<and> list_all2 (delivered buf') drained cs"
proof -
  let ?b = "BatchBuf_reserve (batch_size drained) nb (BatchBuf_reset buf)"
  have "used ?b + batch_size drained \<le> length (bytes ?b)"
    using BatchBuf_reserve_enough [of "batch_size drained" nb] by simp
  from poll_emit_ok [OF this] obtain buf' where
    em: "poll_emit drained ?b =
      (Ok (batch_records (base ?b) 0 drained, map (\<lambda>p. p\<lparr>aux0 := 0\<rparr>) drained), buf')"
    and b: "base buf' = base ?b" "length (bytes buf') = length (bytes ?b)"
    and c: "take (batch_size drained) (bytes buf') = concat (map payload drained)"
    by auto
  have "list_all2 (delivered buf') drained (batch_records (base buf') 0 drained)"
    by (rule batch_records_delivered)
      (use b c assms(2) BatchBuf_reserve_enough [of "batch_size drained" nb "BatchBuf_reset buf"] in auto)
  then show ?thesis
    using assms(1) em b by (simp add: poll_deliver_def Let_def batch_size_def)
qed

section \<open>The contract of the queue\<close>

text \<open>
  What the producers of completions rely on: an open sink takes every completion in order, a
  closed one hands it back to be dropped, and closing is permanent and keeps what was taken.
\<close>

locale completion_sink =
  fixes contents :: "'s \<Rightarrow> Pending list"
    and is_closed :: "'s \<Rightarrow> bool"
    and push :: "'s \<Rightarrow> Pending \<Rightarrow> 's \<times> Pending option"
    and close :: "'s \<Rightarrow> 's"
  assumes push_open: "\<not> is_closed s \<Longrightarrow> push s p = (s', r) \<Longrightarrow>
      contents s' = contents s @ [p] \<and> r = None \<and> \<not> is_closed s'"
    and push_closed: "is_closed s \<Longrightarrow> push s p = (s, Some p)"
    and close_contents: "contents (close s) = contents s"
    and close_closed: "is_closed (close s)"
begin

lemma push_fst:
  "contents (fst (push s p)) = (if is_closed s then contents s else contents s @ [p])"
  "is_closed (fst (push s p)) = is_closed s"
  using push_open [of s p] push_closed [of s p] by (cases "push s p", auto)+

lemma push_all_contents:
  "contents (fold (\<lambda>p s. fst (push s p)) ps s) = (if is_closed s then contents s else contents s @ ps)"
  by (induction ps arbitrary: s) (simp_all add: push_fst)

lemma push_all_closed:
  "is_closed (fold (\<lambda>p s. fst (push s p)) ps s) = is_closed s"
  by (induction ps arbitrary: s) (simp_all add: push_fst)

lemma drain_and_close:
  "\<not> is_closed s \<Longrightarrow>
    contents (close (fold (\<lambda>p s. fst (push s p)) ps s)) = contents s @ ps \<and>
    is_closed (close (fold (\<lambda>p s. fst (push s p)) ps s))"
  by (simp add: close_contents close_closed push_all_contents)

lemma nothing_after_close:
  "contents (fold (\<lambda>p s. fst (push s p)) ps (close s)) = contents s"
  by (simp add: push_all_contents close_contents close_closed)

end

interpretation sink: completion_sink queue closed Sender_push Queue_close
  by unfold_locales (auto simp: Sender_push_def Queue_close_def split: if_splits)

section \<open>Polls in any interleaving\<close>

text \<open>
  Where a thread inside \<^verbatim>\<open>poll\<close> is: about to take the lock and test the predicate, parked on the
  condition variable, returning from a wait that timed out, or past the lock with its batch.
\<close>

datatype poll_pc =
    Testing
  | Parked
  | TimedOut
  | Copying "Pending list" bool

record poll_call =
  pc_poller :: nat
  pc_cap :: u32
  pc_timeout :: i32
  pc_at :: poll_pc

text \<open>
  The state all threads share, and what each of them does. The last four components only record
  history: what the queue accepted, what it dropped, what polls took out of it in the order they
  took it, and the last batch each poller handed to its caller.
\<close>

record queue_world =
  qstate :: QueueState
  in_poll :: "nat \<Rightarrow> bool"
  slab :: "nat \<Rightarrow> BatchBuf"
  calls :: "nat \<rightharpoonup> poll_call"
  accepted :: "Pending list"
  dropped :: "Pending list"
  taken :: "Pending list"
  returned :: "Pending list"
  handed :: "nat \<Rightarrow> Pending list \<times> KtCompletion list"

definition notify_call :: "poll_call \<Rightarrow> poll_call" where
  "notify_call c = (if pc_at c = Parked then c\<lparr>pc_at := Testing\<rparr> else c)"

definition notify_all :: "(nat \<rightharpoonup> poll_call) \<Rightarrow> (nat \<rightharpoonup> poll_call)" where
  "notify_all cs t = map_option notify_call (cs t)"

inductive queue_step :: "queue_world \<Rightarrow> queue_world \<Rightarrow> bool" where
  step_enter:
    "calls w t = None \<Longrightarrow> poll_enter out cap (in_poll w i) = Inr b \<Longrightarrow>
     queue_step w (w\<lparr>in_poll := (in_poll w)(i := b),
       calls := (calls w)(t \<mapsto> \<lparr>pc_poller = i, pc_cap = cap, pc_timeout = ms, pc_at = Testing\<rparr>)\<rparr>)"
| step_leave:
    "calls w t = Some c \<Longrightarrow> pc_at c = Testing \<Longrightarrow>
     poll_check (qstate w) (pc_timeout c) = (Leave, s) \<Longrightarrow>
     poll_drain s (pc_cap c) = ((ps, was_closed), s') \<Longrightarrow>
     queue_step w (w\<lparr>qstate := s', taken := taken w @ ps,
       calls := (calls w)(t \<mapsto> c\<lparr>pc_at := Copying ps was_closed\<rparr>)\<rparr>)"
| step_park:
    "calls w t = Some c \<Longrightarrow> pc_at c = Testing \<Longrightarrow>
     poll_check (qstate w) (pc_timeout c) = (Park, s) \<Longrightarrow>
     queue_step w (w\<lparr>qstate := s, calls := (calls w)(t \<mapsto> c\<lparr>pc_at := Parked\<rparr>)\<rparr>)"
| step_spurious:
    "calls w t = Some c \<Longrightarrow> pc_at c = Parked \<Longrightarrow>
     queue_step w (w\<lparr>calls := (calls w)(t \<mapsto> c\<lparr>pc_at := Testing\<rparr>)\<rparr>)"
| step_timeout:
    "calls w t = Some c \<Longrightarrow> pc_at c = Parked \<Longrightarrow> 0 < sint (pc_timeout c) \<Longrightarrow>
     queue_step w (w\<lparr>calls := (calls w)(t \<mapsto> c\<lparr>pc_at := TimedOut\<rparr>)\<rparr>)"
| step_timed_out:
    "calls w t = Some c \<Longrightarrow> pc_at c = TimedOut \<Longrightarrow>
     poll_drain (qstate w) (pc_cap c) = ((ps, was_closed), s') \<Longrightarrow>
     queue_step w (w\<lparr>qstate := s', taken := taken w @ ps,
       calls := (calls w)(t \<mapsto> c\<lparr>pc_at := Copying ps was_closed\<rparr>)\<rparr>)"
| step_deliver:
    "calls w t = Some c \<Longrightarrow> pc_at c = Copying ps was_closed \<Longrightarrow>
     poll_deliver ps was_closed nb (slab w (pc_poller c)) = (Ok (cs, qs), buf') \<Longrightarrow>
     length (bytes buf') < 2 ^ 64 \<Longrightarrow>
     queue_step w (w\<lparr>calls := (calls w)(t := None), in_poll := (in_poll w)(pc_poller c := False),
       slab := (slab w)(pc_poller c := buf'), returned := returned w @ ps,
       handed := (handed w)(pc_poller c := if ps = [] then handed w (pc_poller c) else (ps, cs))\<rparr>)"
| step_shut_down:
    "calls w t = Some c \<Longrightarrow> pc_at c = Copying ps was_closed \<Longrightarrow>
     poll_deliver ps was_closed nb (slab w (pc_poller c)) = (Err e, buf') \<Longrightarrow>
     queue_step w (w\<lparr>calls := (calls w)(t := None), in_poll := (in_poll w)(pc_poller c := False),
       slab := (slab w)(pc_poller c := buf')\<rparr>)"
| step_push:
    "Sender_push (qstate w) p = (s', d) \<Longrightarrow>
     queue_step w (case d of
         None \<Rightarrow> w\<lparr>qstate := s', calls := notify_all (calls w), accepted := accepted w @ [p]\<rparr>
       | Some q \<Rightarrow> w\<lparr>qstate := s', dropped := dropped w @ [q]\<rparr>)"
| step_close:
    "queue_step w (w\<lparr>qstate := Queue_close (qstate w), calls := notify_all (calls w)\<rparr>)"
| step_wake:
    "queue_step w (w\<lparr>qstate := PollerEntry_wake (qstate w), calls := notify_all (calls w)\<rparr>)"

text \<open>A fresh queue whose pollers have empty slabs (\<^verbatim>\<open>BatchBuf::default\<close>) and no caller.\<close>

definition queue_init :: "queue_world \<Rightarrow> bool" where
  "queue_init w \<longleftrightarrow> qstate w = Queue_new \<and> (\<forall>i. \<not> in_poll w i) \<and> calls w = Map.empty \<and>
     accepted w = [] \<and> dropped w = [] \<and> taken w = [] \<and> returned w = [] \<and>
     (\<forall>i. bytes (slab w i) = [] \<and> used (slab w i) = 0 \<and> handed w i = ([], []))"

section \<open>Invariants of every interleaving\<close>

definition batch_of :: "poll_call option \<Rightarrow> Pending multiset" where
  "batch_of c = (case c of None \<Rightarrow> {#} | Some c \<Rightarrow> (case pc_at c of Copying ps _ \<Rightarrow> mset ps | _ \<Rightarrow> {#}))"

definition in_copy :: "(nat \<rightharpoonup> poll_call) \<Rightarrow> Pending multiset" where
  "in_copy cs = dom_sum batch_of cs"

definition fifo :: "queue_world \<Rightarrow> bool" where
  "fifo w \<longleftrightarrow> accepted w = taken w @ queue (qstate w)"

definition accounted :: "queue_world \<Rightarrow> bool" where
  "accounted w \<longleftrightarrow> finite (dom (calls w)) \<and> mset (taken w) = mset (returned w) + in_copy (calls w)"

definition no_lost_wakeup :: "queue_world \<Rightarrow> bool" where
  "no_lost_wakeup w \<longleftrightarrow> (\<forall>t c. calls w t = Some c \<longrightarrow> pc_at c = Parked \<longrightarrow>
     queue (qstate w) = [] \<and> \<not> closed (qstate w) \<and> wakes (qstate w) = 0)"

definition polling :: "(nat \<rightharpoonup> poll_call) \<Rightarrow> nat \<Rightarrow> nat option" where
  "polling cs t = map_option pc_poller (cs t)"

definition one_poll_each :: "queue_world \<Rightarrow> bool" where
  "one_poll_each w \<longleftrightarrow>
     (\<forall>i. in_poll w i \<longleftrightarrow> (\<exists>t. polling (calls w) t = Some i)) \<and>
     (\<forall>t t' i. polling (calls w) t = Some i \<longrightarrow> polling (calls w) t' = Some i \<longrightarrow> t = t')"

definition batches_intact :: "queue_world \<Rightarrow> bool" where
  "batches_intact w \<longleftrightarrow> (\<forall>i. list_all2 (delivered (slab w i)) (fst (handed w i)) (snd (handed w i)))"

definition drop_only_closed :: "queue_world \<Rightarrow> bool" where
  "drop_only_closed w \<longleftrightarrow> (dropped w = [] \<or> closed (qstate w)) \<and>
     (\<forall>t c ps. calls w t = Some c \<longrightarrow> pc_at c = Copying ps True \<longrightarrow> closed (qstate w))"

definition queue_inv :: "queue_world \<Rightarrow> bool" where
  "queue_inv w \<longleftrightarrow> fifo w \<and> accounted w \<and> no_lost_wakeup w \<and> one_poll_each w \<and> batches_intact w \<and>
     drop_only_closed w"

lemmas queue_inv_defs [kt_inv] = fifo_def accounted_def no_lost_wakeup_def one_poll_each_def
  batches_intact_def drop_only_closed_def

lemmas queue_op_defs [kt_op] = poll_check_def poll_drain_def Sender_push_def Queue_close_def
  PollerEntry_wake_def poll_enter_def Let_def

lemma in_copy_upd:
  "finite (dom cs) \<Longrightarrow> in_copy (cs(t := x)) + batch_of (cs t) = in_copy cs + batch_of x"
  unfolding in_copy_def by (rule dom_sum_upd) (simp_all add: batch_of_def)

lemma notify_call_simps [simp]:
  "pc_poller (notify_call c) = pc_poller c"
  "pc_at (notify_call c) \<noteq> Parked"
  "pc_at (notify_call c) = Copying ps b \<longleftrightarrow> pc_at c = Copying ps b"
  by (simp_all add: notify_call_def)

lemma dom_notify_all [simp]: "dom (notify_all cs) = dom cs"
  by (auto simp: notify_all_def dom_def)

lemma batch_of_notify [simp]: "batch_of (notify_all cs t) = batch_of (cs t)"
  by (auto simp: batch_of_def notify_all_def notify_call_def split: option.splits poll_pc.splits)

lemma in_copy_notify [simp]: "in_copy (notify_all cs) = in_copy cs"
  by (simp add: in_copy_def dom_sum_def)

lemma polling_notify [simp]: "polling (notify_all cs) = polling cs"
  by (simp add: polling_def notify_all_def option.map_comp comp_def fun_eq_iff)

lemma polling_upd [simp]: "polling (cs(t := x)) = (polling cs)(t := map_option pc_poller x)"
  by (simp add: polling_def fun_eq_iff)

lemma polling_same: "cs t = Some c \<Longrightarrow> (polling cs)(t \<mapsto> pc_poller c) = polling cs"
  by (simp add: polling_def fun_eq_iff)

lemma notify_all_Some:
  "notify_all cs t = Some c \<longleftrightarrow> (\<exists>c'. cs t = Some c' \<and> c = notify_call c')"
  by (auto simp: notify_all_def)

lemma poll_check_Leave:
  "poll_check s ms = (Leave, s') \<Longrightarrow> queue s' = queue s \<and> closed s' = closed s \<and>
     (queue s \<noteq> [] \<or> closed s \<or> wakes s > 0 \<or> ms = 0) \<and> wakes s' \<le> wakes s"
  by (auto simp: poll_check_def split: if_splits)
     (metis less_imp_le word_less_nat_alt unat_minus_one word_gt_0 diff_less unat_gt_0 less_numeral_extra(1) word_neq_0_conv)

lemma poll_check_Park:
  "poll_check s ms = (Park, s') \<Longrightarrow> s' = s \<and> queue s = [] \<and> \<not> closed s \<and> wakes s = 0 \<and> ms \<noteq> 0"
  by (auto simp: poll_check_def word_neq_0_conv [symmetric] split: if_splits)

lemma poll_drain_eq:
  "poll_drain s cap = ((ps, b), s') \<Longrightarrow>
     queue s = ps @ queue s' \<and> b = closed s \<and> closed s' = closed s \<and> wakes s' = wakes s"
  by (auto simp: poll_drain_def Let_def)

lemma poll_deliver_cases:
  assumes "poll_deliver ps b nb buf = (r, buf')"
  shows "(ps = [] \<and> buf' = buf \<and> r = (if b then Err Shutdown else Ok ([], []))) \<or>
    (ps \<noteq> [] \<and> (\<exists>cs qs. r = Ok (cs, qs)) \<and>
     length (bytes buf') = length (bytes (BatchBuf_reserve (batch_size ps) nb (BatchBuf_reset buf))))"
proof (cases "ps = []")
  case True
  with assms show ?thesis by (auto simp: poll_deliver_def)
next
  case False
  let ?b = "BatchBuf_reserve (batch_size ps) nb (BatchBuf_reset buf)"
  have "used ?b + batch_size ps \<le> length (bytes ?b)"
    using BatchBuf_reserve_enough [of "batch_size ps" nb] by simp
  from poll_emit_ok [OF this] False assms show ?thesis
    by (auto simp: poll_deliver_def Let_def batch_size_def)
qed

lemma poll_deliver_intact:
  assumes "poll_deliver ps b nb buf = (Ok (cs, qs), buf')" and "ps \<noteq> []" and "length (bytes buf') < 2 ^ 64"
  shows "list_all2 (delivered buf') ps cs"
  using poll_deliver_ok [of ps nb buf b] poll_deliver_cases [OF assms(1)] assms by auto

lemma fifo_step: "queue_step w w' \<Longrightarrow> fifo w \<Longrightarrow> fifo w'"
  by (induction rule: queue_step.induct)
    (auto simp: fifo_def Sender_push_def Queue_close_def PollerEntry_wake_def
      dest!: poll_check_Leave poll_check_Park poll_drain_eq split: if_splits)

lemma accounted_upd:
  assumes "finite (dom cs)" "cs t = Some c" "batch_of (Some c) = {#}"
  shows "in_copy (cs(t \<mapsto> c')) = in_copy cs + batch_of (Some c')"
  using in_copy_upd [OF assms(1), of t "Some c'"] assms(2,3) by simp

lemma accounted_del:
  assumes "finite (dom cs)" "cs t = Some c" "pc_at c = Copying ps b"
  shows "mset ps + in_copy (cs(t := None)) = in_copy cs"
  using in_copy_upd [OF assms(1), of t None] assms(2,3) by (simp add: batch_of_def add.commute)

lemma accounted_step: "queue_step w w' \<Longrightarrow> accounted w \<Longrightarrow> accounted w'"
proof (induction rule: queue_step.induct)
  case (step_enter w t out cap i b ms)
  then show ?case
    using in_copy_upd [of "calls w" t "Some \<lparr>pc_poller = i, pc_cap = cap, pc_timeout = ms, pc_at = Testing\<rparr>"]
    by (simp add: accounted_def batch_of_def)
next
  case (step_deliver w t c ps was_closed nb cs qs buf')
  then show ?case
    by (auto simp: accounted_def add.assoc accounted_del)
next
  case (step_shut_down w t c ps was_closed nb e buf')
  then have "ps = []" by (auto dest: poll_deliver_cases)
  with step_shut_down accounted_del [of "calls w" t c ps was_closed] show ?case
    by (auto simp: accounted_def)
next
  case (step_push w p s' d)
  then show ?case by (auto simp: accounted_def split: option.splits)
qed (auto simp: accounted_def accounted_upd batch_of_def)

lemma no_lost_wakeup_step: "queue_step w w' \<Longrightarrow> no_lost_wakeup w \<Longrightarrow> no_lost_wakeup w'"
proof (induction rule: queue_step.induct)
  case (step_leave w t c s ps was_closed s')
  then show ?case
    by (auto simp: no_lost_wakeup_def dest!: poll_check_Leave poll_drain_eq split: if_splits)
next
  case (step_park w t c s)
  then show ?case by (auto simp: no_lost_wakeup_def dest!: poll_check_Park)
next
  case (step_timed_out w t c ps was_closed s')
  then show ?case
    by (auto simp: no_lost_wakeup_def dest!: poll_drain_eq split: if_splits)
next
  case (step_push w p s' d)
  then show ?case
    by (auto simp: no_lost_wakeup_def notify_all_Some Sender_push_def split: if_splits)
qed (auto simp: no_lost_wakeup_def notify_all_Some split: if_splits)

lemma one_poll_each_leave:
  assumes "one_poll_each w" "calls w t = Some c"
    and "in_poll w' = (in_poll w)(pc_poller c := False)" "calls w' = (calls w)(t := None)"
  shows "one_poll_each w'"
proof -
  have "polling (calls w) t = Some (pc_poller c)" using assms(2) by (simp add: polling_def)
  with assms show ?thesis
    unfolding one_poll_each_def by (auto split: if_splits) (metis option.inject)
qed

lemma one_poll_each_step: "queue_step w w' \<Longrightarrow> one_poll_each w \<Longrightarrow> one_poll_each w'"
proof (induction rule: queue_step.induct)
  case (step_enter w t out cap i b ms)
  then have "\<not> in_poll w i" "b" "polling (calls w) t = None"
    by (auto simp: poll_enter_def polling_def split: if_splits)
  with step_enter show ?case
    unfolding one_poll_each_def by (auto split: if_splits) (metis option.distinct(1))
next
  case (step_deliver w t c ps was_closed nb cs qs buf')
  then show ?case by - (rule one_poll_each_leave [of w t c], simp_all)
next
  case (step_shut_down w t c ps was_closed nb e buf')
  then show ?case by - (rule one_poll_each_leave [of w t c], simp_all)
next
  case (step_push w p s' d)
  then show ?case by (cases d) (simp_all add: one_poll_each_def)
qed (simp_all add: one_poll_each_def polling_same)

lemma batches_intact_step: "queue_step w w' \<Longrightarrow> batches_intact w \<Longrightarrow> batches_intact w'"
proof (induction rule: queue_step.induct)
  case (step_deliver w t c ps was_closed nb cs qs buf')
  show ?case
  proof (cases "ps = []")
    case True
    with step_deliver(3) have "buf' = slab w (pc_poller c)" by (auto dest: poll_deliver_cases)
    with True step_deliver(5) show ?thesis by (auto simp: batches_intact_def)
  next
    case False
    with step_deliver poll_deliver_intact [of ps was_closed nb _ cs qs buf'] show ?thesis
      by (auto simp: batches_intact_def)
  qed
next
  case (step_shut_down w t c ps was_closed nb e buf')
  then have "buf' = slab w (pc_poller c)" by (auto dest: poll_deliver_cases)
  with step_shut_down show ?case by (auto simp: batches_intact_def)
next
  case (step_push w p s' d)
  then show ?case by (auto simp: batches_intact_def split: option.splits)
qed (auto simp: batches_intact_def)

lemma drop_only_closed_step: "queue_step w w' \<Longrightarrow> drop_only_closed w \<Longrightarrow> drop_only_closed w'"
proof (induction rule: queue_step.induct)
  case (step_push w p s' d)
  then show ?case
    by (auto simp: drop_only_closed_def notify_all_Some Sender_push_def split: if_splits)
qed (fastforce simp: drop_only_closed_def notify_all_Some Queue_close_def PollerEntry_wake_def
      dest!: poll_check_Leave poll_check_Park poll_drain_eq split: if_splits)+

lemma queue_init_inv: "queue_init w \<Longrightarrow> queue_inv w"
  by (simp add: queue_inv_def queue_init_def Queue_new_def kt_inv in_copy_def polling_def)

lemma queue_inv_step: "queue_inv w \<Longrightarrow> queue_step w w' \<Longrightarrow> queue_inv w'"
  by (simp add: queue_inv_def fifo_step accounted_step no_lost_wakeup_step one_poll_each_step
      batches_intact_step drop_only_closed_step)

interpretation qw: invariant_system queue_init queue_step queue_inv
  by unfold_locales (auto intro: queue_init_inv queue_inv_step)

section \<open>What the queue guarantees\<close>

text \<open>C24: One batch reaches the caller intact. Whatever completions a poll drained and whatever
  its slab looks like, the copy never panics and never grows the slab midway: it writes one record
  per completion, in order, with the same request, kind, status and aux words, and reading
  \<open>payload_len\<close> bytes at each record's pointer gives exactly that completion's payload, for all
  records of the batch at once. The completions it leaves behind own nothing any more: dropping
  them releases no handle.\<close>

theorem poll_delivers_batch:
  assumes "drained \<noteq> []"
    and "length (bytes (BatchBuf_reserve (batch_size drained) nb (BatchBuf_reset buf))) < 2 ^ 64"
  shows "\<exists>cs left buf'. poll_deliver drained was_closed nb buf = (Ok (cs, left), buf') \<and>
     length cs = length drained \<and> list_all2 (delivered buf') drained cs \<and>
     (\<forall>p \<in> set left. Pending_drop p table = (None, table))"
  using poll_deliver_ok [OF assms, of was_closed]
  by (auto simp: Pending_drop_def list_all2_lengthD [symmetric])

definition demo_pending :: Pending where
  "demo_pending = Pending_aux0 0x0200000100000001 (Pending_kind ClientConnected
     (Pending_payload [10, 20, 30] (Pending_ack 7)))"

definition demo_buf :: BatchBuf where
  "demo_buf = \<lparr>bytes = [], used = 0, base = 0\<rparr>"

lemma demo_fits: "length (bytes (BatchBuf_reserve (batch_size [demo_pending]) 4096 (BatchBuf_reset demo_buf))) < 2 ^ 64"
  by (simp add: BatchBuf_reserve_def BatchBuf_reset_def demo_buf_def demo_pending_def pending_defs
      next_power_of_two_def next_power_of_two_from.simps)

theorem poll_delivers_batch_witness:
  "\<exists>c left buf'. poll_deliver [demo_pending] False 4096 demo_buf = (Ok ([c], left), buf') \<and>
     kc_req_id c = 7 \<and> read_payload buf' c = [10, 20, 30]"
proof -
  from poll_delivers_batch [OF _ demo_fits, of False HandleTable_new] obtain cs left buf' where
    "poll_deliver [demo_pending] False 4096 demo_buf = (Ok (cs, left), buf')"
    "list_all2 (delivered buf') [demo_pending] cs" by auto
  then show ?thesis
    by (auto simp: list_all2_Cons1 delivered_def demo_pending_def pending_defs)
qed

text \<open>C29: An undelivered creation leaks nothing. If a task inserted a client or a development
  server and its completion is then dropped (a cancelled request, a closed queue, a queue dropped
  undrained), the drop removes exactly that entry and every other handle resolves as before the
  insertion; once a poll has transferred the completion, dropping it touches nothing.\<close>

theorem undelivered_creation_released:
  assumes "wf_table t" and "has_room t" and "insert_into t e own = (Ok h, t')"
    and "status p = KT_OK" and "aux0 p = h"
    and "(kind p = ClientConnected \<and> Entry_kind e = KIND_CLIENT) \<or>
         (kind p = EphemeralStarted \<and> Entry_kind e = KIND_EPHEMERAL)"
  shows "\<exists>t''. Pending_drop p t' = (Some e, t'') \<and> lookup_handle t'' = lookup_handle t \<and> wf_table t'' \<and>
           Pending_drop (p\<lparr>aux0 := 0\<rparr>) t' = (None, t')"
proof -
  from insert_into_spec [OF assms(1,2), of e own] assms(3)
  have h: "h \<noteq> 0" "handle_kind h = Entry_kind e" by auto
  from ht.ins_del_restores [OF assms(1-3)] obtain t'' where
    t'': "remove_of_kind t' h (Entry_kind e) = (Ok e, t'')" "lookup_handle t'' = lookup_handle t" "wf_table t''"
    using h(2) by auto
  have "Pending_drop p t' = (Some e, t'')"
    using assms(4-6) h(1) t''(1) by (auto simp: Pending_drop_def)
  moreover have "Pending_drop (p\<lparr>aux0 := 0\<rparr>) t' = (None, t')" by (simp add: Pending_drop_def)
  ultimately show ?thesis using t'' by blast
qed

theorem undelivered_creation_released_witness:
  "\<exists>h t''. insert_into HandleTable_new (Client 5) 0 = (Ok h, t'') \<and>
     (\<exists>t3. Pending_drop (Pending_aux0 h (Pending_kind ClientConnected (Pending_ack 1))) t'' =
         (Some (Client 5), t3) \<and> lookup_handle t3 = lookup_handle HandleTable_new)"
proof -
  have wf: "wf_table HandleTable_new" "has_room HandleTable_new"
    using table_ok_new by (simp_all add: table_ok_def has_room_def HandleTable_new_def)
  from ht.ins_law [OF this, of "Client 5" 0] obtain h t'' where
    ins: "insert_into HandleTable_new (Client 5) 0 = (Ok h, t'')" by auto
  from undelivered_creation_released [OF wf ins,
      of "Pending_aux0 h (Pending_kind ClientConnected (Pending_ack 1))"] ins
  show ?thesis by (auto simp: pending_defs kind_defs)
qed

text \<open>
  A concrete run: thread 1 polls poller 0 without a timeout and parks, a producer pushes
  \<open>demo_pending\<close>, which releases it, and the poll delivers it.
\<close>

definition demo_world :: queue_world where
  "demo_world = \<lparr>qstate = Queue_new, in_poll = (\<lambda>_. False), slab = (\<lambda>_. demo_buf), calls = Map.empty,
     accepted = [], dropped = [], taken = [], returned = [], handed = (\<lambda>_. ([], []))\<rparr>"

definition demo_call :: "poll_pc \<Rightarrow> poll_call" where
  "demo_call at = \<lparr>pc_poller = 0, pc_cap = 8, pc_timeout = - 1, pc_at = at\<rparr>"

definition demo_parked :: queue_world where
  "demo_parked = demo_world\<lparr>in_poll := (\<lambda>_. False)(0 := True), calls := [1 \<mapsto> demo_call Parked]\<rparr>"

definition demo_copying :: queue_world where
  "demo_copying = demo_parked\<lparr>calls := [1 \<mapsto> demo_call (Copying [demo_pending] False)],
     accepted := [demo_pending], taken := [demo_pending]\<rparr>"

lemmas demo_defs = demo_world_def demo_call_def demo_parked_def demo_copying_def Queue_new_def

lemma demo_parked_run: "runs queue_init queue_step demo_parked"
proof -
  have 0: "runs queue_init queue_step demo_world"
    by (rule runs_init) (simp add: queue_init_def demo_defs demo_buf_def)
  have 1: "queue_step demo_world (demo_world\<lparr>in_poll := (\<lambda>_. False)(0 := True), calls := [1 \<mapsto> demo_call Testing]\<rparr>)"
    using step_enter [of demo_world 1 8 8 0 True "- 1"] by (simp add: demo_defs poll_enter_def)
  have 2: "queue_step (demo_world\<lparr>in_poll := (\<lambda>_. False)(0 := True), calls := [1 \<mapsto> demo_call Testing]\<rparr>) demo_parked"
    using step_park [of "demo_world\<lparr>in_poll := (\<lambda>_. False)(0 := True), calls := [1 \<mapsto> demo_call Testing]\<rparr>"
        1 "demo_call Testing" Queue_new] by (simp add: demo_defs poll_check_def)
  show ?thesis by (rule runs_step [OF runs_step [OF 0 1] 2])
qed

lemma demo_copying_run: "runs queue_init queue_step demo_copying"
proof -
  let ?w = "demo_parked\<lparr>qstate := Queue_new\<lparr>queue := [demo_pending]\<rparr>, calls := [1 \<mapsto> demo_call Testing],
    accepted := [demo_pending]\<rparr>"
  have n: "notify_all (calls demo_parked) = [1 \<mapsto> demo_call Testing]"
    by (simp add: fun_eq_iff notify_all_def notify_call_def demo_defs)
  have 1: "queue_step demo_parked ?w"
    using step_push [of demo_parked demo_pending "Queue_new\<lparr>queue := [demo_pending]\<rparr>" None] n
    by (simp add: demo_defs Sender_push_def)
  have 2: "queue_step ?w demo_copying"
    using step_leave [of ?w 1 "demo_call Testing" "Queue_new\<lparr>queue := [demo_pending]\<rparr>" "[demo_pending]" False Queue_new]
    by (simp add: demo_defs poll_check_def poll_drain_def)
  show ?thesis by (rule runs_step [OF runs_step [OF demo_parked_run 1] 2])
qed

lemma demo_returned_run:
  "\<exists>w cs. runs queue_init queue_step w \<and> accepted w = [demo_pending] \<and> returned w = [demo_pending] \<and>
     queue (qstate w) = [] \<and> calls w = Map.empty \<and> handed w 0 = ([demo_pending], cs)"
proof -
  from poll_deliver_ok [OF _ demo_fits, of False] obtain cs qs buf' where
    d: "poll_deliver [demo_pending] False 4096 demo_buf = (Ok (cs, qs), buf')" by auto
  from poll_deliver_cases [OF d] demo_fits have "length (bytes buf') < 2 ^ 64" by auto
  with d have "queue_step demo_copying (demo_copying\<lparr>calls := Map.empty, in_poll := (\<lambda>_. False)(0 := False),
      slab := (\<lambda>_. demo_buf)(0 := buf'), returned := [demo_pending],
      handed := (\<lambda>_. ([], []))(0 := ([demo_pending], cs))\<rparr>)"
    using step_deliver [of demo_copying 1 "demo_call (Copying [demo_pending] False)" "[demo_pending]" False 4096 cs qs buf']
    by (simp add: demo_defs)
  from runs_step [OF demo_copying_run this] show ?thesis
    by (intro exI conjI, assumption) (simp_all add: demo_defs)
qed

text \<open>C21: No completion is lost, duplicated or reordered by the queue, in any interleaving of
  producers, polls, wakes and closes: what was accepted is what polls took, in order, followed by
  what is still queued; what was taken is what finished polls returned plus what running polls
  are copying; and a completion is dropped only when the queue was closed before its push.\<close>

theorem queue_exactly_once:
  assumes "runs queue_init queue_step w"
  shows "accepted w = taken w @ queue (qstate w) \<and>
     mset (taken w) = mset (returned w) + in_copy (calls w) \<and>
     (dropped w \<noteq> [] \<longrightarrow> closed (qstate w))"
  using qw.runs_inv [OF assms]
  by (auto simp: queue_inv_def fifo_def accounted_def drop_only_closed_def)

theorem queue_exactly_once_witness:
  "\<exists>w. runs queue_init queue_step w \<and> calls w = Map.empty \<and> queue (qstate w) = [] \<and>
     accepted w = [demo_pending] \<and> taken w = [demo_pending] \<and> mset (returned w) = {#demo_pending#}"
proof -
  from demo_returned_run obtain w where
    w: "runs queue_init queue_step w" "accepted w = [demo_pending]" "calls w = Map.empty" "queue (qstate w) = []"
    by auto
  from queue_exactly_once [OF w(1)] w(2,4)
  have tk: "taken w = [demo_pending]" by simp
  moreover have "mset (returned w) = mset (taken w)"
    using queue_exactly_once [OF w(1)] w(3) by (simp add: in_copy_def)
  ultimately show ?thesis using w by (intro exI [of _ w]) simp
qed

text \<open>C22: No wakeup is lost. In every reachable state a poll that is parked on the condition
  variable has nothing to do: the queue is empty, it is not closed and no wake is pending. So no
  interleaving of a push, a wake or a close with the poller's test leaves it waiting.\<close>

theorem no_parked_poll_with_work:
  assumes "runs queue_init queue_step w" and "calls w t = Some c" and "pc_at c = Parked"
  shows "queue (qstate w) = [] \<and> \<not> closed (qstate w) \<and> wakes (qstate w) = 0"
  using qw.runs_inv [OF assms(1)] assms(2,3) by (auto simp: queue_inv_def no_lost_wakeup_def)

theorem no_parked_poll_with_work_witness:
  "runs queue_init queue_step demo_parked \<and> calls demo_parked 1 = Some (demo_call Parked) \<and>
   queue (qstate demo_parked) = []"
  using no_parked_poll_with_work [OF demo_parked_run, of 1 "demo_call Parked"] demo_parked_run
  by (simp add: demo_defs)

text \<open>C23: Payload memory belongs to the poller until its next poll. At most one thread is inside a
  given poller, and \<open>in_poll\<close> says which pollers are in use; and in every reachable state every
  poller's last batch still reads back, byte for byte, through the pointers it handed out, however
  other pollers, producers and rejected calls interleave.\<close>

theorem slab_stable_until_next_poll:
  assumes "runs queue_init queue_step w"
  shows "list_all2 (delivered (slab w i)) (fst (handed w i)) (snd (handed w i)) \<and>
     (in_poll w i \<longleftrightarrow> (\<exists>t. polling (calls w) t = Some i)) \<and>
     (polling (calls w) t = Some i \<longrightarrow> polling (calls w) t' = Some i \<longrightarrow> t = t')"
  using qw.runs_inv [OF assms]
  unfolding queue_inv_def batches_intact_def one_poll_each_def by blast

theorem slab_stable_until_next_poll_witness:
  "\<exists>w c. runs queue_init queue_step w \<and> handed w 0 = ([demo_pending], [c]) \<and> \<not> in_poll w 0 \<and>
     read_payload (slab w 0) c = [10, 20, 30]"
proof -
  from demo_returned_run obtain w cs where
    w: "runs queue_init queue_step w" "calls w = Map.empty" "handed w 0 = ([demo_pending], cs)"
    by auto
  from slab_stable_until_next_poll [OF w(1), of 0] w obtain c where
    "cs = [c]" "delivered (slab w 0) demo_pending c" "\<not> in_poll w 0"
    by (auto simp: list_all2_Cons1 polling_def)
  with w show ?thesis by (auto simp: delivered_def demo_pending_def pending_defs)
qed

lemma BatchBuf_reserve_grows:
  "length (bytes buf) \<le> length (bytes (BatchBuf_reserve need nb (BatchBuf_reset buf)))"
  by (simp add: BatchBuf_reserve_def BatchBuf_reset_def Let_def)

lemma deliver_possible:
  assumes "calls w t = Some c" and "pc_at c = Copying ps b"
    and "length (bytes (BatchBuf_reserve (batch_size ps) nb (BatchBuf_reset (slab w (pc_poller c))))) < 2 ^ 64"
  shows "\<exists>w'. queue_step w w' \<and> calls w' t = None \<and> qstate w' = qstate w"
proof -
  obtain r buf' where d: "poll_deliver ps b nb (slab w (pc_poller c)) = (r, buf')" by fastforce
  from poll_deliver_cases [OF d] consider cs qs where "r = Ok (cs, qs)" "length (bytes buf') < 2 ^ 64"
    | e where "r = Err e"
    using assms(3) BatchBuf_reserve_grows [of "slab w (pc_poller c)" "batch_size ps" nb]
    by (auto split: if_splits)
  then show ?thesis
  proof cases
    case 1
    show ?thesis
      by (rule exI, rule conjI, rule step_deliver [OF assms(1,2) d [unfolded 1(1)] 1(2)]) simp
  next
    case 2
    show ?thesis
      by (rule exI, rule conjI, rule step_shut_down [OF assms(1,2) d [unfolded 2]]) simp
  qed
qed

text \<open>A poll with something to do returns. Whenever completions are queued, the queue is
  closed or a wake is pending, a thread that is past the entry checks and has not drained yet
  needs only its own next steps to finish its call: it is not parked, it leaves the wait loop at
  its next test, and the delivery succeeds. With the queue closed and empty, what it then drains
  is the empty batch of a closed queue, for which the call answers \<open>Shutdown\<close>.\<close>

theorem poll_with_work_returns:
  assumes "runs queue_init queue_step w" and "calls w t = Some c" and "pc_at c = Testing \<or> pc_at c = Parked"
    and "queue (qstate w) \<noteq> [] \<or> closed (qstate w) \<or> 0 < wakes (qstate w)"
    and "length (bytes (BatchBuf_reserve (batch_size (take (unat (pc_cap c)) (queue (qstate w)))) nb
           (BatchBuf_reset (slab w (pc_poller c))))) < 2 ^ 64"
  shows "\<exists>w1 w2 ps. queue_step w w1 \<and> queue_step w1 w2 \<and> calls w2 t = None \<and>
      calls w1 t = Some (c\<lparr>pc_at := Copying ps (closed (qstate w))\<rparr>) \<and>
      ps = take (unat (pc_cap c)) (queue (qstate w)) \<and>
      (queue (qstate w) = [] \<and> closed (qstate w) \<longrightarrow>
        fst (poll_deliver ps (closed (qstate w)) nb (slab w (pc_poller c))) = Err Shutdown)"
proof -
  have at: "pc_at c = Testing"
    using qw.runs_inv [OF assms(1)] assms(2-4) unfolding queue_inv_def no_lost_wakeup_def by fastforce
  from assms(4) have "fst (poll_check (qstate w) (pc_timeout c)) = Leave" by (auto simp: poll_check_def)
  then obtain s where sl: "poll_check (qstate w) (pc_timeout c) = (Leave, s)" by (metis prod.collapse)
  note s = sl poll_check_Leave [OF sl, THEN conjunct1] poll_check_Leave [OF sl, THEN conjunct2, THEN conjunct1]
  let ?ps = "take (unat (pc_cap c)) (queue (qstate w))"
  have ps: "take (min (unat (pc_cap c)) (length (queue s))) (queue s) = ?ps"
    using s(2) by (auto simp: min_def)
  then obtain s' where dr: "poll_drain s (pc_cap c) = ((?ps, closed (qstate w)), s')"
    using s(3) by (auto simp: poll_drain_def Let_def)
  let ?c = "c\<lparr>pc_at := Copying ?ps (closed (qstate w))\<rparr>"
  let ?w = "w\<lparr>qstate := s', taken := taken w @ ?ps, calls := (calls w)(t \<mapsto> ?c)\<rparr>"
  have 1: "queue_step w ?w" by (rule step_leave [OF assms(2) at s(1) dr])
  obtain w2 where 2: "queue_step ?w w2" "calls w2 t = None"
    using deliver_possible [of ?w t ?c ?ps "closed (qstate w)" nb] assms(5) by auto
  from 1 2 show ?thesis by (intro exI [of _ ?w] exI [of _ w2] exI [of _ ?ps]) (simp add: poll_deliver_def)
qed

definition demo_closed :: queue_world where
  "demo_closed = demo_parked\<lparr>qstate := Queue_close Queue_new, calls := [1 \<mapsto> demo_call Testing]\<rparr>"

lemma demo_closed_run: "runs queue_init queue_step demo_closed"
proof -
  have "notify_all (calls demo_parked) = [1 \<mapsto> demo_call Testing]"
    by (simp add: fun_eq_iff notify_all_def notify_call_def demo_defs)
  then have "queue_step demo_parked demo_closed"
    using step_close [of demo_parked] by (simp add: demo_closed_def demo_defs)
  then show ?thesis by (rule runs_step [OF demo_parked_run])
qed

theorem poll_with_work_returns_witness:
  "\<exists>w1 w2. queue_step demo_closed w1 \<and> queue_step w1 w2 \<and> calls w2 1 = None \<and>
     fst (poll_deliver [] True 0 demo_buf) = Err Shutdown"
  using poll_with_work_returns [OF demo_closed_run, of 1 "demo_call Testing" 0]
  by (auto simp: demo_closed_def demo_defs Queue_close_def demo_buf_def BatchBuf_reserve_def BatchBuf_reset_def)

end
