(* ===== verification/Kt_Runtime.thy ===== *)
theory Kt_Runtime
  imports Kt_Queue Kt_Panic
begin

text \<open>
  The pending-request table and the life of a request (\<^verbatim>\<open>runtime.rs\<close>).

  \<open>RuntimeEntry\<close> holds what the methods of \<^verbatim>\<open>RuntimeEntry\<close> share: the completion queue, the map of
  pending requests, the closed flag, the cancelled tokens and the task tracker. \<open>register\<close>,
  \<open>retire\<close>, \<open>cancel\<close> and the three parts of \<open>drain_pending_for_shutdown\<close> are functions on it; the
  tracked future of \<^verbatim>\<open>spawn_request\<close> is cut into the phases between its lock acquisitions and its
  suspension point. \<open>runtime_step\<close> interleaves any number of requests with cancellations, polls,
  pushed events and \<open>free_runtime\<close>.

  The map's mutex is held for the whole of a drain, so \<open>draining\<close> is \<open>Some\<close> exactly while it is
  held there; every other critical section on the map is one step and needs it free. A token is
  identified with the task it was made for.
\<close>

section \<open>The entry and its methods\<close>

text \<open>
  Where \<^verbatim>\<open>spawn_request\<close> and its future are. \<open>Reserved\<close>: the tracker reservation is taken and
  \<^verbatim>\<open>register\<close> not called yet. \<open>Registered\<close>: admitted. \<open>Tracked\<close>: the future exists with its own
  tracker token beside the reservation. \<open>Spawned\<close>: the reservation is dropped and the future runs.
  \<open>Resolved\<close>: the select is over and the result waits for the lock. \<open>Finished\<close>: nothing is left.
\<close>

datatype phase =
    Reserved
  | Registered
  | Tracked
  | Spawned
  | Resolved Pending
  | Finished

record RuntimeEntry =
  rqueue :: QueueState
  pending :: "u64 \<rightharpoonup> nat"
  rclosed :: bool
  cancelled :: "nat set"
  draining :: "(u64 \<times> nat) list option"
  tasks :: "nat \<rightharpoonup> u64 \<times> phase"
  tracker :: nat
  tracker_closed :: bool
  rfreed :: bool
  admitted :: "u64 list"
  answered :: "Pending list"
  events :: "Pending list"
  discarded :: "Pending list"
  polled :: "Pending list"

text \<open>\<^verbatim>\<open>RuntimeEntry\<close> as \<^verbatim>\<open>new_runtime\<close> builds it, with no history yet.\<close>

definition RuntimeEntry_new :: RuntimeEntry where
  "RuntimeEntry_new = \<lparr>rqueue = Queue_new, pending = Map.empty, rclosed = False, cancelled = {},
     draining = None, tasks = Map.empty, tracker = 0, tracker_closed = False, rfreed = False,
     admitted = [], answered = [], events = [], discarded = [], polled = []\<rparr>"

definition register :: "RuntimeEntry \<Rightarrow> u64 \<Rightarrow> nat \<Rightarrow> nat KtResult \<times> RuntimeEntry" where
  "register s r token =
    (if rclosed s then (Err Shutdown, s)
     else if pending s r \<noteq> None then (Err (InvalidArgument (''duplicate req_id '' @ decimal (unat r))), s)
     else (Ok token, s\<lparr>pending := (pending s)(r \<mapsto> token)\<rparr>))"

definition retire :: "RuntimeEntry \<Rightarrow> u64 \<Rightarrow> bool \<times> RuntimeEntry" where
  "retire s r = (pending s r \<noteq> None, s\<lparr>pending := (pending s)(r := None)\<rparr>)"

definition cancel :: "RuntimeEntry \<Rightarrow> u64 \<Rightarrow> RuntimeEntry" where
  "cancel s r = (case pending s r of
     Some token \<Rightarrow> s\<lparr>cancelled := insert token (cancelled s)\<rparr>
   | None \<Rightarrow> s)"

text \<open>
  Answering a request: the push into the queue. Whether the queue takes it is recorded by
  \<open>answered\<close> or \<open>discarded\<close>.
\<close>

definition answer :: "Pending \<Rightarrow> RuntimeEntry \<Rightarrow> RuntimeEntry" where
  "answer p s = (case Sender_push (rqueue s) p of
     (q, None) \<Rightarrow> s\<lparr>rqueue := q, answered := answered s @ [p]\<rparr>
   | (q, Some d) \<Rightarrow> s\<lparr>rqueue := q, discarded := discarded s @ [d]\<rparr>)"

text \<open>
  \<^verbatim>\<open>drain_pending_for_shutdown\<close>: taking the lock and setting the flag, one turn of the loop over
  \<^verbatim>\<open>pending.drain()\<close>, and closing the queue before the lock is released. The order in which the
  hash map yields its entries is the list \<open>ds\<close>.
\<close>

definition shutdown_answer :: "u64 \<Rightarrow> Pending" where
  "shutdown_answer r = Pending_error r KT_ERR_SHUTDOWN ''runtime is shutting down''"

definition drain_begin :: "(u64 \<times> nat) list \<Rightarrow> RuntimeEntry \<Rightarrow> RuntimeEntry" where
  "drain_begin ds s = s\<lparr>rclosed := True, pending := Map.empty, draining := Some ds\<rparr>"

definition drain_one :: "u64 \<times> nat \<Rightarrow> RuntimeEntry \<Rightarrow> RuntimeEntry" where
  "drain_one d s = answer (shutdown_answer (fst d)) (s\<lparr>cancelled := insert (snd d) (cancelled s)\<rparr>)"

definition drain_end :: "RuntimeEntry \<Rightarrow> RuntimeEntry" where
  "drain_end s = s\<lparr>rqueue := Queue_close (rqueue s), draining := None\<rparr>"

definition drain_pending_for_shutdown :: "(u64 \<times> nat) list \<Rightarrow> RuntimeEntry \<Rightarrow> RuntimeEntry" where
  "drain_pending_for_shutdown ds s = drain_end (fold drain_one ds (drain_begin ds s))"

text \<open>The entries a drain of the map yields, in some order.\<close>

definition drain_order :: "(u64 \<rightharpoonup> nat) \<Rightarrow> (u64 \<times> nat) list \<Rightarrow> bool" where
  "drain_order m ds \<longleftrightarrow> distinct (map fst ds) \<and> map_of ds = m"

definition PUSHED :: u64 where "PUSHED = 0"

definition tokens :: "phase \<Rightarrow> nat" where
  "tokens ph = (case ph of Tracked \<Rightarrow> 2 | Finished \<Rightarrow> 0 | _ \<Rightarrow> 1)"

text \<open>A task moves to its next phase, taking or dropping tracker tokens as the code does there.\<close>

definition set_phase :: "nat \<Rightarrow> u64 \<Rightarrow> phase \<Rightarrow> phase \<Rightarrow> RuntimeEntry \<Rightarrow> RuntimeEntry" where
  "set_phase t r old new s =
    s\<lparr>tasks := (tasks s)(t \<mapsto> (r, new)), tracker := tracker s + tokens new - tokens old\<rparr>"

text \<open>The end of the tracked future: retire under the lock, push only if this was the first.\<close>

definition finish_request :: "u64 \<Rightarrow> Pending \<Rightarrow> RuntimeEntry \<Rightarrow> RuntimeEntry" where
  "finish_request r p s =
    (case retire s r of
       (True, s') \<Rightarrow> answer p s'
     | (False, s') \<Rightarrow> s'\<lparr>discarded := discarded s' @ [p]\<rparr>)"

definition cancelled_result :: "u64 \<Rightarrow> Pending" where
  "cancelled_result r = Pending_error r KT_ERR_CANCELLED ''cancelled''"

definition panic_result :: "u64 \<Rightarrow> panic_payload \<Rightarrow> Pending" where
  "panic_result r x = Pending_error r KT_ERR_PANIC (''panic: '' @ panic_message x)"

section \<open>Requests in any interleaving\<close>

text \<open>
  What a request's own task does without waiting for its operation: the straight-line code of
  \<^verbatim>\<open>spawn_request\<close>, the cancelled branch of the select, which is polled first (\<^verbatim>\<open>biased\<close>), and the
  locked section at the end of the future.
\<close>

inductive task_progress :: "RuntimeEntry \<Rightarrow> RuntimeEntry \<Rightarrow> bool" where
  task_register:
    "tasks s t = Some (r, Reserved) \<Longrightarrow> draining s = None \<Longrightarrow> register s r t = (Ok token, s') \<Longrightarrow>
     task_progress s (set_phase t r Reserved Registered (s'\<lparr>admitted := admitted s' @ [r]\<rparr>))"
| task_rejected:
    "tasks s t = Some (r, Reserved) \<Longrightarrow> draining s = None \<Longrightarrow> register s r t = (Err e, s') \<Longrightarrow>
     task_progress s (set_phase t r Reserved Finished s')"
| task_track:
    "tasks s t = Some (r, Registered) \<Longrightarrow> task_progress s (set_phase t r Registered Tracked s)"
| task_spawn:
    "tasks s t = Some (r, Tracked) \<Longrightarrow> task_progress s (set_phase t r Tracked Spawned s)"
| task_cancelled:
    "tasks s t = Some (r, Spawned) \<Longrightarrow> t \<in> cancelled s \<Longrightarrow>
     task_progress s (set_phase t r Spawned (Resolved (cancelled_result r)) s)"
| task_finish:
    "tasks s t = Some (r, Resolved p) \<Longrightarrow> draining s = None \<Longrightarrow>
     task_progress s (set_phase t r (Resolved p) Finished (finish_request r p s))"

text \<open>
  Everything that can happen to a runtime. An operation that is not cancelled may return a
  completion for its request or panic; \<open>step_event\<close> is a worker's pushed event; \<open>step_poll_check\<close>
  and \<open>step_poll\<close> are the test and the drain of some poller, \<open>step_wake\<close> is a wake.
\<close>

inductive runtime_step :: "RuntimeEntry \<Rightarrow> RuntimeEntry \<Rightarrow> bool" where
  step_spawn_request:
    "tasks s t = None \<Longrightarrow> runtime_step s (s\<lparr>tasks := (tasks s)(t \<mapsto> (r, Reserved)), tracker := tracker s + 1\<rparr>)"
| step_task: "task_progress s s' \<Longrightarrow> runtime_step s s'"
| step_op_returns:
    "tasks s t = Some (r, Spawned) \<Longrightarrow> t \<notin> cancelled s \<Longrightarrow> req_id p = r \<Longrightarrow>
     runtime_step s (set_phase t r Spawned (Resolved p) s)"
| step_op_panics:
    "tasks s t = Some (r, Spawned) \<Longrightarrow> t \<notin> cancelled s \<Longrightarrow>
     runtime_step s (set_phase t r Spawned (Resolved (panic_result r x)) s)"
| step_cancel: "draining s = None \<Longrightarrow> runtime_step s (cancel s r)"
| step_event:
    "req_id p = PUSHED \<Longrightarrow> Sender_push (rqueue s) p = (q, d) \<Longrightarrow>
     runtime_step s (case d of
         None \<Rightarrow> s\<lparr>rqueue := q, events := events s @ [p]\<rparr>
       | Some x \<Rightarrow> s\<lparr>rqueue := q, discarded := discarded s @ [x]\<rparr>)"
| step_poll:
    "poll_drain (rqueue s) cap = ((ps, b), q) \<Longrightarrow>
     runtime_step s (s\<lparr>rqueue := q, polled := polled s @ ps\<rparr>)"
| step_wake: "runtime_step s (s\<lparr>rqueue := PollerEntry_wake (rqueue s)\<rparr>)"
| step_poll_check:
    "poll_check (rqueue s) timeout_millis = (w, q) \<Longrightarrow> runtime_step s (s\<lparr>rqueue := q\<rparr>)"
| step_drain_begin:
    "draining s = None \<Longrightarrow> \<not> rclosed s \<Longrightarrow> drain_order (pending s) ds \<Longrightarrow> runtime_step s (drain_begin ds s)"
| step_drain_one:
    "draining s = Some (d # ds) \<Longrightarrow> runtime_step s ((drain_one d s)\<lparr>draining := Some ds\<rparr>)"
| step_drain_end: "draining s = Some [] \<Longrightarrow> runtime_step s (drain_end s)"
| step_tracker_close:
    "rclosed s \<Longrightarrow> draining s = None \<Longrightarrow> runtime_step s (s\<lparr>tracker_closed := True\<rparr>)"
| step_free_done:
    "tracker_closed s \<Longrightarrow> tracker s = 0 \<Longrightarrow> runtime_step s (s\<lparr>rfreed := True\<rparr>)"

definition runtime_init :: "RuntimeEntry \<Rightarrow> bool" where
  "runtime_init s \<longleftrightarrow> s = RuntimeEntry_new"

section \<open>Invariants\<close>

definition active :: "phase \<Rightarrow> bool" where
  "active ph \<longleftrightarrow> ph \<noteq> Reserved \<and> ph \<noteq> Finished"

definition waiting :: "phase \<Rightarrow> bool" where
  "waiting ph \<longleftrightarrow> ph = Registered \<or> ph = Tracked \<or> ph = Spawned"

definition to_drain :: "RuntimeEntry \<Rightarrow> (u64 \<times> nat) list" where
  "to_drain s = (case draining s of None \<Rightarrow> [] | Some ds \<Rightarrow> ds)"

text \<open>Admissions and answers balance: what is admitted and not answered is still in the table.\<close>

definition balanced :: "RuntimeEntry \<Rightarrow> bool" where
  "balanced s \<longleftrightarrow> finite (dom (pending s)) \<and>
     mset (admitted s) = image_mset req_id (mset (answered s)) + mset_set (dom (pending s)) +
       mset (map fst (to_drain s))"

text \<open>Every entry of the table belongs to an unfinished task, and until shutdown conversely.\<close>

definition owned :: "RuntimeEntry \<Rightarrow> bool" where
  "owned s \<longleftrightarrow>
     (\<forall>r t. pending s r = Some t \<longrightarrow> (\<exists>ph. tasks s t = Some (r, ph) \<and> active ph)) \<and>
     (\<forall>t r ph. tasks s t = Some (r, ph) \<longrightarrow> active ph \<longrightarrow> \<not> rclosed s \<longrightarrow> pending s r = Some t) \<and>
     (\<forall>t r p. tasks s t = Some (r, Resolved p) \<longrightarrow> req_id p = r)"

definition shut :: "RuntimeEntry \<Rightarrow> bool" where
  "shut s \<longleftrightarrow> (rclosed s \<longrightarrow> pending s = Map.empty) \<and> (draining s \<noteq> None \<longrightarrow> rclosed s) \<and>
     (closed (rqueue s) \<longleftrightarrow> rclosed s \<and> draining s = None) \<and>
     (tracker_closed s \<longrightarrow> rclosed s \<and> draining s = None) \<and> (rfreed s \<longrightarrow> tracker_closed s)"

text \<open>A task that still waits for its operation can be reached: it is pending or cancelled.\<close>

definition reachable_or_cancelled :: "RuntimeEntry \<Rightarrow> bool" where
  "reachable_or_cancelled s \<longleftrightarrow> (\<forall>t r ph. tasks s t = Some (r, ph) \<longrightarrow> waiting ph \<longrightarrow>
     pending s r = Some t \<or> (r, t) \<in> set (to_drain s) \<or> t \<in> cancelled s)"

definition task_tokens :: "(u64 \<times> phase) option \<Rightarrow> nat" where
  "task_tokens x = (case x of None \<Rightarrow> 0 | Some (r, ph) \<Rightarrow> tokens ph)"

definition tracked_all :: "RuntimeEntry \<Rightarrow> bool" where
  "tracked_all s \<longleftrightarrow> finite (dom (tasks s)) \<and> tracker s = dom_sum task_tokens (tasks s)"

definition traffic :: "RuntimeEntry \<Rightarrow> bool" where
  "traffic s \<longleftrightarrow> mset (answered s) + mset (events s) = mset (polled s) + mset (queue (rqueue s))"

definition runtime_inv :: "RuntimeEntry \<Rightarrow> bool" where
  "runtime_inv s \<longleftrightarrow> balanced s \<and> owned s \<and> shut s \<and> reachable_or_cancelled s \<and> tracked_all s \<and> traffic s"

lemmas runtime_op_defs = register_def retire_def cancel_def drain_begin_def drain_one_def
  drain_end_def set_phase_def finish_request_def

lemma answer_open:
  "\<not> closed (rqueue s) \<Longrightarrow>
    answer p s = s\<lparr>rqueue := rqueue s\<lparr>queue := queue (rqueue s) @ [p]\<rparr>, answered := answered s @ [p]\<rparr>"
  by (simp add: answer_def Sender_push_def)

lemma register_Ok:
  "register s r t = (Ok token, s') \<longleftrightarrow>
     \<not> rclosed s \<and> pending s r = None \<and> token = t \<and> s' = s\<lparr>pending := (pending s)(r \<mapsto> t)\<rparr>"
  by (auto simp: register_def split: if_splits)

lemma register_Err:
  "register s r t = (Err e, s') \<Longrightarrow> s' = s"
  by (auto simp: register_def split: if_splits)

lemma task_tokens_simps [simp]: "task_tokens None = 0" "task_tokens (Some (r, ph)) = tokens ph"
  by (simp_all add: task_tokens_def)

lemma tracked_all_set_phase:
  assumes "tracked_all s" and "tasks s t = Some (r, old)"
    and "tasks s' = tasks s" and "tracker s' = tracker s"
  shows "tracked_all (set_phase t r old new s')"
proof -
  from assms(1) have f: "finite (dom (tasks s))" by (simp add: tracked_all_def)
  from dom_sum_upd [where f = task_tokens and k = t and x = "Some (r, new)", OF this] assms
  have "dom_sum task_tokens ((tasks s)(t \<mapsto> (r, new))) + tokens old = tracker s + tokens new"
    by (simp add: tracked_all_def)
  then show ?thesis using f assms(3,4) by (simp add: tracked_all_def set_phase_def)
qed

text \<open>The end of a request on its two branches: it is still in the table, or shutdown took it.\<close>

lemma finish_request_cases:
  assumes "shut s" and "owned s" and "tasks s t = Some (r, Resolved p)"
  shows "(pending s r = Some t \<and> \<not> rclosed s \<and>
      finish_request r p s = s\<lparr>pending := (pending s)(r := None),
        rqueue := rqueue s\<lparr>queue := queue (rqueue s) @ [p]\<rparr>, answered := answered s @ [p]\<rparr>) \<or>
    (pending s = Map.empty \<and> rclosed s \<and>
      finish_request r p s = s\<lparr>discarded := discarded s @ [p]\<rparr>)"
proof (cases "rclosed s")
  case True
  with assms(1) have "pending s = Map.empty" by (simp add: shut_def)
  with True show ?thesis by (simp add: finish_request_def retire_def)
next
  case False
  from assms(2,3) False have "pending s r = Some t" by (auto simp: owned_def active_def)
  moreover have "\<not> closed (rqueue s)" using assms(1) False by (simp add: shut_def)
  ultimately show ?thesis using False by (simp add: finish_request_def retire_def answer_open)
qed

lemma drain_one_eq:
  assumes "shut s" and "draining s = Some (d # ds)"
  shows "(drain_one d s)\<lparr>draining := Some ds\<rparr> =
    s\<lparr>draining := Some ds, cancelled := insert (snd d) (cancelled s),
      rqueue := rqueue s\<lparr>queue := queue (rqueue s) @ [shutdown_answer (fst d)]\<rparr>,
      answered := answered s @ [shutdown_answer (fst d)]\<rparr>"
  using assms by (simp add: drain_one_def answer_open shut_def)

lemma result_req_id [simp]:
  "req_id (shutdown_answer r) = r" "req_id (cancelled_result r) = r" "req_id (panic_result r x) = r"
  by (simp_all add: shutdown_answer_def cancelled_result_def panic_result_def Pending_error_def)

lemma set_phase_simps [simp]:
  "pending (set_phase t r a b s) = pending s" "rclosed (set_phase t r a b s) = rclosed s"
  "draining (set_phase t r a b s) = draining s" "cancelled (set_phase t r a b s) = cancelled s"
  "rqueue (set_phase t r a b s) = rqueue s" "admitted (set_phase t r a b s) = admitted s"
  "answered (set_phase t r a b s) = answered s" "events (set_phase t r a b s) = events s"
  "polled (set_phase t r a b s) = polled s" "tracker_closed (set_phase t r a b s) = tracker_closed s"
  "rfreed (set_phase t r a b s) = rfreed s" "tasks (set_phase t r a b s) = (tasks s)(t \<mapsto> (r, b))"
  "to_drain (set_phase t r a b s) = to_drain s"
  by (simp_all add: set_phase_def to_drain_def)

lemma phase_classes [simp]:
  "active Registered" "active Tracked" "active Spawned" "active (Resolved p)" "\<not> active Reserved"
  "\<not> active Finished" "waiting Registered" "waiting Tracked" "waiting Spawned"
  "\<not> waiting (Resolved p)" "\<not> waiting Reserved" "\<not> waiting Finished"
  by (simp_all add: active_def waiting_def)

lemma balanced_move: "balanced s \<Longrightarrow> balanced (set_phase t r a b s)"
  by (simp add: balanced_def)

lemma shut_move: "shut s \<Longrightarrow> shut (set_phase t r a b s)"
  by (simp add: shut_def)

lemma traffic_move: "traffic s \<Longrightarrow> traffic (set_phase t r a b s)"
  by (simp add: traffic_def)

lemma owned_move:
  assumes "owned s" and "tasks s t = Some (r, a)" and "active a" and "active b"
    and "\<And>p. b = Resolved p \<Longrightarrow> req_id p = r"
  shows "owned (set_phase t r a b s)"
  using assms unfolding owned_def by (auto split: if_splits) fastforce+

lemma reachable_move:
  assumes "reachable_or_cancelled s" and "tasks s t = Some (r, a)" and "waiting a \<or> \<not> waiting b"
  shows "reachable_or_cancelled (set_phase t r a b s)"
  using assms unfolding reachable_or_cancelled_def by (auto split: if_splits)

lemma reachable_mono:
  assumes "reachable_or_cancelled s" and "tasks s' = tasks s"
    and "\<And>r t. pending s r = Some t \<or> (r, t) \<in> set (to_drain s) \<or> t \<in> cancelled s \<Longrightarrow>
      pending s' r = Some t \<or> (r, t) \<in> set (to_drain s') \<or> t \<in> cancelled s'"
  shows "reachable_or_cancelled s'"
  using assms unfolding reachable_or_cancelled_def by metis

lemma runtime_inv_move:
  assumes "runtime_inv s" and "tasks s t = Some (r, a)" and "active a" and "active b"
    and "waiting a \<or> \<not> waiting b" and "\<And>p. b = Resolved p \<Longrightarrow> req_id p = r"
  shows "runtime_inv (set_phase t r a b s)"
  using assms balanced_move shut_move traffic_move owned_move [of s t r a b] reachable_move
    tracked_all_set_phase [of s t r a s b]
  by (simp add: runtime_inv_def)

lemma runtime_inv_register:
  assumes "runtime_inv s" and "tasks s t = Some (r, Reserved)" and "draining s = None"
    and "register s r t = (Ok token, s')"
  shows "runtime_inv (set_phase t r Reserved Registered (s'\<lparr>admitted := admitted s' @ [r]\<rparr>))"
proof -
  from assms(4) have reg: "\<not> rclosed s" "pending s r = None" "s' = s\<lparr>pending := (pending s)(r \<mapsto> t)\<rparr>"
    by (simp_all add: register_Ok)
  have nd: "r \<notin> dom (pending s)" using reg(2) by auto
  note inv = assms(1)[unfolded runtime_inv_def]
  let ?s = "s'\<lparr>admitted := admitted s' @ [r]\<rparr>"
  have "balanced (set_phase t r Reserved Registered ?s)"
    using inv nd assms(3) by (simp add: balanced_def reg(3) to_drain_def)
  moreover have "owned (set_phase t r Reserved Registered ?s)"
    using inv assms(2) reg unfolding owned_def by (auto split: if_splits) fastforce+
  moreover have "shut (set_phase t r Reserved Registered ?s)"
    using inv reg by (auto simp: shut_def)
  moreover have "reachable_or_cancelled (set_phase t r Reserved Registered ?s)"
  proof -
    have "to_drain ?s = to_drain s" by (simp add: to_drain_def reg(3))
    moreover have "pending s ra = Some ta \<Longrightarrow> pending ?s ra = Some ta" for ra ta
      using reg(2,3) by auto
    ultimately show ?thesis
      using inv reg unfolding reachable_or_cancelled_def by (auto split: if_splits) fastforce+
  qed
  moreover have "tracked_all (set_phase t r Reserved Registered ?s)"
    using inv assms(2) reg(3) by (intro tracked_all_set_phase [of s]) simp_all
  moreover have "traffic (set_phase t r Reserved Registered ?s)"
    using inv by (simp add: traffic_def reg(3))
  ultimately show ?thesis by (simp add: runtime_inv_def)
qed

lemma runtime_inv_reject:
  assumes "runtime_inv s" and "tasks s t = Some (r, Reserved)"
  shows "runtime_inv (set_phase t r Reserved Finished s)"
proof -
  note inv = assms(1)[unfolded runtime_inv_def]
  have "owned (set_phase t r Reserved Finished s)"
    using inv assms(2) unfolding owned_def by (auto split: if_splits) fastforce+
  then show ?thesis
    using inv assms(2) balanced_move shut_move traffic_move reachable_move
      tracked_all_set_phase [of s t r Reserved s Finished]
    by (simp add: runtime_inv_def)
qed

text \<open>Retiring the request of task \<open>t\<close> removes that task's entry and no other's.\<close>

lemma owned_retire:
  assumes "owned s" and "tasks s t = Some (r, a)" and "pending s r = Some t" and "\<not> rclosed s"
    and "pending s' = (pending s)(r := None)" and "tasks s' = tasks s" and "rclosed s' = rclosed s"
  shows "owned (set_phase t r a Finished s')"
proof -
  have own: "pending s x = Some u \<Longrightarrow> \<exists>ph. tasks s u = Some (x, ph) \<and> active ph"
    "tasks s u = Some (x, ph) \<Longrightarrow> active ph \<Longrightarrow> pending s x = Some u"
    "tasks s u = Some (x, Resolved p) \<Longrightarrow> req_id p = x" for x u ph p
    using assms(1,4) unfolding owned_def by blast+
  have 1: "\<exists>ph. ((tasks s)(t \<mapsto> (r, Finished))) u = Some (x, ph) \<and> active ph"
    if "((pending s)(r := None)) x = Some u" for x u
    using that own(1) [of x u] assms(2) by (auto split: if_splits)
  have 2: "((pending s)(r := None)) x = Some u"
    if "((tasks s)(t \<mapsto> (r, Finished))) u = Some (x, ph)" "active ph" for x u ph
    using that own(2) [of u x ph] assms(2,3) by (auto split: if_splits)
  show ?thesis
    unfolding owned_def set_phase_simps assms(5-7) using 1 2 own(3) by (auto split: if_splits)
qed

lemma reachable_retire:
  assumes "reachable_or_cancelled s" and "pending s r = Some t"
    and "pending s' = (pending s)(r := None)" and "tasks s' = tasks s"
    and "cancelled s' = cancelled s" and "to_drain s' = to_drain s"
  shows "reachable_or_cancelled (set_phase t r a Finished s')"
  unfolding reachable_or_cancelled_def set_phase_simps assms(3-6)
proof (intro allI impI)
  fix u x ph
  assume "((tasks s)(t \<mapsto> (r, Finished))) u = Some (x, ph)" "waiting ph"
  then have "u \<noteq> t" "tasks s u = Some (x, ph)" by (auto split: if_splits)
  with assms(1) \<open>waiting ph\<close> have "pending s x = Some u \<or> (x, u) \<in> set (to_drain s) \<or> u \<in> cancelled s"
    unfolding reachable_or_cancelled_def by blast
  with \<open>u \<noteq> t\<close> assms(2)
  show "((pending s)(r := None)) x = Some u \<or> (x, u) \<in> set (to_drain s) \<or> u \<in> cancelled s"
    by auto
qed

lemma runtime_inv_finish:
  assumes "runtime_inv s" and "tasks s t = Some (r, Resolved p)" and "draining s = None"
  shows "runtime_inv (set_phase t r (Resolved p) Finished (finish_request r p s))"
proof -
  note inv = assms(1)[unfolded runtime_inv_def]
  have id: "req_id p = r" using inv assms(2) by (auto simp: owned_def)
  let ?f = "finish_request r p s"
  let ?s = "set_phase t r (Resolved p) Finished ?f"
  from finish_request_cases [of s t r p] inv assms(2) consider
    (first) "pending s r = Some t" "\<not> rclosed s" "?f = s\<lparr>pending := (pending s)(r := None),
        rqueue := rqueue s\<lparr>queue := queue (rqueue s) @ [p]\<rparr>, answered := answered s @ [p]\<rparr>"
    | (late) "pending s = Map.empty" "rclosed s" "?f = s\<lparr>discarded := discarded s @ [p]\<rparr>"
    by auto
  then have "balanced ?s \<and> owned ?s \<and> shut ?s \<and> reachable_or_cancelled ?s \<and> traffic ?s"
  proof cases
    case first
    have "finite (dom (pending s))" using inv by (simp add: balanced_def)
    then have "mset_set (dom (pending s)) = add_mset r (mset_set (dom (pending s) - {r}))"
      using first(1) mset_set.remove [of "dom (pending s)" r] by blast
    then have "balanced ?s" using inv id first(3) by (simp add: balanced_def to_drain_def)
    moreover have "owned ?s" using inv assms(2) first by (intro owned_retire) simp_all
    moreover have "shut ?s" using inv first(2,3) by (auto simp: shut_def)
    moreover have "reachable_or_cancelled ?s"
      using inv first assms(2) by (intro reachable_retire [of s]) (simp_all add: to_drain_def)
    moreover have "traffic ?s" using inv first(3) by (simp add: traffic_def)
    ultimately show ?thesis by simp
  next
    case late
    then show ?thesis
      using inv assms(2)
      by (auto simp: balanced_def owned_def shut_def reachable_or_cancelled_def traffic_def to_drain_def
          split: if_splits)
  qed
  moreover have "tasks ?f = tasks s" "tracker ?f = tracker s"
    using finish_request_cases [of s t r p] inv assms(2) by auto
  then have "tracked_all ?s" using inv assms(2) by (intro tracked_all_set_phase [of s]) simp_all
  ultimately show ?thesis by (simp add: runtime_inv_def)
qed

text \<open>Steps that only touch the queue, the cancelled tokens or the flags.\<close>

lemma runtime_inv_spawn:
  assumes "runtime_inv s" and "tasks s t = None"
  shows "runtime_inv (s\<lparr>tasks := (tasks s)(t \<mapsto> (r, Reserved)), tracker := tracker s + 1\<rparr>)"
    (is "runtime_inv ?s")
proof -
  note inv = assms(1)[unfolded runtime_inv_def]
  have f: "finite (dom (tasks s))" using inv by (simp add: tracked_all_def)
  from dom_sum_upd [where f = task_tokens and k = t and x = "Some (r, Reserved)", OF f] inv assms(2)
  have "tracked_all ?s" by (simp add: tracked_all_def tokens_def)
  moreover have "owned ?s"
    using inv assms(2) unfolding owned_def by (auto split: if_splits) fastforce+
  ultimately show ?thesis
    using inv
    by (auto simp: runtime_inv_def balanced_def shut_def reachable_or_cancelled_def traffic_def to_drain_def)
qed

lemma runtime_inv_cancel:
  assumes "runtime_inv s"
  shows "runtime_inv (cancel s r)"
proof -
  have "reachable_or_cancelled (cancel s r)"
    by (rule reachable_mono [of s])
      (use assms in \<open>auto simp: runtime_inv_def cancel_def to_drain_def split: option.splits\<close>)
  with assms show ?thesis
    by (auto simp: runtime_inv_def cancel_def balanced_def owned_def shut_def tracked_all_def traffic_def
        to_drain_def split: option.splits)
qed

lemma runtime_inv_event:
  assumes "runtime_inv s" and "Sender_push (rqueue s) p = (q, d)"
  shows "runtime_inv (case d of
      None \<Rightarrow> s\<lparr>rqueue := q, events := events s @ [p]\<rparr>
    | Some x \<Rightarrow> s\<lparr>rqueue := q, discarded := discarded s @ [x]\<rparr>)"
  using assms
  by (auto simp: runtime_inv_def Sender_push_def balanced_def owned_def shut_def
      reachable_or_cancelled_def tracked_all_def traffic_def to_drain_def split: if_splits)

lemma runtime_inv_poll:
  assumes "runtime_inv s" and "poll_drain (rqueue s) cap = ((ps, b), q)"
  shows "runtime_inv (s\<lparr>rqueue := q, polled := polled s @ ps\<rparr>)"
proof -
  from poll_drain_eq [OF assms(2)] have "queue (rqueue s) = ps @ queue q" "closed q = closed (rqueue s)"
    by simp_all
  with assms(1) show ?thesis
    by (simp add: runtime_inv_def balanced_def owned_def shut_def reachable_or_cancelled_def
        tracked_all_def traffic_def to_drain_def)
qed

text \<open>Only the contents and the closed flag of the queue matter; waking and testing keep both.\<close>

lemma runtime_inv_wakes:
  assumes "runtime_inv s" and "queue q = queue (rqueue s)" and "closed q = closed (rqueue s)"
  shows "runtime_inv (s\<lparr>rqueue := q\<rparr>)"
  using assms
  by (simp add: runtime_inv_def balanced_def owned_def shut_def reachable_or_cancelled_def
      tracked_all_def traffic_def to_drain_def)

lemma drain_order_mset:
  assumes "drain_order m ds"
  shows "mset (map fst ds) = mset_set (dom m)"
proof -
  from assms have "distinct (map fst ds)" "dom m = set (map fst ds)"
    unfolding drain_order_def by (simp, metis dom_map_of_conv_image_fst list.set_map)
  then show ?thesis using mset_set_set [of "map fst ds"] by simp
qed

lemma runtime_inv_drain_begin:
  assumes "runtime_inv s" and "draining s = None" and "\<not> rclosed s" and "drain_order (pending s) ds"
  shows "runtime_inv (drain_begin ds s)"
proof -
  note inv = assms(1)[unfolded runtime_inv_def]
  have "balanced (drain_begin ds s)"
    using inv assms(2) drain_order_mset [OF assms(4)]
    by (simp add: balanced_def drain_begin_def to_drain_def)
  moreover have "reachable_or_cancelled (drain_begin ds s)"
  proof (rule reachable_mono [of s])
    fix r t
    assume "pending s r = Some t \<or> (r, t) \<in> set (to_drain s) \<or> t \<in> cancelled s"
    moreover have "pending s r = Some t \<Longrightarrow> (r, t) \<in> set ds"
      using assms(4) unfolding drain_order_def by (metis map_of_SomeD)
    ultimately show "pending (drain_begin ds s) r = Some t \<or> (r, t) \<in> set (to_drain (drain_begin ds s)) \<or>
        t \<in> cancelled (drain_begin ds s)"
      using assms(2) by (auto simp: drain_begin_def to_drain_def)
  qed (use inv in \<open>simp_all add: drain_begin_def\<close>)
  ultimately show ?thesis
    using inv assms(2,3)
    by (auto simp: runtime_inv_def owned_def shut_def tracked_all_def traffic_def drain_begin_def)
qed

lemma runtime_inv_drain_one:
  assumes "runtime_inv s" and "draining s = Some (d # ds)"
  shows "runtime_inv ((drain_one d s)\<lparr>draining := Some ds\<rparr>)"
proof -
  note inv = assms(1)[unfolded runtime_inv_def]
  from inv have "shut s" by simp
  note eq = drain_one_eq [OF this assms(2)]
  have "reachable_or_cancelled ((drain_one d s)\<lparr>draining := Some ds\<rparr>)"
    unfolding eq by (rule reachable_mono [of s]) (use inv assms(2) in \<open>auto simp: to_drain_def\<close>)
  with inv assms(2) show ?thesis
    unfolding eq by (auto simp: runtime_inv_def balanced_def owned_def shut_def tracked_all_def
        traffic_def to_drain_def)
qed

lemma runtime_inv_drain_end:
  assumes "runtime_inv s" and "draining s = Some []"
  shows "runtime_inv (drain_end s)"
proof -
  note inv = assms(1)[unfolded runtime_inv_def]
  have "reachable_or_cancelled (drain_end s)"
    by (rule reachable_mono [of s]) (use inv assms(2) in \<open>auto simp: to_drain_def drain_end_def\<close>)
  with inv assms(2) show ?thesis
    by (auto simp: runtime_inv_def balanced_def owned_def shut_def tracked_all_def traffic_def
        to_drain_def drain_end_def Queue_close_def)
qed

lemma runtime_inv_tracker_close:
  "runtime_inv s \<Longrightarrow> rclosed s \<Longrightarrow> draining s = None \<Longrightarrow> runtime_inv (s\<lparr>tracker_closed := True\<rparr>)"
  by (auto simp: runtime_inv_def balanced_def owned_def shut_def reachable_or_cancelled_def
      tracked_all_def traffic_def to_drain_def)

lemma runtime_inv_free_done:
  "runtime_inv s \<Longrightarrow> tracker_closed s \<Longrightarrow> runtime_inv (s\<lparr>rfreed := True\<rparr>)"
  by (auto simp: runtime_inv_def balanced_def owned_def shut_def reachable_or_cancelled_def
      tracked_all_def traffic_def to_drain_def)

lemma task_progress_inv: "task_progress s s' \<Longrightarrow> runtime_inv s \<Longrightarrow> runtime_inv s'"
  by (induction rule: task_progress.induct)
    (auto intro: runtime_inv_register runtime_inv_finish runtime_inv_reject
      runtime_inv_move [of _ _ _ Registered Tracked] runtime_inv_move [of _ _ _ Tracked Spawned]
      runtime_inv_move [of _ _ _ Spawned "Resolved _"] dest: register_Err)

lemma runtime_step_inv: "runtime_step s s' \<Longrightarrow> runtime_inv s \<Longrightarrow> runtime_inv s'"
proof (induction rule: runtime_step.induct)
  case (step_spawn_request s t r)
  then show ?case by (blast intro: runtime_inv_spawn)
next
  case (step_event p s q d)
  then show ?case by (blast intro: runtime_inv_event)
next
  case (step_wake s)
  then show ?case by (simp add: runtime_inv_wakes PollerEntry_wake_def)
next
  case (step_poll_check s timeout_millis w q)
  then have "queue q = queue (rqueue s)" "closed q = closed (rqueue s)"
    by (auto simp: poll_check_def split: if_splits)
  with step_poll_check.prems show ?case by (rule runtime_inv_wakes)
qed (auto intro: task_progress_inv runtime_inv_cancel runtime_inv_poll runtime_inv_drain_begin
    runtime_inv_drain_one runtime_inv_drain_end runtime_inv_tracker_close runtime_inv_free_done
    runtime_inv_move [of _ _ _ Spawned "Resolved _"])

lemma runtime_init_inv: "runtime_init s \<Longrightarrow> runtime_inv s"
  by (simp add: runtime_init_def RuntimeEntry_new_def runtime_inv_def balanced_def owned_def shut_def
      reachable_or_cancelled_def tracked_all_def traffic_def to_drain_def Queue_new_def)

interpretation rt: invariant_system runtime_init runtime_step runtime_inv
  by unfold_locales (auto intro: runtime_init_inv runtime_step_inv)

section \<open>Shutdown comes to an end\<close>

text \<open>What a task still has to do once the runtime is closed; every own step lowers it.\<close>

fun rank :: "phase \<Rightarrow> nat" where
  "rank Reserved = 1"
| "rank Registered = 4"
| "rank Tracked = 3"
| "rank Spawned = 2"
| "rank (Resolved p) = 1"
| "rank Finished = 0"

definition task_rank :: "(u64 \<times> phase) option \<Rightarrow> nat" where
  "task_rank x = (case x of None \<Rightarrow> 0 | Some (r, ph) \<Rightarrow> rank ph)"

lemma task_rank_simps [simp]: "task_rank None = 0" "task_rank (Some (r, ph)) = rank ph"
  by (simp_all add: task_rank_def)

lemma closed_task_progress:
  assumes "runtime_inv s" and "rclosed s" and "draining s = None"
    and "tasks s t = Some (r, ph)" and "ph \<noteq> Finished"
  shows "\<exists>s' ph'. task_progress s s' \<and> tasks s' = (tasks s)(t \<mapsto> (r, ph')) \<and> rank ph' < rank ph \<and>
    rclosed s' \<and> draining s' = None"
proof (cases ph)
  case Reserved
  have "register s r t = (Err Shutdown, s)" using assms(2) by (simp add: register_def)
  from task_rejected [OF assms(4)[unfolded Reserved] assms(3) this] Reserved assms(2,3)
  show ?thesis by (intro exI [of _ "set_phase t r Reserved Finished s"] exI [of _ Finished]) simp
next
  case Registered
  from task_track [OF assms(4)[unfolded Registered]] Registered assms(2,3)
  show ?thesis by (intro exI [of _ "set_phase t r Registered Tracked s"] exI [of _ Tracked]) simp
next
  case Tracked
  from task_spawn [OF assms(4)[unfolded Tracked]] Tracked assms(2,3)
  show ?thesis by (intro exI [of _ "set_phase t r Tracked Spawned s"] exI [of _ Spawned]) simp
next
  case Spawned
  have "pending s = Map.empty" "to_drain s = []"
    using assms(1-3) by (simp_all add: runtime_inv_def shut_def to_drain_def)
  then have "t \<in> cancelled s"
    using assms(1,4) Spawned by (fastforce simp: runtime_inv_def reachable_or_cancelled_def)
  from task_cancelled [OF assms(4)[unfolded Spawned] this] Spawned assms(2,3)
  show ?thesis
    by (intro exI [of _ "set_phase t r Spawned (Resolved (cancelled_result r)) s"]
        exI [of _ "Resolved (cancelled_result r)"]) simp
next
  case (Resolved p)
  let ?s = "set_phase t r (Resolved p) Finished (finish_request r p s)"
  have "task_progress s ?s" by (rule task_finish [OF assms(4)[unfolded Resolved] assms(3)])
  moreover have "tasks ?s = (tasks s)(t \<mapsto> (r, Finished))" "rclosed ?s" "draining ?s = None"
    using finish_request_cases [of s t r p] assms Resolved by (auto simp: runtime_inv_def)
  ultimately show ?thesis using Resolved by (intro exI [of _ ?s] exI [of _ Finished]) simp
next
  case Finished
  with assms(5) show ?thesis by simp
qed

lemma tracker_zero_iff:
  assumes "runtime_inv s"
  shows "tracker s = 0 \<longleftrightarrow> (\<forall>t r ph. tasks s t = Some (r, ph) \<longrightarrow> ph = Finished)"
proof -
  have "finite (dom (tasks s))" "tracker s = (\<Sum>t \<in> dom (tasks s). task_tokens (tasks s t))"
    using assms by (simp_all add: runtime_inv_def tracked_all_def dom_sum_def)
  moreover have "task_tokens (tasks s t) = 0 \<longleftrightarrow> (\<forall>r ph. tasks s t = Some (r, ph) \<longrightarrow> ph = Finished)" for t
    by (cases "tasks s t") (auto simp: tokens_def split: phase.splits)
  ultimately show ?thesis by (auto simp: dom_def)
qed

lemma shutdown_path:
  assumes "runtime_inv s" and "rclosed s" and "draining s = None"
  shows "\<exists>s'. task_progress\<^sup>*\<^sup>* s s' \<and> tracker s' = 0 \<and> runtime_inv s' \<and> rclosed s' \<and> draining s' = None"
  using assms
proof (induction "dom_sum task_rank (tasks s)" arbitrary: s rule: less_induct)
  case less
  show ?case
  proof (cases "tracker s = 0")
    case True
    with less.prems show ?thesis by blast
  next
    case False
    then obtain t r ph where t: "tasks s t = Some (r, ph)" "ph \<noteq> Finished"
      using tracker_zero_iff [OF less.prems(1)] by auto
    from closed_task_progress [OF less.prems t] obtain s1 ph' where
      s1: "task_progress s s1" "tasks s1 = (tasks s)(t \<mapsto> (r, ph'))" "rank ph' < rank ph"
      "rclosed s1" "draining s1 = None" by blast
    have "finite (dom (tasks s))" using less.prems(1) by (simp add: runtime_inv_def tracked_all_def)
    from dom_sum_upd [where f = task_rank and k = t and x = "Some (r, ph')", OF this] s1(2,3) t(1)
    have "dom_sum task_rank (tasks s1) < dom_sum task_rank (tasks s)" by simp
    from less.hyps [OF this task_progress_inv [OF s1(1) less.prems(1)] s1(4,5)] s1(1)
    show ?thesis by (meson converse_rtranclp_into_rtranclp)
  qed
qed

section \<open>What the runtime guarantees\<close>

text \<open>The drain as one call, on the queue's contract.\<close>

lemma fold_drain_one:
  assumes "\<not> closed (rqueue s)"
  shows "rqueue (fold drain_one ds s) =
      fold (\<lambda>p q. fst (Sender_push q p)) (map (shutdown_answer \<circ> fst) ds) (rqueue s) \<and>
    answered (fold drain_one ds s) = answered s @ map (shutdown_answer \<circ> fst) ds \<and>
    cancelled (fold drain_one ds s) = cancelled s \<union> snd ` set ds \<and>
    pending (fold drain_one ds s) = pending s \<and> rclosed (fold drain_one ds s) = rclosed s"
  using assms
proof (induction ds arbitrary: s)
  case (Cons d ds)
  let ?s = "drain_one d s"
  have eq: "?s = s\<lparr>cancelled := insert (snd d) (cancelled s),
      rqueue := rqueue s\<lparr>queue := queue (rqueue s) @ [shutdown_answer (fst d)]\<rparr>,
      answered := answered s @ [shutdown_answer (fst d)]\<rparr>"
    using Cons.prems by (simp add: drain_one_def answer_open)
  have "\<not> closed (rqueue ?s)" using eq Cons.prems by simp
  from Cons.IH [OF this] show ?case
    by (simp add: eq Sender_push_def Cons.prems insert_commute Un_insert_right Un_insert_left)
qed simp

text \<open>Shutdown answers everything that is pending. In whatever order the table yields its
  entries, \<open>drain_pending_for_shutdown\<close> leaves it empty and closed, cancels every token, appends one
  \<open>KT_ERR_SHUTDOWN\<close> completion per pending request behind what was queued, and closes the queue; a
  later registration is rejected, and a later push is dropped.\<close>

theorem drain_answers_everything:
  assumes "drain_order (pending s) ds" and "\<not> closed (rqueue s)"
  shows "let s' = drain_pending_for_shutdown ds s in
     pending s' = Map.empty \<and> ran (pending s) \<subseteq> cancelled s' \<and>
     queue (rqueue s') = queue (rqueue s) @ map (shutdown_answer \<circ> fst) ds \<and> closed (rqueue s') \<and>
     image_mset req_id (mset (map (shutdown_answer \<circ> fst) ds)) = mset_set (dom (pending s)) \<and>
     fst (register s' r t) = Err Shutdown \<and> Sender_push (rqueue s') p = (rqueue s', Some p)"
proof -
  let ?b = "drain_begin ds s"
  let ?f = "fold drain_one ds ?b"
  have "\<not> closed (rqueue ?b)" using assms(2) by (simp add: drain_begin_def)
  note f = fold_drain_one [OF this, of ds]
  note q = sink.drain_and_close [OF assms(2), of "map (shutdown_answer \<circ> fst) ds"]
  have "ran (pending s) \<subseteq> snd ` set ds"
  proof
    fix x
    assume "x \<in> ran (pending s)"
    then obtain a where "map_of ds a = Some x" using assms(1) by (auto simp: drain_order_def ran_def)
    then show "x \<in> snd ` set ds" by (metis map_of_SomeD snd_conv image_eqI)
  qed
  moreover have "image_mset req_id (mset (map (shutdown_answer \<circ> fst) ds)) = mset_set (dom (pending s))"
    using drain_order_mset [OF assms(1)] by (simp add: image_mset.compositionality comp_def)
  ultimately show ?thesis
    using f q by (auto simp: drain_pending_for_shutdown_def drain_end_def Let_def drain_begin_def
        register_def sink.push_closed)
qed

definition demo_entry :: RuntimeEntry where
  "demo_entry = RuntimeEntry_new\<lparr>pending := [7 \<mapsto> 1, 8 \<mapsto> 2]\<rparr>"

theorem drain_answers_everything_witness:
  "map req_id (queue (rqueue (drain_pending_for_shutdown [(8, 2), (7, 1)] demo_entry))) = [8, 7] \<and>
   fst (register (drain_pending_for_shutdown [(8, 2), (7, 1)] demo_entry) 9 3) = Err Shutdown"
  using drain_answers_everything [of demo_entry "[(8, 2), (7, 1)]" 9 3]
  by (simp add: demo_entry_def RuntimeEntry_new_def Queue_new_def drain_order_def Let_def fun_upd_twist)

text \<open>
  Two concrete runs: request 5 is admitted, runs and answers; or it is admitted and the runtime is
  freed before its future runs.
\<close>

definition demo_admitted :: RuntimeEntry where
  "demo_admitted = RuntimeEntry_new\<lparr>pending := [5 \<mapsto> 1], tasks := [1 \<mapsto> (5, Registered)], tracker := 1,
     admitted := [5]\<rparr>"

definition demo_answered :: RuntimeEntry where
  "demo_answered = demo_admitted\<lparr>pending := Map.empty, tasks := [1 \<mapsto> (5, Finished)], tracker := 0,
     rqueue := Queue_new\<lparr>queue := [Pending_ack 5]\<rparr>, answered := [Pending_ack 5]\<rparr>"

definition demo_drained :: RuntimeEntry where
  "demo_drained = demo_admitted\<lparr>pending := Map.empty, rclosed := True, cancelled := {1},
     rqueue := \<lparr>queue = [shutdown_answer 5], wakes = 0, closed = True\<rparr>, answered := [shutdown_answer 5]\<rparr>"

lemmas demo_runtime_defs = demo_admitted_def demo_answered_def demo_drained_def RuntimeEntry_new_def
  Queue_new_def

lemma demo_admitted_run: "runs runtime_init runtime_step demo_admitted"
proof -
  let ?r = "RuntimeEntry_new\<lparr>tasks := [1 \<mapsto> (5, Reserved)], tracker := 1\<rparr>"
  have 0: "runs runtime_init runtime_step RuntimeEntry_new" by (rule runs_init) (simp add: runtime_init_def)
  have 1: "runtime_step RuntimeEntry_new ?r"
    using step_spawn_request [of RuntimeEntry_new 1 5] by (simp add: RuntimeEntry_new_def)
  have "task_progress ?r demo_admitted"
    using task_register [of ?r 1 5 1 "?r\<lparr>pending := [5 \<mapsto> 1]\<rparr>"]
    by (simp add: demo_runtime_defs register_def set_phase_def tokens_def)
  then show ?thesis by (rule runs_step [OF runs_step [OF 0 1] step_task])
qed

lemma demo_answered_run: "runs runtime_init runtime_step demo_answered"
proof -
  let ?t = "demo_admitted\<lparr>tasks := [1 \<mapsto> (5, Tracked)], tracker := 2\<rparr>"
  let ?s = "demo_admitted\<lparr>tasks := [1 \<mapsto> (5, Spawned)]\<rparr>"
  let ?o = "demo_admitted\<lparr>tasks := [1 \<mapsto> (5, Resolved (Pending_ack 5))]\<rparr>"
  have 1: "runtime_step demo_admitted ?t"
    using step_task [OF task_track [of demo_admitted 1 5]]
    by (simp add: demo_runtime_defs set_phase_def tokens_def numeral_2_eq_2)
  have 2: "runtime_step ?t ?s"
    using step_task [OF task_spawn [of ?t 1 5]] by (simp add: demo_runtime_defs set_phase_def tokens_def numeral_2_eq_2)
  have 3: "runtime_step ?s ?o"
    using step_op_returns [of ?s 1 5 "Pending_ack 5"]
    by (simp add: demo_runtime_defs set_phase_def tokens_def Pending_ack_def)
  have 4: "runtime_step ?o demo_answered"
    using step_task [OF task_finish [of ?o 1 5 "Pending_ack 5"]]
    by (simp add: demo_runtime_defs set_phase_def tokens_def finish_request_def retire_def answer_def
        Sender_push_def)
  show ?thesis
    by (rule runs_step [OF runs_step [OF runs_step [OF runs_step [OF demo_admitted_run 1] 2] 3] 4])
qed

lemma demo_drained_run: "runs runtime_init runtime_step demo_drained"
proof -
  let ?b = "demo_admitted\<lparr>pending := Map.empty, rclosed := True, draining := Some [(5, 1)]\<rparr>"
  let ?o = "demo_drained\<lparr>rqueue := Queue_new\<lparr>queue := [shutdown_answer 5]\<rparr>, draining := Some []\<rparr>"
  have 1: "runtime_step demo_admitted ?b"
    using step_drain_begin [of demo_admitted "[(5, 1)]"]
    by (simp add: demo_runtime_defs drain_begin_def drain_order_def)
  have 2: "runtime_step ?b ?o"
    using step_drain_one [of ?b "(5, 1)" "[]"]
    by (simp add: demo_runtime_defs drain_one_def answer_def Sender_push_def)
  have 3: "runtime_step ?o demo_drained"
    using step_drain_end [of ?o] by (simp add: demo_runtime_defs drain_end_def Queue_close_def)
  show ?thesis by (rule runs_step [OF runs_step [OF runs_step [OF demo_admitted_run 1] 2] 3])
qed

text \<open>C19: Every accepted request is answered exactly once. In every interleaving of requests,
  cancellations, panics, pushed events, polls and shutdown, each admission of a request id is
  matched by one completion with that id, unless it is still in the pending table (or in the hands
  of a running drain), and then by none; and every answer is either in a batch some poll took or
  still queued, beside the pushed events.\<close>

theorem exactly_one_completion:
  assumes "runs runtime_init runtime_step s"
  shows "mset (admitted s) = image_mset req_id (mset (answered s)) + mset_set (dom (pending s)) +
       mset (map fst (to_drain s)) \<and>
     mset (answered s) + mset (events s) = mset (polled s) + mset (queue (rqueue s))"
  using rt.runs_inv [OF assms] by (simp add: runtime_inv_def balanced_def traffic_def)

theorem exactly_one_completion_witness:
  "runs runtime_init runtime_step demo_answered \<and>
   image_mset req_id (mset (answered demo_answered)) = {#5#} \<and>
   mset (polled demo_answered) + mset (queue (rqueue demo_answered)) = {#Pending_ack 5#}"
  using exactly_one_completion [OF demo_answered_run] demo_answered_run
  by (simp add: demo_runtime_defs to_drain_def Pending_ack_def)

text \<open>A closed queue leaves nobody waiting. Once the queue is closed, the pending table is empty
  and the answers are exactly the admissions: no request was lost between its retirement and the
  close, and none was answered twice.\<close>

theorem closed_queue_all_answered:
  assumes "runs runtime_init runtime_step s" and "closed (rqueue s)"
  shows "pending s = Map.empty \<and> mset (admitted s) = image_mset req_id (mset (answered s)) \<and>
     (\<forall>t r ph. tasks s t = Some (r, ph) \<longrightarrow> waiting ph \<longrightarrow> t \<in> cancelled s)"
proof -
  from rt.runs_inv [OF assms(1)] have inv: "balanced s" "shut s" "reachable_or_cancelled s"
    by (simp_all add: runtime_inv_def)
  with assms(2) have "pending s = Map.empty" "to_drain s = []" by (auto simp: shut_def to_drain_def)
  then show ?thesis
    using inv unfolding balanced_def reachable_or_cancelled_def by auto
qed

theorem closed_queue_all_answered_witness:
  "closed (rqueue demo_drained) \<and> 1 \<in> cancelled demo_drained \<and>
   image_mset req_id (mset (answered demo_drained)) = {#5#}"
  using closed_queue_all_answered [OF demo_drained_run] by (simp add: demo_runtime_defs)

text \<open>C20: Freeing a runtime terminates and waits for everything. After the drain, the tasks need
  only their own steps, and no operation's result, to release every tracker token, so the wait of
  \<open>free_runtime\<close> ends; and when it has ended every task has run to its end and every admitted
  request is answered.\<close>

theorem free_runtime_completes:
  assumes "runs runtime_init runtime_step s" and "rclosed s" and "draining s = None"
  shows "\<exists>s'. task_progress\<^sup>*\<^sup>* s s' \<and> tracker s' = 0 \<and>
     (\<forall>t r ph. tasks s' t = Some (r, ph) \<longrightarrow> ph = Finished) \<and>
     mset (admitted s') = image_mset req_id (mset (answered s'))"
proof -
  from shutdown_path [OF rt.runs_inv [OF assms(1)] assms(2,3)] obtain s' where
    s': "task_progress\<^sup>*\<^sup>* s s'" "tracker s' = 0" "runtime_inv s'" "rclosed s'" "draining s' = None"
    by blast
  moreover have "mset (admitted s') = image_mset req_id (mset (answered s'))"
    using s'(3-5) by (simp add: runtime_inv_def balanced_def shut_def to_drain_def)
  moreover note tracker_zero_iff [OF s'(3)]
  ultimately show ?thesis by auto
qed

theorem free_runtime_completes_witness:
  "\<exists>s'. task_progress\<^sup>*\<^sup>* demo_drained s' \<and> tracker s' = 0"
  using free_runtime_completes [OF demo_drained_run] by (auto simp: demo_runtime_defs)

end
