(* ===== verification/Kt_Telemetry.thy ===== *)
theory Kt_Telemetry
  imports Kt_Error
begin

text \<open>
  The buffered meter (\<^verbatim>\<open>telemetry.rs\<close>): instruments that Core registers, a bounded buffer of their
  samples, and the drain that hands both to the JVM.

  Doubles are carried and never computed with, so an \<^verbatim>\<open>f64\<close> is its 64 bits; an \<^verbatim>\<open>i64\<close> is a 64-bit
  word read with \<open>sint\<close>. Attribute values that OpenTelemetry renders with \<^verbatim>\<open>to_string\<close> are
  \<open>OtherValue\<close> with their rendering.
\<close>

section \<open>Attributes\<close>

datatype Value =
    StringValue string
  | I64 u64
  | F64 u64
  | Bool bool
  | OtherValue string

record KeyValue =
  key :: string
  kvalue :: Value

datatype MetricAttributes =
    OTel "KeyValue list"
  | EmptyAttributes
  | OtherAttributes

datatype attribute_value =
    AttrString string
  | AttrInt u64
  | AttrDouble u64
  | AttrBool bool

fun attributes_to_proto :: "MetricAttributes \<Rightarrow> (string \<times> attribute_value option) list" where
  "attributes_to_proto (OTel kvs) =
     map (\<lambda>a. (key a, Some (case kvalue a of
         StringValue v \<Rightarrow> AttrString v
       | I64 v \<Rightarrow> AttrInt v
       | F64 v \<Rightarrow> AttrDouble v
       | Bool v \<Rightarrow> AttrBool v
       | OtherValue v \<Rightarrow> AttrString v))) kvs"
| "attributes_to_proto _ = []"

definition extend_attributes :: "MetricAttributes \<Rightarrow> KeyValue list \<Rightarrow> MetricAttributes" where
  "extend_attributes existing attribs =
    (let kvs = (case existing of OTel kvs \<Rightarrow> kvs | _ \<Rightarrow> [])
     in OTel (foldl (\<lambda>kvs a. filter (\<lambda>e. key e \<noteq> key a) kvs @ [a]) kvs attribs))"

definition new_attributes :: "KeyValue list \<Rightarrow> MetricAttributes" where
  "new_attributes attribs = extend_attributes EmptyAttributes attribs"

section \<open>Instruments and samples\<close>

definition MAX_UPDATES :: nat where "MAX_UPDATES = 65536"

datatype update_value =
    IntValue u64
  | DoubleValue u64

record MetricParameters =
  mp_name :: string
  mp_description :: string
  mp_unit :: string

record MetricDefinition =
  md_id :: u64
  md_name :: string
  md_description :: string
  md_unit :: string
  md_kind :: u32

record Sample =
  sinstrument :: u64
  sattributes :: MetricAttributes
  svalue :: update_value

record MeterState =
  instruments :: "string \<times> u32 \<rightharpoonup> u64"
  definitions :: "MetricDefinition list"
  updates :: "Sample list"
  mdropped :: u64

record Instrument =
  iid :: u64
  iattributes :: MetricAttributes

record MetricUpdate =
  mu_instrument :: u64
  mu_attributes :: "(string \<times> attribute_value option) list"
  mu_value :: "update_value option"

record LogRecord =
  lr_target :: string
  lr_level :: string
  lr_message :: string
  lr_fields_json :: string

record MetricBatch =
  mb_definitions :: "MetricDefinition list"
  mb_updates :: "MetricUpdate list"
  mb_logs :: "LogRecord list"

definition BridgeMeter_default :: MeterState where
  "BridgeMeter_default = \<lparr>instruments = Map.empty, definitions = [], updates = [], mdropped = 0\<rparr>"

definition instrument :: "MeterState \<Rightarrow> u32 \<Rightarrow> MetricParameters \<Rightarrow> Instrument \<times> MeterState" where
  "instrument st kind params =
    (let k = (mp_name params, kind)
     in case instruments st k of
          Some i \<Rightarrow> (\<lparr>iid = i, iattributes = EmptyAttributes\<rparr>, st)
        | None \<Rightarrow>
            let i = of_nat (length (definitions st)) + 1
            in (\<lparr>iid = i, iattributes = EmptyAttributes\<rparr>,
                st\<lparr>definitions := definitions st @ [\<lparr>md_id = i, md_name = mp_name params,
                      md_description = mp_description params, md_unit = mp_unit params, md_kind = kind\<rparr>],
                   instruments := (instruments st)(k \<mapsto> i)\<rparr>))"

definition counter :: "MeterState \<Rightarrow> MetricParameters \<Rightarrow> Instrument \<times> MeterState" where
  "counter st params = instrument st 0 params"

definition gauge :: "MeterState \<Rightarrow> MetricParameters \<Rightarrow> Instrument \<times> MeterState" where
  "gauge st params = instrument st 1 params"

definition gauge_f64 :: "MeterState \<Rightarrow> MetricParameters \<Rightarrow> Instrument \<times> MeterState" where
  "gauge_f64 st params = instrument st 2 params"

definition histogram :: "MeterState \<Rightarrow> MetricParameters \<Rightarrow> Instrument \<times> MeterState" where
  "histogram st params = instrument st 3 params"

definition histogram_f64 :: "MeterState \<Rightarrow> MetricParameters \<Rightarrow> Instrument \<times> MeterState" where
  "histogram_f64 st params = instrument st 4 params"

definition histogram_duration :: "MeterState \<Rightarrow> MetricParameters \<Rightarrow> Instrument \<times> MeterState" where
  "histogram_duration st params = instrument st 5 (params\<lparr>mp_unit := ''ms''\<rparr>)"

definition up_down_counter :: "MeterState \<Rightarrow> MetricParameters \<Rightarrow> Instrument \<times> MeterState" where
  "up_down_counter st params = instrument st 6 params"

definition with_attributes :: "Instrument \<Rightarrow> MetricAttributes \<Rightarrow> Instrument" where
  "with_attributes i a = i\<lparr>iattributes := a\<rparr>"

definition Instrument_record :: "Instrument \<Rightarrow> update_value \<Rightarrow> MeterState \<Rightarrow> MeterState" where
  "Instrument_record i v st =
    (let st = (if length (updates st) = MAX_UPDATES
               then st\<lparr>updates := tl (updates st), mdropped := mdropped st + 1\<rparr> else st)
     in st\<lparr>updates := updates st @ [\<lparr>sinstrument = iid i, sattributes = iattributes i, svalue = v\<rparr>]\<rparr>)"

definition unsigned_value :: "u64 \<Rightarrow> update_value" where
  "unsigned_value v = IntValue (min v (2 ^ 63 - 1))"

text \<open>The encoder of \<^verbatim>\<open>HistogramDurationBase\<close>; \<^verbatim>\<open>as_millis\<close> is a \<^verbatim>\<open>u128\<close>, here a \<open>nat\<close>.\<close>

definition duration_value :: "nat \<Rightarrow> update_value" where
  "duration_value millis = IntValue (of_nat (min millis (2 ^ 63 - 1)))"

fun lookup_definitions :: "MetricDefinition list \<Rightarrow> u64 list \<Rightarrow> (MetricDefinition list, unit) outcome" where
  "lookup_definitions ds [] = Ok []"
| "lookup_definitions ds (i # is) =
     (if i = 0 \<or> unat i - 1 \<ge> length ds then Panicked (OwnedString ''index out of bounds'')
      else and_then (lookup_definitions ds is) (\<lambda>xs. Ok (ds ! (unat i - 1) # xs)))"

definition drain :: "MeterState \<Rightarrow> (MetricBatch, unit) outcome \<times> MeterState" where
  "drain st =
    (let samples = updates st;
         ids = sorted_list_of_set (set (map sinstrument samples));
         st' = st\<lparr>updates := [], mdropped := 0\<rparr>
     in case lookup_definitions (definitions st) ids of
          Ok ds \<Rightarrow>
            (Ok \<lparr>mb_definitions = ds,
                mb_updates = map (\<lambda>s. \<lparr>mu_instrument = sinstrument s,
                   mu_attributes = attributes_to_proto (sattributes s), mu_value = Some (svalue s)\<rparr>) samples,
                mb_logs = (if mdropped st = 0 then []
                   else [\<lparr>lr_target = ''temporal_kt_bridge::metrics'', lr_level = ''WARN'',
                          lr_message = ''Dropped '' @ decimal (unat (mdropped st)) @
                            '' oldest metric updates because the JVM did not drain the buffer in time'',
                          lr_fields_json = ''''\<rparr>])\<rparr>, st')
        | Err e \<Rightarrow> (Err e, st\<lparr>updates := []\<rparr>)
        | Panicked p \<Rightarrow> (Panicked p, st\<lparr>updates := []\<rparr>))"

section \<open>Attributes keep one value per key\<close>

definition attr_lookup :: "MetricAttributes \<Rightarrow> string \<rightharpoonup> Value" where
  "attr_lookup a = (case a of OTel kvs \<Rightarrow> map_of (map (\<lambda>e. (key e, kvalue e)) kvs) | _ \<Rightarrow> Map.empty)"

definition attr_keys :: "MetricAttributes \<Rightarrow> string list" where
  "attr_keys a = (case a of OTel kvs \<Rightarrow> map key kvs | _ \<Rightarrow> [])"

lemma map_of_filter_key:
  "map_of (map (\<lambda>e. (key e, kvalue e)) (filter (\<lambda>e. key e \<noteq> k) kvs)) =
   (map_of (map (\<lambda>e. (key e, kvalue e)) kvs))(k := None)"
  by (induction kvs) (auto simp: fun_eq_iff)

lemma map_of_snoc_new:
  "m k = None \<Longrightarrow> m = map_of xs \<Longrightarrow> map_of (xs @ [(k, v)]) = m(k \<mapsto> v)"
  by (auto simp: map_add_def fun_eq_iff split: option.splits)

lemma put_attribute:
  "map_of (map (\<lambda>e. (key e, kvalue e)) (filter (\<lambda>e. key e \<noteq> key a) kvs @ [a])) =
   (map_of (map (\<lambda>e. (key e, kvalue e)) kvs))(key a \<mapsto> kvalue a)"
  using map_of_snoc_new [OF _ map_of_filter_key [of "key a" kvs, symmetric], of "key a" "kvalue a"]
  by simp

lemma foldl_put_attribute:
  "map_of (map (\<lambda>e. (key e, kvalue e)) (foldl (\<lambda>kvs a. filter (\<lambda>e. key e \<noteq> key a) kvs @ [a]) kvs attribs)) =
   foldl (\<lambda>m a. m(key a \<mapsto> kvalue a)) (map_of (map (\<lambda>e. (key e, kvalue e)) kvs)) attribs"
  by (induction attribs arbitrary: kvs) (simp_all only: foldl_Nil foldl_Cons put_attribute)

lemma foldl_put_distinct:
  assumes "distinct (map key kvs)"
  shows "distinct (map key (foldl (\<lambda>kvs a. filter (\<lambda>e. key e \<noteq> key a) kvs @ [a]) kvs attribs))"
  using assms
proof (induction attribs arbitrary: kvs)
  case (Cons a attribs)
  have "distinct (map key (filter (\<lambda>e. key e \<noteq> key a) kvs @ [a]))"
    using Cons.prems by (auto simp: distinct_map_filter)
  from Cons.IH [OF this] show ?case by simp
qed simp

text \<open>Extending attributes is a map update. The result holds each key once, so Core's lookups
  find one value per label; a key that is set again takes its new value and leaves its old place;
  and every other key keeps its value. Attributes that are not OpenTelemetry ones start empty.\<close>

theorem extend_attributes_updates:
  assumes "distinct (attr_keys existing)"
  shows "distinct (attr_keys (extend_attributes existing attribs)) \<and>
    attr_lookup (extend_attributes existing attribs) =
      foldl (\<lambda>m a. m(key a \<mapsto> kvalue a)) (attr_lookup existing) attribs \<and>
    map fst (attributes_to_proto (extend_attributes existing attribs)) =
      attr_keys (extend_attributes existing attribs)"
  using assms foldl_put_attribute [of _ attribs] foldl_put_distinct [of _ attribs]
  by (cases existing)
    (simp_all add: extend_attributes_def attr_lookup_def attr_keys_def comp_def)

theorem extend_attributes_updates_witness:
  "attr_lookup (extend_attributes (OTel [\<lparr>key = ''a'', kvalue = I64 1\<rparr>, \<lparr>key = ''b'', kvalue = I64 2\<rparr>])
      [\<lparr>key = ''a'', kvalue = Bool True\<rparr>]) ''a'' = Some (Bool True)"
  using extend_attributes_updates [of "OTel [\<lparr>key = ''a'', kvalue = I64 1\<rparr>, \<lparr>key = ''b'', kvalue = I64 2\<rparr>]"
      "[\<lparr>key = ''a'', kvalue = Bool True\<rparr>]"]
  by (simp add: attr_keys_def)

section \<open>Meters in use\<close>

text \<open>
  Core registers instruments, records through the ones it holds (with any attributes) and the JVM
  drains. The second component is the instruments Core holds.
\<close>

inductive meter_step :: "MeterState \<times> Instrument list \<Rightarrow> MeterState \<times> Instrument list \<Rightarrow> bool" where
  meter_register:
    "instrument st kind params = (i, st') \<Longrightarrow> length (definitions st) < 2 ^ 64 - 1 \<Longrightarrow>
     meter_step (st, is) (st', i # is)"
| meter_record:
    "i \<in> set is \<Longrightarrow> meter_step (st, is) (Instrument_record (with_attributes i a) v st, is)"
| meter_drain: "drain st = (r, st') \<Longrightarrow> meter_step (st, is) (st', is)"

definition meter_init :: "MeterState \<times> Instrument list \<Rightarrow> bool" where
  "meter_init s \<longleftrightarrow> s = (BridgeMeter_default, [])"

definition valid_id :: "MeterState \<Rightarrow> u64 \<Rightarrow> bool" where
  "valid_id st i \<longleftrightarrow> 0 < unat i \<and> unat i \<le> length (definitions st)"

definition definitions_ok :: "MeterState \<Rightarrow> bool" where
  "definitions_ok st \<longleftrightarrow> length (definitions st) < 2 ^ 64 \<and>
     (\<forall>n < length (definitions st). unat (md_id (definitions st ! n)) = n + 1) \<and>
     (\<forall>name kind i. instruments st (name, kind) = Some i \<longleftrightarrow>
        valid_id st i \<and> md_name (definitions st ! (unat i - 1)) = name \<and>
        md_kind (definitions st ! (unat i - 1)) = kind) \<and>
     (\<forall>s \<in> set (updates st). valid_id st (sinstrument s)) \<and>
     length (updates st) \<le> MAX_UPDATES"

definition meter_inv :: "MeterState \<times> Instrument list \<Rightarrow> bool" where
  "meter_inv s \<longleftrightarrow> definitions_ok (fst s) \<and> (\<forall>i \<in> set (snd s). valid_id (fst s) (iid i))"

lemma unat_next_id: "n < 2 ^ 64 - 1 \<Longrightarrow> unat (of_nat n + 1 :: u64) = n + 1"
  using unat_of_nat_u64 [of "n + 1"] by (simp add: add.commute)

lemma instrument_cases:
  assumes "instrument st kind params = (i, st')"
  obtains (known) j where "instruments st (mp_name params, kind) = Some j" "iid i = j" "st' = st"
  | (fresh) "instruments st (mp_name params, kind) = None" "iid i = of_nat (length (definitions st)) + 1"
      "st' = st\<lparr>definitions := definitions st @ [\<lparr>md_id = iid i, md_name = mp_name params,
         md_description = mp_description params, md_unit = mp_unit params, md_kind = kind\<rparr>],
         instruments := (instruments st)((mp_name params, kind) \<mapsto> iid i)\<rparr>"
  using assms by (auto simp: instrument_def Let_def split: option.splits)

lemma definitions_ok_fresh:
  assumes "definitions_ok st" and "length (definitions st) < 2 ^ 64 - 1"
    and "instruments st (name, kind) = None" and "i = of_nat (length (definitions st)) + 1"
    and "md_id d = i" "md_name d = name" "md_kind d = kind"
  shows "definitions_ok (st\<lparr>definitions := definitions st @ [d], instruments := (instruments st)((name, kind) \<mapsto> i)\<rparr>)"
    (is "definitions_ok ?st")
proof -
  let ?n = "length (definitions st)"
  have i: "unat i = ?n + 1" using assms(2,4) unat_next_id by simp
  have other: "valid_id ?st j \<longleftrightarrow> valid_id st j \<or> j = i" for j
    using i by (auto simp: valid_id_def le_Suc_eq word_unat_eq_iff)
  have old: "\<not> valid_id st i" using i by (simp add: valid_id_def)
  have nth: "valid_id st j \<Longrightarrow> definitions ?st ! (unat j - 1) = definitions st ! (unat j - 1)" for j
    by (auto simp: valid_id_def nth_append)
  have new: "definitions ?st ! (unat i - 1) = d" using i by (simp add: nth_append)
  have "instruments ?st (nm, k) = Some j \<longleftrightarrow> valid_id ?st j \<and>
      md_name (definitions ?st ! (unat j - 1)) = nm \<and> md_kind (definitions ?st ! (unat j - 1)) = k" for nm k j
  proof (cases "j = i")
    case True
    then show ?thesis
      using assms(1,3,6,7) other [of i] new old unfolding definitions_ok_def by auto
  next
    case False
    have known: "instruments st (nm', k') = Some j \<longleftrightarrow> valid_id st j \<and>
        md_name (definitions st ! (unat j - 1)) = nm' \<and> md_kind (definitions st ! (unat j - 1)) = k'" for nm' k'
      using assms(1) unfolding definitions_ok_def by blast
    show ?thesis
    proof (cases "(nm, k) = (name, kind)")
      case True
      then show ?thesis using False known [of name kind] assms(3) other [of j] nth [of j] by auto
    next
      case key: False
      then show ?thesis using False known [of nm k] other [of j] nth [of j] by auto
    qed
  qed
  then show ?thesis
    using assms(1,2,5) i other unfolding definitions_ok_def by (auto simp: nth_append less_Suc_eq)
qed

lemma valid_id_mono: "valid_id st i \<Longrightarrow> length (definitions st) \<le> length (definitions st') \<Longrightarrow> valid_id st' i"
  by (simp add: valid_id_def)

lemma lookup_definitions_ok:
  assumes "\<forall>i \<in> set is. 0 < unat i \<and> unat i \<le> length ds"
  shows "lookup_definitions ds is = Ok (map (\<lambda>i. ds ! (unat i - 1)) is)"
  using assms
proof (induction "is")
  case (Cons i "is")
  then have "0 < unat i" "unat i \<le> length ds" by simp_all
  moreover have "i \<noteq> 0" using calculation(1) by auto
  ultimately show ?case using Cons by auto
qed simp

lemma drain_ok:
  assumes "\<forall>s \<in> set (updates st). valid_id st (sinstrument s)"
  shows "\<exists>b. drain st = (Ok b, st\<lparr>updates := [], mdropped := 0\<rparr>) \<and>
     mb_definitions b = map (\<lambda>i. definitions st ! (unat i - 1)) (sorted_list_of_set (sinstrument ` set (updates st))) \<and>
     map (\<lambda>u. (mu_instrument u, mu_value u)) (mb_updates b) =
       map (\<lambda>s. (sinstrument s, Some (svalue s))) (updates st) \<and>
     (mb_logs b = [] \<longleftrightarrow> mdropped st = 0)"
proof -
  have "\<forall>i \<in> set (sorted_list_of_set (set (map sinstrument (updates st)))).
      0 < unat i \<and> unat i \<le> length (definitions st)"
    using assms by (auto simp: valid_id_def)
  from lookup_definitions_ok [OF this] show ?thesis by (simp add: drain_def Let_def)
qed

lemma Instrument_record_updates:
  "length (updates st) \<le> MAX_UPDATES \<Longrightarrow> length (updates (Instrument_record i v st)) \<le> MAX_UPDATES"
  "s \<in> set (updates (Instrument_record i v st)) \<Longrightarrow> s \<in> set (updates st) \<or> sinstrument s = iid i"
  "definitions (Instrument_record i v st) = definitions st"
  "instruments (Instrument_record i v st) = instruments st"
proof -
  have "set (tl xs) \<subseteq> set xs" for xs :: "Sample list" by (cases xs) auto
  then show "s \<in> set (updates (Instrument_record i v st)) \<Longrightarrow> s \<in> set (updates st) \<or> sinstrument s = iid i"
    by (auto simp: Instrument_record_def Let_def split: if_splits)
qed (auto simp: Instrument_record_def Let_def MAX_UPDATES_def)

lemma meter_inv_step:
  assumes "meter_inv s" and "meter_step s s'"
  shows "meter_inv s'"
  using assms(2,1)
proof (induction rule: meter_step.induct)
  case (meter_register st kind params i st' "is")
  then have ok: "definitions_ok st" and held: "\<forall>i \<in> set is. valid_id st (iid i)"
    by (simp_all add: meter_inv_def)
  from meter_register.hyps(1) show ?case
  proof (cases rule: instrument_cases)
    case (known j)
    with ok held show ?thesis by (auto simp: meter_inv_def definitions_ok_def)
  next
    case fresh
    have "definitions_ok st'"
      unfolding fresh(3)
      by (rule definitions_ok_fresh [OF ok meter_register.hyps(2) fresh(1,2)]) simp_all
    moreover have "valid_id st' (iid i)"
      using fresh(2,3) unat_next_id [OF meter_register.hyps(2)] by (auto simp: valid_id_def)
    moreover have "\<forall>j \<in> set is. valid_id st' (iid j)"
      using held fresh(3) by (auto simp: valid_id_def)
    ultimately show ?thesis by (simp add: meter_inv_def)
  qed
next
  case (meter_record i "is" st a v)
  then show ?case
    using Instrument_record_updates [where i = "with_attributes i a" and v = v and st = st]
    by (fastforce simp: meter_inv_def definitions_ok_def valid_id_def with_attributes_def)
next
  case (meter_drain st r st' "is")
  then have "\<forall>s \<in> set (updates st). valid_id st (sinstrument s)" by (simp add: meter_inv_def definitions_ok_def)
  from drain_ok [OF this] meter_drain show ?case
    by (auto simp: meter_inv_def definitions_ok_def valid_id_def)
qed

interpretation meter: invariant_system meter_init meter_step meter_inv
proof unfold_locales
  show "meter_inv s" if "meter_init s" for s
    using that by (auto simp: meter_init_def meter_inv_def definitions_ok_def BridgeMeter_default_def valid_id_def)
  show "meter_inv s'" if "meter_inv s" "meter_step s s'" for s s'
    using that by (rule meter_inv_step)
qed

section \<open>What the meter guarantees\<close>

text \<open>C38: A drained batch is self-contained. In every state of a meter in use, \<open>drain\<close> does not panic
  and empties the buffer: the batch's updates are the buffered samples in order; its definitions,
  in increasing order of id, are exactly those the updates refer to, each with its own id; and a
  warning is added exactly when samples were dropped.\<close>

theorem drain_self_contained:
  assumes "runs meter_init meter_step (st, is)"
  shows "\<exists>b. drain st = (Ok b, st\<lparr>updates := [], mdropped := 0\<rparr>) \<and>
     map (\<lambda>u. (mu_instrument u, mu_value u)) (mb_updates b) =
       map (\<lambda>s. (sinstrument s, Some (svalue s))) (updates st) \<and>
     set (map md_id (mb_definitions b)) = set (map mu_instrument (mb_updates b)) \<and>
     sorted (map md_id (mb_definitions b)) \<and> distinct (map md_id (mb_definitions b)) \<and>
     (mb_logs b = [] \<longleftrightarrow> mdropped st = 0)"
proof -
  from meter.runs_inv [OF assms] have ok: "definitions_ok st" by (simp add: meter_inv_def)
  let ?ids = "sorted_list_of_set (sinstrument ` set (updates st))"
  from ok have "\<forall>s \<in> set (updates st). valid_id st (sinstrument s)" by (simp add: definitions_ok_def)
  from drain_ok [OF this] obtain b where
    b: "drain st = (Ok b, st\<lparr>updates := [], mdropped := 0\<rparr>)"
    "mb_definitions b = map (\<lambda>i. definitions st ! (unat i - 1)) ?ids"
    "map (\<lambda>u. (mu_instrument u, mu_value u)) (mb_updates b) = map (\<lambda>s. (sinstrument s, Some (svalue s))) (updates st)"
    "mb_logs b = [] \<longleftrightarrow> mdropped st = 0" by blast
  have "md_id (definitions st ! (unat i - 1)) = i" if "i \<in> set ?ids" for i
  proof -
    from that ok have "0 < unat i" "unat i \<le> length (definitions st)"
      by (auto simp: definitions_ok_def valid_id_def)
    moreover have "\<forall>n < length (definitions st). unat (md_id (definitions st ! n)) = n + 1"
      using ok by (simp add: definitions_ok_def)
    ultimately have "unat (md_id (definitions st ! (unat i - 1))) = unat i" by simp
    then show ?thesis by (simp add: word_unat_eq_iff)
  qed
  then have ids: "map md_id (mb_definitions b) = ?ids" unfolding b(2) map_map by (intro map_idI) simp
  have "map mu_instrument (mb_updates b) = map sinstrument (updates st)"
    using arg_cong [OF b(3), of "map fst"] by (simp add: comp_def)
  then show ?thesis using b ids by (intro exI [of _ b]) simp
qed

text \<open>Instrument ids name one instrument each. In every state of a meter in use, two
  registrations get the same id exactly when they agree on name and kind, whichever came first and
  whatever their other parameters, and a registration never changes an id already given.\<close>

theorem instrument_ids_stable:
  assumes "runs meter_init meter_step (st, is)" and "length (definitions st) < 2 ^ 64 - 2"
    and "instrument st k1 p1 = (i1, st1)" and "instrument st1 k2 p2 = (i2, st2)"
  shows "iid i1 = iid i2 \<longleftrightarrow> mp_name p1 = mp_name p2 \<and> k1 = k2"
proof -
  have s1: "meter_step (st, is) (st1, i1 # is)"
    by (rule meter_register [OF assms(3)]) (use assms(2) in simp)
  have len: "length (definitions st1) < 2 ^ 64 - 1"
    by (rule instrument_cases [OF assms(3)]) (use assms(2) in auto)
  have s2: "meter_step (st1, i1 # is) (st2, i2 # i1 # is)" by (rule meter_register [OF assms(4) len])
  from meter.runs_inv [OF runs_step [OF runs_step [OF assms(1) s1] s2]]
  have ok: "definitions_ok st2" by (simp add: meter_inv_def)
  have 1: "instruments st1 (mp_name p1, k1) = Some (iid i1)"
    by (rule instrument_cases [OF assms(3)]) auto
  then have "instruments st2 (mp_name p1, k1) = Some (iid i1)"
    by (rule_tac instrument_cases [OF assms(4)]) auto
  moreover have "instruments st2 (mp_name p2, k2) = Some (iid i2)"
    by (rule instrument_cases [OF assms(4)]) auto
  ultimately show ?thesis using ok unfolding definitions_ok_def by fastforce
qed

definition sample_of :: "Instrument \<times> update_value \<Rightarrow> Sample" where
  "sample_of x = \<lparr>sinstrument = iid (fst x), sattributes = iattributes (fst x), svalue = snd x\<rparr>"

lemma fold_record:
  assumes "updates st = drop (length xs - MAX_UPDATES) (map sample_of xs)"
    and "mdropped st = d + of_nat (length xs - MAX_UPDATES)"
  shows "updates (fold (\<lambda>(i, v). Instrument_record i v) ys st) =
      drop (length (xs @ ys) - MAX_UPDATES) (map sample_of (xs @ ys)) \<and>
    mdropped (fold (\<lambda>(i, v). Instrument_record i v) ys st) = d + of_nat (length (xs @ ys) - MAX_UPDATES)"
  using assms
proof (induction ys arbitrary: xs st)
  case (Cons y ys)
  obtain i v where y: "y = (i, v)" by (cases y)
  let ?st = "Instrument_record i v st"
  have len: "length (updates st) = min (length xs) MAX_UPDATES" using Cons.prems(1) by simp
  have pos: "Suc 0 - MAX_UPDATES = 0" by (simp add: MAX_UPDATES_def)
  have "updates ?st = drop (length (xs @ [y]) - MAX_UPDATES) (map sample_of (xs @ [y])) \<and>
      mdropped ?st = d + of_nat (length (xs @ [y]) - MAX_UPDATES)"
  proof (cases "MAX_UPDATES \<le> length xs")
    case True
    then have "length (updates st) = MAX_UPDATES" using len by simp
    moreover have "tl (updates st) = drop (Suc (length xs) - MAX_UPDATES) (map sample_of xs)"
      using True by (simp add: Cons.prems(1) drop_Suc [symmetric] tl_drop Suc_diff_le)
    ultimately show ?thesis
      using True Cons.prems(2)
      by (simp add: Instrument_record_def sample_of_def y Suc_diff_le add.assoc add.commute pos)
  next
    case False
    then have "length (updates st) \<noteq> MAX_UPDATES" using len by simp
    then show ?thesis
      using False Cons.prems by (simp add: Instrument_record_def sample_of_def y)
  qed
  with Cons.IH [of ?st "xs @ [y]"] show ?case by (simp add: y)
qed simp

text \<open>C39: The buffer keeps the newest samples and counts what it loses. Recording any sequence of
  values into an empty buffer leaves the last \<open>MAX_UPDATES\<close> of them in order, and adds to the drop
  counter (a \<open>u64\<close>) exactly the number of those that are gone.\<close>

theorem record_keeps_newest:
  assumes "updates st = []"
  shows "updates (fold (\<lambda>(i, v). Instrument_record i v) xs st) =
      drop (length xs - MAX_UPDATES) (map sample_of xs) \<and>
    mdropped (fold (\<lambda>(i, v). Instrument_record i v) xs st) =
      mdropped st + of_nat (length xs - MAX_UPDATES)"
  using fold_record [of st "[]" "mdropped st" xs] assms by simp

definition demo_params :: MetricParameters where
  "demo_params = \<lparr>mp_name = ''requests'', mp_description = ''sent'', mp_unit = ''1''\<rparr>"

definition demo_instrument :: Instrument where
  "demo_instrument = \<lparr>iid = 1, iattributes = EmptyAttributes\<rparr>"

definition demo_meter :: MeterState where
  "demo_meter = snd (counter BridgeMeter_default demo_params)"

lemmas demo_meter_defs = demo_params_def demo_instrument_def demo_meter_def counter_def instrument_def
  BridgeMeter_default_def

lemma demo_meter_run:
  "runs meter_init meter_step (Instrument_record (with_attributes demo_instrument EmptyAttributes) (IntValue 3) demo_meter,
     [demo_instrument])"
proof -
  have 0: "runs meter_init meter_step (BridgeMeter_default, [])" by (rule runs_init) (simp add: meter_init_def)
  have 1: "meter_step (BridgeMeter_default, []) (demo_meter, [demo_instrument])"
    by (rule meter_register [of _ 0 demo_params]) (simp_all add: demo_meter_defs)
  have 2: "meter_step (demo_meter, [demo_instrument])
      (Instrument_record (with_attributes demo_instrument EmptyAttributes) (IntValue 3) demo_meter, [demo_instrument])"
    by (rule meter_record) simp
  show ?thesis by (rule runs_step [OF runs_step [OF 0 1] 2])
qed

theorem drain_self_contained_witness:
  "\<exists>b st'. drain (Instrument_record (with_attributes demo_instrument EmptyAttributes) (IntValue 3) demo_meter) =
       (Ok b, st') \<and> set (map md_id (mb_definitions b)) = {1} \<and> updates st' = []"
proof -
  let ?st = "Instrument_record (with_attributes demo_instrument EmptyAttributes) (IntValue 3) demo_meter"
  from drain_self_contained [OF demo_meter_run] obtain b where
    b: "drain ?st = (Ok b, ?st\<lparr>updates := [], mdropped := 0\<rparr>)"
    "map (\<lambda>u. (mu_instrument u, mu_value u)) (mb_updates b) = map (\<lambda>s. (sinstrument s, Some (svalue s))) (updates ?st)"
    "set (map md_id (mb_definitions b)) = set (map mu_instrument (mb_updates b))" by blast
  have "updates ?st = [\<lparr>sinstrument = 1, sattributes = EmptyAttributes, svalue = IntValue 3\<rparr>]"
    by (simp add: Instrument_record_def with_attributes_def demo_meter_defs MAX_UPDATES_def)
  with b(2) have "map mu_instrument (mb_updates b) = [1]" by auto
  with b(3) have "set (map md_id (mb_definitions b)) = {1}" by simp
  with b(1) show ?thesis by (intro exI [of _ b] exI [of _ "?st\<lparr>updates := [], mdropped := 0\<rparr>"]) simp
qed

theorem instrument_ids_stable_witness:
  "iid (fst (counter BridgeMeter_default demo_params)) \<noteq> iid (fst (gauge demo_meter demo_params))"
  using instrument_ids_stable [OF runs_init, of BridgeMeter_default "[]" 0 demo_params
      "fst (counter BridgeMeter_default demo_params)" demo_meter 1 demo_params
      "fst (gauge demo_meter demo_params)" "snd (gauge demo_meter demo_params)"]
  by (simp add: meter_init_def demo_meter_def counter_def gauge_def)
    (simp add: BridgeMeter_default_def)

theorem record_keeps_newest_witness:
  "updates (fold (\<lambda>(i, v). Instrument_record i v) [(demo_instrument, IntValue 3), (demo_instrument, IntValue 4)] demo_meter) =
     [sample_of (demo_instrument, IntValue 3), sample_of (demo_instrument, IntValue 4)]"
  using record_keeps_newest [of demo_meter "[(demo_instrument, IntValue 3), (demo_instrument, IntValue 4)]"]
  by (simp add: demo_meter_defs MAX_UPDATES_def)

text \<open>Recorded integers never change sign. A counter, gauge or histogram value above \<open>i64::MAX\<close>, and
  a duration of more milliseconds than that, is recorded as \<open>i64::MAX\<close>; every other value is
  recorded as it is.\<close>

theorem recorded_values_saturate:
  "\<exists>w. unsigned_value v = IntValue w \<and> sint w = int (min (unat v) (2 ^ 63 - 1)) \<and>
    (\<exists>u. duration_value n = IntValue u \<and> sint u = int (min n (2 ^ 63 - 1)))"
proof -
  have small: "sint (of_nat m :: u64) = int m" if "m < 2 ^ 63" for m
    using that by (simp add: signed_of_nat signed_take_bit_int_eq_self)
  have "min v (2 ^ 63 - 1) = of_nat (min (unat v) (2 ^ 63 - 1))"
    by (auto simp: min_def word_le_nat_alt)
  then show ?thesis
    using small [of "min (unat v) (2 ^ 63 - 1)"] small [of "min n (2 ^ 63 - 1)"]
    by (simp add: unsigned_value_def duration_value_def)
qed

end
