(* ===== verification/Kt_RuntimeObject.thy ===== *)
theory Kt_RuntimeObject
  imports Kt_Runtime Kt_Telemetry
begin

text \<open>
  The rest of \<^verbatim>\<open>runtime.rs\<close>: building a runtime from its options, draining its metrics and logs, and
  \<^verbatim>\<open>spawn_request\<close> and \<^verbatim>\<open>free_runtime\<close> as the functions that a caller on one thread sees.

  \<open>RuntimeObject\<close> joins the request table of the theory of requests with the buffered meter and the
  batch that a size probe left behind. Core and its builders are not under this repository:
  \<open>build_options\<close> and \<open>core_new\<close> are arguments, and so are the logs Core had buffered and the encoder of
  their fields. The lemmas show that the functions are paths of the step relation \<open>runtime_step\<close>, so
  every theorem about it holds for them.
\<close>

section \<open>Construction\<close>

record TelemetryOptions =
  forward_logs :: bool
  log_filter :: string
  buffer_metrics :: bool

record RuntimeOptions =
  telemetry :: "TelemetryOptions option"
  worker_heartbeat_interval_millis :: "u64 option"

record CoreRuntimeOptions =
  core_logging :: "string option"
  core_metrics :: bool
  core_heartbeat_interval :: "nat option"

text \<open>Beside the meter stand the instruments that Core has registered and holds.\<close>

record RuntimeObject =
  requests :: RuntimeEntry
  metrics :: "(MeterState \<times> Instrument list) option"
  metric_batch :: "u8 list option"

definition core_options :: "RuntimeOptions \<Rightarrow> CoreRuntimeOptions" where
  "core_options config =
    (let heartbeat = (case worker_heartbeat_interval_millis config of Some n \<Rightarrow> unat n | None \<Rightarrow> 60000)
     in \<lparr>core_logging = (case telemetry config of
            Some options \<Rightarrow> (if forward_logs options
              then Some (if log_filter options = [] then ''WARN'' else log_filter options) else None)
          | None \<Rightarrow> None),
         core_metrics = (case telemetry config of Some options \<Rightarrow> buffer_metrics options | None \<Rightarrow> False),
         core_heartbeat_interval = (if heartbeat \<noteq> 0 then Some heartbeat else None)\<rparr>)"

definition new_runtime ::
  "(CoreRuntimeOptions \<Rightarrow> ('o, string) outcome) \<Rightarrow> ('o \<Rightarrow> ('c, string) outcome) \<Rightarrow> RuntimeOptions \<Rightarrow> RuntimeObject KtResult"
where
  "new_runtime build_options core_new config =
    and_then (map_err InvalidArgument (build_options (core_options config))) (\<lambda>options.
    and_then (map_err KtError_from_anyhow (core_new options)) (\<lambda>core.
    Ok \<lparr>requests = RuntimeEntry_new,
        metrics = (if core_metrics (core_options config) then Some (BridgeMeter_default, []) else None),
        metric_batch = None\<rparr>))"

section \<open>Metrics and logs\<close>

record core_log =
  log_target :: string
  log_message :: string
  log_level :: string
  log_fields :: string

text \<open>One log record; a field that cannot be written as JSON fails the \<^verbatim>\<open>expect\<close>.\<close>

definition log_record :: "(string \<Rightarrow> (string, string) outcome) \<Rightarrow> core_log \<Rightarrow> LogRecord KtResult" where
  "log_record to_json l =
    (case to_json (log_fields l) of
       Ok j \<Rightarrow> Ok \<lparr>lr_target = log_target l, lr_level = log_level l, lr_message = log_message l, lr_fields_json = j\<rparr>
     | Err e \<Rightarrow> Panicked (OwnedString (''log fields serialize as JSON: '' @ e))
     | Panicked p \<Rightarrow> Panicked p)"

fun log_records :: "(string \<Rightarrow> (string, string) outcome) \<Rightarrow> core_log list \<Rightarrow> LogRecord list KtResult" where
  "log_records to_json [] = Ok []"
| "log_records to_json (l # ls) =
     and_then (log_record to_json l) (\<lambda>r. and_then (log_records to_json ls) (\<lambda>rs. Ok (r # rs)))"

definition no_batch :: MetricBatch where
  "no_batch = \<lparr>mb_definitions = [], mb_updates = [], mb_logs = []\<rparr>"

text \<open>The meter's own drain, whose error type has no values in the source.\<close>

definition drain_meter ::
  "(MeterState \<times> Instrument list) option \<Rightarrow> MetricBatch KtResult \<times> (MeterState \<times> Instrument list) option"
where
  "drain_meter m = (case m of
      None \<Rightarrow> (Ok no_batch, None)
    | Some (meter, is) \<Rightarrow> (case drain meter of
          (Ok b, meter') \<Rightarrow> (Ok b, Some (meter', is))
        | (Err _, meter') \<Rightarrow> (Panicked OtherPayload, Some (meter', is))
        | (Panicked p, meter') \<Rightarrow> (Panicked p, Some (meter', is))))"

definition drain_metrics ::
  "(string \<Rightarrow> (string, string) outcome) \<Rightarrow> core_log list \<Rightarrow> RuntimeObject \<Rightarrow> MetricBatch KtResult \<times> RuntimeObject"
where
  "drain_metrics to_json logs o' =
    (case drain_meter (metrics o') of
       (r, m) \<Rightarrow>
         (and_then r (\<lambda>batch. and_then (log_records to_json logs) (\<lambda>rs.
            Ok (batch\<lparr>mb_logs := mb_logs batch @ rs\<rparr>))),
          o'\<lparr>metrics := m\<rparr>))"

definition runtime_info :: "string \<Rightarrow> RuntimeObject \<Rightarrow> string" where
  "runtime_info core_version o' = core_version"

section \<open>Requests on one thread\<close>

text \<open>
  \<^verbatim>\<open>spawn_request\<close> up to its return: the reservation, the admission, and on success the tracked future
  handed to Tokio. \<open>t\<close> names the task.
\<close>

definition spawn_request :: "nat \<Rightarrow> u64 \<Rightarrow> RuntimeEntry \<Rightarrow> unit KtResult \<times> RuntimeEntry" where
  "spawn_request t r s =
    (let s0 = s\<lparr>tasks := (tasks s)(t \<mapsto> (r, Reserved)), tracker := tracker s + 1\<rparr>
     in case register s0 r t of
          (Ok _, s1) \<Rightarrow>
            (Ok (), set_phase t r Tracked Spawned (set_phase t r Registered Tracked
               (set_phase t r Reserved Registered (s1\<lparr>admitted := admitted s1 @ [r]\<rparr>))))
        | (Err e, s1) \<Rightarrow> (Err e, set_phase t r Reserved Finished s1)
        | (Panicked p, s1) \<Rightarrow> (Panicked p, set_phase t r Reserved Finished s1))"

text \<open>
  What the future does once it is resolved, and what a task that the drain cancelled still does: take
  the cancelled branch and finish.
\<close>

definition settle_task :: "nat \<Rightarrow> RuntimeEntry \<Rightarrow> RuntimeEntry" where
  "settle_task t s = (case tasks s t of
      Some (r, Spawned) \<Rightarrow>
        (if t \<in> cancelled s
         then let s' = set_phase t r Spawned (Resolved (cancelled_result r)) s
              in set_phase t r (Resolved (cancelled_result r)) Finished (finish_request r (cancelled_result r) s')
         else s)
    | Some (r, Resolved p) \<Rightarrow> set_phase t r (Resolved p) Finished (finish_request r p s)
    | _ \<Rightarrow> s)"

text \<open>
  \<^verbatim>\<open>free_runtime\<close>: the drain in the map's order \<open>ds\<close>, closing the tracker, and waiting while the tasks
  \<open>ts\<close> end in that order. \<open>None\<close> when they were not all: the call is still waiting.
\<close>

definition free_runtime :: "(u64 \<times> nat) list \<Rightarrow> nat list \<Rightarrow> RuntimeEntry \<Rightarrow> RuntimeEntry option" where
  "free_runtime ds ts s =
    (let s1 = (drain_pending_for_shutdown ds s)\<lparr>tracker_closed := True\<rparr>;
         s2 = fold settle_task ts s1
     in if tracker s2 = 0 then Some (s2\<lparr>rfreed := True\<rparr>) else None)"

section \<open>They are paths of the step relation\<close>

lemma set_phase_tasks [simp]: "tasks (set_phase t r a b s) = (tasks s)(t \<mapsto> (r, b))"
  by (simp add: set_phase_def)

lemma register_cases:
  assumes "register s r t = (x, s')"
  obtains (ok) "x = Ok t" "s' = s\<lparr>pending := (pending s)(r \<mapsto> t)\<rparr>" "pending s r = None" "\<not> rclosed s"
  | (err) e where "x = Err e" "s' = s" "rclosed s \<or> pending s r \<noteq> None"
  using assms by (auto simp: register_def split: if_splits)

lemma spawn_request_path:
  assumes "draining s = None" and "tasks s t = None"
  shows "runtime_step\<^sup>*\<^sup>* s (snd (spawn_request t r s))"
proof -
  let ?s0 = "s\<lparr>tasks := (tasks s)(t \<mapsto> (r, Reserved)), tracker := tracker s + 1\<rparr>"
  have 0: "runtime_step s ?s0" by (rule step_spawn_request [OF assms(2)])
  have t0: "tasks ?s0 t = Some (r, Reserved)" "draining ?s0 = None" using assms(1) by simp_all
  obtain x s1 where x: "register ?s0 r t = (x, s1)" by (cases "register ?s0 r t")
  from x show ?thesis
  proof (cases rule: register_cases)
    case ok
    let ?a = "set_phase t r Reserved Registered (s1\<lparr>admitted := admitted s1 @ [r]\<rparr>)"
    let ?b = "set_phase t r Registered Tracked ?a"
    have "runtime_step ?s0 ?a" by (rule step_task [OF task_register [OF t0]]) (use x ok in simp)
    moreover have "runtime_step ?a ?b" by (rule step_task [OF task_track]) simp
    moreover have "runtime_step ?b (set_phase t r Tracked Spawned ?b)" by (rule step_task [OF task_spawn]) simp
    ultimately have "runtime_step\<^sup>*\<^sup>* s (set_phase t r Tracked Spawned ?b)"
      using 0 by (meson r_into_rtranclp rtranclp.rtrancl_into_rtrancl)
    then show ?thesis using x ok by (simp add: spawn_request_def)
  next
    case (err e)
    have "runtime_step ?s0 (set_phase t r Reserved Finished s1)"
      by (rule step_task [OF task_rejected [OF t0]]) (use x err in simp)
    then have "runtime_step\<^sup>*\<^sup>* s (set_phase t r Reserved Finished s1)"
      using 0 by (meson r_into_rtranclp rtranclp.rtrancl_into_rtrancl)
    then show ?thesis using x err by (simp add: spawn_request_def)
  qed
qed

lemma settle_task_path:
  assumes "draining s = None"
  shows "runtime_step\<^sup>*\<^sup>* s (settle_task t s)"
proof (cases "tasks s t")
  case (Some x)
  obtain r ph where x: "x = (r, ph)" by (cases x)
  show ?thesis
  proof (cases ph)
    case Spawned
    show ?thesis
    proof (cases "t \<in> cancelled s")
      case True
      let ?p = "cancelled_result r"
      let ?a = "set_phase t r Spawned (Resolved ?p) s"
      have "runtime_step s ?a"
        by (rule step_task [OF task_cancelled]) (use Some x Spawned True in simp_all)
      moreover have "runtime_step ?a (set_phase t r (Resolved ?p) Finished (finish_request r ?p ?a))"
        by (rule step_task [OF task_finish]) (use assms in simp_all)
      ultimately show ?thesis using Some x Spawned True by (simp add: settle_task_def Let_def)
    qed (use Some x Spawned in \<open>simp add: settle_task_def\<close>)
  next
    case (Resolved p)
    have "runtime_step s (set_phase t r (Resolved p) Finished (finish_request r p s))"
      by (rule step_task [OF task_finish]) (use assms Some x Resolved in simp_all)
    then show ?thesis using Some x Resolved by (simp add: settle_task_def)
  qed (use Some x in \<open>simp_all add: settle_task_def\<close>)
qed (simp add: settle_task_def)

lemma finish_request_frame [simp]:
  "draining (finish_request r p s) = draining s" "tasks (finish_request r p s) = tasks s"
  "rclosed (finish_request r p s) = rclosed s" "tracker_closed (finish_request r p s) = tracker_closed s"
  "cancelled (finish_request r p s) = cancelled s" "admitted (finish_request r p s) = admitted s"
  by (simp_all add: finish_request_def retire_def answer_def Sender_push_def split: bool.splits)

lemma settle_task_draining [simp]: "draining (settle_task t s) = draining s"
  by (simp add: settle_task_def Let_def split: option.splits phase.splits)

lemma settle_all_path:
  "draining s = None \<Longrightarrow> runtime_step\<^sup>*\<^sup>* s (fold settle_task ts s) \<and> draining (fold settle_task ts s) = None"
proof (induction ts arbitrary: s)
  case (Cons t ts)
  from Cons.IH [of "settle_task t s"] settle_task_path [OF Cons.prems, of t] Cons.prems show ?case
    by (auto intro: rtranclp_trans)
qed simp

lemma drain_one_frame [simp]: "(drain_one d (s\<lparr>draining := x\<rparr>)) = (drain_one d s)\<lparr>draining := x\<rparr>"
  by (simp add: drain_one_def answer_def Sender_push_def)

lemma fold_drain_one_frame [simp]:
  "fold drain_one ds (s\<lparr>draining := x\<rparr>) = (fold drain_one ds s)\<lparr>draining := x\<rparr>"
  by (induction ds arbitrary: s) simp_all

lemma drain_loop_path:
  "runtime_step\<^sup>*\<^sup>* (s\<lparr>draining := Some ds\<rparr>) ((fold drain_one ds s)\<lparr>draining := Some []\<rparr>)"
proof (induction ds arbitrary: s)
  case (Cons d ds)
  have "runtime_step (s\<lparr>draining := Some (d # ds)\<rparr>) ((drain_one d s)\<lparr>draining := Some ds\<rparr>)"
    using step_drain_one [of "s\<lparr>draining := Some (d # ds)\<rparr>" d ds] by simp
  with Cons.IH [of "drain_one d s"] show ?case by (simp add: converse_rtranclp_into_rtranclp)
qed simp

lemma drain_path:
  assumes "draining s = None" and "\<not> rclosed s" and "drain_order (pending s) ds"
  shows "runtime_step\<^sup>*\<^sup>* s (drain_pending_for_shutdown ds s)"
proof -
  let ?f = "fold drain_one ds (drain_begin ds s)"
  have "runtime_step s (drain_begin ds s)" by (rule step_drain_begin [OF assms])
  moreover have "(drain_begin ds s)\<lparr>draining := Some ds\<rparr> = drain_begin ds s" by (simp add: drain_begin_def)
  with drain_loop_path [where s = "drain_begin ds s" and ds = ds]
  have "runtime_step\<^sup>*\<^sup>* (drain_begin ds s) (?f\<lparr>draining := Some []\<rparr>)" by simp
  moreover have "runtime_step (?f\<lparr>draining := Some []\<rparr>) (drain_end ?f)"
    using step_drain_end [of "?f\<lparr>draining := Some []\<rparr>"] by (simp add: drain_end_def)
  ultimately show ?thesis unfolding drain_pending_for_shutdown_def
    by (meson converse_rtranclp_into_rtranclp rtranclp.rtrancl_into_rtrancl)
qed

lemma drain_fold_frame [simp]:
  "rclosed (drain_pending_for_shutdown ds s)" "draining (drain_pending_for_shutdown ds s) = None"
  "tasks (drain_pending_for_shutdown ds s) = tasks s"
proof -
  have "rclosed (fold drain_one ds s) = rclosed s \<and> tasks (fold drain_one ds s) = tasks s" for s
    by (induction ds arbitrary: s) (simp_all add: drain_one_def answer_def Sender_push_def)
  then show "rclosed (drain_pending_for_shutdown ds s)" "draining (drain_pending_for_shutdown ds s) = None"
    "tasks (drain_pending_for_shutdown ds s) = tasks s"
    by (simp_all add: drain_pending_for_shutdown_def drain_end_def drain_begin_def)
qed

lemma free_runtime_path:
  assumes "draining s = None" and "\<not> rclosed s" and "drain_order (pending s) ds"
    and "free_runtime ds ts s = Some s'"
  shows "runtime_step\<^sup>*\<^sup>* s s'" and "draining s' = None" and "rfreed s'"
proof -
  let ?d = "drain_pending_for_shutdown ds s"
  let ?c = "?d\<lparr>tracker_closed := True\<rparr>"
  let ?f = "fold settle_task ts ?c"
  have s': "s' = ?f\<lparr>rfreed := True\<rparr>" "tracker ?f = 0"
    using assms(4) by (auto simp: free_runtime_def Let_def split: if_splits)
  have 1: "runtime_step\<^sup>*\<^sup>* s ?d" by (rule drain_path [OF assms(1-3)])
  have 2: "runtime_step ?d ?c" by (rule step_tracker_close) simp_all
  have 3: "runtime_step\<^sup>*\<^sup>* ?c ?f" "draining ?f = None" using settle_all_path [of ?c ts] by simp_all
  have "tracker_closed (settle_task t u) = tracker_closed u" for t u
    by (simp add: settle_task_def Let_def split: option.splits phase.splits)
  then have "tracker_closed (fold settle_task ts u) = tracker_closed u" for u
    by (induction ts arbitrary: u) simp_all
  then have 4: "runtime_step ?f s'" unfolding s'(1) by (intro step_free_done) (use s'(2) in simp_all)
  from 1 2 3(1) 4 show "runtime_step\<^sup>*\<^sup>* s s'"
    by (meson rtranclp.rtrancl_into_rtrancl rtranclp_trans)
  show "draining s' = None" "rfreed s'" using s' 3(2) by simp_all
qed

text \<open>Between calls a task is spawned, resolved or finished.\<close>

fun at_rest :: "phase \<Rightarrow> bool" where
  "at_rest Spawned = True"
| "at_rest (Resolved p) = True"
| "at_rest Finished = True"
| "at_rest _ = False"

definition quiet :: "RuntimeEntry \<Rightarrow> bool" where
  "quiet s \<longleftrightarrow> draining s = None \<and>
     (\<forall>t r ph. tasks s t = Some (r, ph) \<longrightarrow> at_rest ph)"

definition unfinished :: "RuntimeEntry \<Rightarrow> nat set" where
  "unfinished s = {t. \<exists>r ph. tasks s t = Some (r, ph) \<and> ph \<noteq> Finished}"

lemma settle_task_finishes:
  assumes "runtime_inv s" and "rclosed s" and "quiet s"
  shows "unfinished (settle_task t s) = unfinished s - {t}" and "quiet (settle_task t s)" and "rclosed (settle_task t s)"
proof -
  have d: "draining s = None" using assms(3) by (simp add: quiet_def)
  consider (gone) "tasks s t = None \<or> (\<exists>r. tasks s t = Some (r, Finished))"
    | (spawned) r where "tasks s t = Some (r, Spawned)"
    | (resolved) r p where "tasks s t = Some (r, Resolved p)"
    using assms(3) unfolding quiet_def
    by (cases "tasks s t") (auto, metis at_rest.elims(2))
  then have "settle_task t s = s \<and> t \<notin> unfinished s \<or>
    (\<exists>r. tasks (settle_task t s) = (tasks s)(t \<mapsto> (r, Finished)) \<and> rclosed (settle_task t s))"
  proof cases
    case gone
    then show ?thesis by (auto simp: settle_task_def unfinished_def)
  next
    case spawned
    have "pending s = Map.empty" "to_drain s = []"
      using assms(1,2) d by (simp_all add: runtime_inv_def shut_def to_drain_def)
    then have "t \<in> cancelled s"
      using assms(1) spawned by (fastforce simp: runtime_inv_def reachable_or_cancelled_def)
    then show ?thesis using spawned assms(2) by (intro disjI2 exI [of _ r]) (simp add: settle_task_def Let_def)
  next
    case resolved
    then show ?thesis using assms(2) by (intro disjI2 exI [of _ r]) (simp add: settle_task_def)
  qed
  then show "unfinished (settle_task t s) = unfinished s - {t}" "quiet (settle_task t s)" "rclosed (settle_task t s)"
    using assms(2,3) by (auto simp: unfinished_def quiet_def split: if_splits)
qed

lemma settle_all_finishes:
  assumes "runtime_inv s" and "rclosed s" and "quiet s"
  shows "runtime_inv (fold settle_task ts s) \<and> unfinished (fold settle_task ts s) = unfinished s - set ts"
  using assms
proof (induction ts arbitrary: s)
  case (Cons t ts)
  note st = settle_task_finishes [OF Cons.prems, of t]
  have "runtime_inv (settle_task t s)"
    using rt.rtranclp_inv [OF settle_task_path] Cons.prems by (simp add: quiet_def)
  from Cons.IH [OF this st(3,2)] st(1) show ?case by auto
qed simp

text \<open>\<open>free_runtime\<close> comes back as soon as every task that was still going has had its turn.\<close>

lemma free_runtime_returns:
  assumes "runtime_inv s" and "quiet s" and "\<not> rclosed s" and "drain_order (pending s) ds"
    and "unfinished s \<subseteq> set ts"
  shows "\<exists>s'. free_runtime ds ts s = Some s'"
proof -
  let ?d = "drain_pending_for_shutdown ds s"
  let ?c = "?d\<lparr>tracker_closed := True\<rparr>"
  have d: "draining s = None" using assms(2) by (simp add: quiet_def)
  have "runtime_inv ?d" by (rule rt.rtranclp_inv [OF drain_path [OF d assms(3,4)] assms(1)])
  then have c: "runtime_inv ?c" by (rule runtime_inv_tracker_close) simp_all
  have q: "quiet ?c" "unfinished ?c = unfinished s" using assms(2) by (simp_all add: quiet_def unfinished_def)
  from settle_all_finishes [OF c _ q(1), of ts] q(2) assms(5)
  have "runtime_inv (fold settle_task ts ?c)" "unfinished (fold settle_task ts ?c) = {}" by auto
  then have "tracker (fold settle_task ts ?c) = 0" unfolding unfinished_def by (subst tracker_zero_iff) auto
  then show ?thesis by (simp add: free_runtime_def Let_def)
qed

end
