(* ===== verification/Kt_Worker.thy ===== *)
theory Kt_Worker
  imports Kt_Runtime
begin

text \<open>
  Workers (\<^verbatim>\<open>worker.rs\<close>): the poll loops and the life cycle.

  \<open>pump\<close> is one poll loop as a function of what Core's polls return, in order: what it pushes, how
  often it tells Core to shut down, and whether it has exited. Core is not under this repository;
  its answers are the argument, together with the abort of the task by \<^verbatim>\<open>free\<close>.

  The life cycle is a step relation over a \<open>WorkerEntry\<close>. Core's worker is shared through an
  \<^verbatim>\<open>Arc\<close>, whose reference count decides whether \<open>finalize\<close> may call \<^verbatim>\<open>finalize_shutdown\<close>; the count
  is computed from who holds a clone (\<open>core_refs\<close>): the state unless it is \<open>Finalized\<close>, every pump
  that has not dropped its own, every call in flight and every shutdown between taking the state
  and unwrapping it. The async \<open>shutdown_lock\<close> is held by the shutdowns that are past acquiring it.
  Core's \<^verbatim>\<open>finalize_shutdown\<close> is awaited at \<open>Finalizing\<close>; whether and when it returns is Core's affair, a step of
  its own (\<open>core_answers\<close>).
\<close>

section \<open>One poll loop\<close>

datatype TaskKind = WorkflowActivation | Activity | Nexus

fun completion_kind :: "TaskKind \<Rightarrow> KtKind" where
  "completion_kind WorkflowActivation = TaskWorkflowActivation"
| "completion_kind Activity = TaskActivity"
| "completion_kind Nexus = TaskNexus"

fun TaskKind_u64 :: "TaskKind \<Rightarrow> u64" where
  "TaskKind_u64 WorkflowActivation = 0"
| "TaskKind_u64 Activity = 1"
| "TaskKind_u64 Nexus = 2"

text \<open>
  What one poll of Core yields: an encoded task, an error, or a panic while polling; or, at the poll or in the
  pause after an error, the task is aborted by \<^verbatim>\<open>free\<close>.
\<close>

datatype poll_result =
    Task "u8 list"
  | PollShutDown
  | PollError string
  | PollPanic panic_payload
  | PollAborted

definition pushed_event :: "u64 \<Rightarrow> TaskKind \<Rightarrow> Pending \<Rightarrow> Pending" where
  "pushed_event worker_handle k p = Pending_aux1 (TaskKind_u64 k) (Pending_aux0 worker_handle p)"

definition task_event :: "u64 \<Rightarrow> TaskKind \<Rightarrow> u8 list \<Rightarrow> Pending" where
  "task_event h k b =
     pushed_event h k (Pending_payload b (Pending_kind (completion_kind k) (Pending_ack PUSHED)))"

definition stream_end :: "u64 \<Rightarrow> TaskKind \<Rightarrow> Pending" where
  "stream_end h k = pushed_event h k (Pending_kind TaskStreamEnd (Pending_ack PUSHED))"

definition worker_failed :: "u64 \<Rightarrow> TaskKind \<Rightarrow> i32 \<Rightarrow> string \<Rightarrow> Pending" where
  "worker_failed h k st message = pushed_event h k (Pending_kind WorkerFailed (Pending_error PUSHED st message))"

record pump_run =
  pushed :: "Pending list"
  initiations :: nat
  exited :: bool

text \<open>
  The loop from a state in which an error was \<open>reported\<close> or not. With no results left the pump is
  still polling.
\<close>

fun pump :: "u64 \<Rightarrow> TaskKind \<Rightarrow> bool \<Rightarrow> poll_result list \<Rightarrow> pump_run" where
  "pump h k reported [] = \<lparr>pushed = [], initiations = 0, exited = False\<rparr>"
| "pump h k reported (Task b # rs) =
     (let r = pump h k reported rs in r\<lparr>pushed := task_event h k b # pushed r\<rparr>)"
| "pump h k reported (PollShutDown # rs) = \<lparr>pushed = [stream_end h k], initiations = 0, exited = True\<rparr>"
| "pump h k reported (PollError message # rs) =
     (if reported then pump h k reported rs
      else let r = pump h k True rs
           in r\<lparr>pushed := worker_failed h k KT_ERR_FAILED message # pushed r,
                initiations := initiations r + 1\<rparr>)"
| "pump h k reported (PollPanic x # rs) =
     \<lparr>pushed = [worker_failed h k KT_ERR_PANIC (''worker poll panic: '' @ panic_message x), stream_end h k],
      initiations = 1, exited = True\<rparr>"
| "pump h k reported (PollAborted # rs) = \<lparr>pushed = [], initiations = 0, exited = True\<rparr>"

section \<open>The life cycle\<close>

datatype WorkerState =
    Running bool
  | Draining
  | Finalized

text \<open>A pump holds its clone of the core, has dropped it and not yet left the count, or is gone.\<close>

datatype pump_pc = NoPump | Pumping | CoreDropped | Gone

text \<open>
  Where a \<^verbatim>\<open>shutdown\<close> call is. \<open>LockWait\<close>: waiting for \<open>shutdown_lock\<close>. \<open>Taken\<close>: it moved the state to
  \<open>Draining\<close> and has a clone; the flag is \<^verbatim>\<open>started\<close>. \<open>PumpWait\<close>: in the loop on \<^verbatim>\<open>live_pumps\<close>.
  \<open>PumpsEnded\<close>: past it. \<open>FinalizeCall\<close>: at the call of \<^verbatim>\<open>finalize\<close>. \<open>Unwrapping\<close>: in its loop.
  \<open>Finalizing\<close>: it owns the unwrapped core and is in Core's \<^verbatim>\<open>finalize_shutdown().await\<close>.
  \<open>BgWait\<close> and \<open>BgLock\<close>: the task spawned when the grace period is over, before it has the lock.
\<close>

datatype shutdown_pc =
    LockWait
  | Taken bool
  | PumpWait
  | PumpsEnded
  | FinalizeCall
  | Unwrapping
  | Finalizing
  | BgWait
  | BgLock

fun holds_core :: "shutdown_pc \<Rightarrow> bool" where
  "holds_core LockWait = False"
| "holds_core BgWait = False"
| "holds_core BgLock = False"
| "holds_core _ = True"

record WorkerEntry =
  wstate :: WorkerState
  live_pumps :: nat
  pumps :: "TaskKind \<Rightarrow> pump_pc"
  abort_handles :: "TaskKind list"
  inflight :: nat
  shutdowns :: "nat \<rightharpoonup> shutdown_pc"
  initiated :: bool
  core_finalized :: bool
  ever_started :: bool
  returned_ok :: "nat set"
  returned_err :: "nat set"

definition WorkerEntry_new :: WorkerEntry where
  "WorkerEntry_new = \<lparr>wstate = Running False, live_pumps = 0, pumps = (\<lambda>_. NoPump), abort_handles = [],
     inflight = 0, shutdowns = Map.empty, initiated = False, core_finalized = False, ever_started = False,
     returned_ok = {}, returned_err = {}\<rparr>"

definition core_of :: "WorkerEntry \<Rightarrow> unit KtResult" where
  "core_of w = (case wstate w of Finalized \<Rightarrow> Err WorkerShutDown | _ \<Rightarrow> Ok ())"

definition start :: "WorkerEntry \<Rightarrow> unit KtResult \<times> WorkerEntry" where
  "start w = (case wstate w of
      Running True \<Rightarrow> (Ok (), w)
    | Running False \<Rightarrow>
        (Ok (), w\<lparr>wstate := Running True, live_pumps := 3, pumps := (\<lambda>_. Pumping),
                  abort_handles := abort_handles w @ [WorkflowActivation, Activity, Nexus],
                  ever_started := True\<rparr>)
    | _ \<Rightarrow> (Err WorkerShutDown, w))"

text \<open>
  \<^verbatim>\<open>free\<close>: the pumps whose abort handles were recorded are told to stop; each then drops its core
  and leaves the count in its own time (\<open>worker_pump_ends\<close>).
\<close>

definition worker_free :: "WorkerEntry \<Rightarrow> WorkerEntry" where
  "worker_free w =
     w\<lparr>wstate := Finalized, abort_handles := [], initiated := initiated w \<or> wstate w \<noteq> Finalized\<rparr>"

text \<open>
  Core's answers to a completion and to a heartbeat, and the protobuf decoders of the four messages;
  none of them is under this repository.
\<close>

record ('wf, 'act, 'nexus, 'hb) core_api =
  decode_activation_completion :: "u8 list \<Rightarrow> ('wf, string) outcome"
  decode_activity_completion :: "u8 list \<Rightarrow> ('act, string) outcome"
  decode_nexus_completion :: "u8 list \<Rightarrow> ('nexus, string) outcome"
  decode_heartbeat :: "u8 list \<Rightarrow> ('hb, string) outcome"
  complete_workflow_activation :: "'wf \<Rightarrow> (unit, string) outcome"
  complete_activity_task :: "'act \<Rightarrow> (unit, string) outcome"
  complete_nexus_task :: "'nexus \<Rightarrow> (unit, string) outcome"
  record_activity_heartbeat :: "'hb \<Rightarrow> panic_payload option"

definition complete :: "('wf, 'act, 'nexus, 'hb) core_api \<Rightarrow> u32 \<Rightarrow> u8 list \<Rightarrow> (unit, string) outcome" where
  "complete api task_kind b =
    (if task_kind = 0 then and_then (decode_activation_completion api b) (complete_workflow_activation api)
     else if task_kind = 1 then and_then (decode_activity_completion api b) (complete_activity_task api)
     else if task_kind = 2 then and_then (decode_nexus_completion api b) (complete_nexus_task api)
     else Err (''unknown task kind '' @ decimal (unat task_kind)))"

text \<open>
  \<^verbatim>\<open>record_activity_heartbeat\<close> returns nothing; as anything in Core it may panic instead.
\<close>

definition heartbeat :: "('wf, 'act, 'nexus, 'hb) core_api \<Rightarrow> u8 list \<Rightarrow> unit KtResult" where
  "heartbeat api b = (case decode_heartbeat api b of
      Ok message \<Rightarrow> (case record_activity_heartbeat api message of None \<Rightarrow> Ok () | Some p \<Rightarrow> Panicked p)
    | Err e \<Rightarrow> Err (KtError_from_decode e)
    | Panicked p \<Rightarrow> Panicked p)"

text \<open>A call past \<^verbatim>\<open>Arc::try_unwrap\<close> owns the core itself, and no shared reference is left.\<close>

definition call_refs :: "shutdown_pc option \<Rightarrow> nat" where
  "call_refs x = (case x of Some pc \<Rightarrow> (if holds_core pc \<and> pc \<noteq> Finalizing then 1 else 0) | None \<Rightarrow> 0)"

definition pump_refs :: "WorkerEntry \<Rightarrow> nat" where
  "pump_refs w = length (filter (\<lambda>k. pumps w k = Pumping) [WorkflowActivation, Activity, Nexus])"

definition core_refs :: "WorkerEntry \<Rightarrow> nat" where
  "core_refs w = (if wstate w = Finalized then 0 else 1) + pump_refs w + inflight w +
     dom_sum call_refs (shutdowns w)"

text \<open>The async lock is free when no shutdown is past acquiring it; those are the ones with a core.\<close>

definition lock_free :: "WorkerEntry \<Rightarrow> bool" where
  "lock_free w \<longleftrightarrow> (\<forall>t pc. shutdowns w t = Some pc \<longrightarrow> \<not> holds_core pc)"

definition go :: "nat \<Rightarrow> shutdown_pc \<Rightarrow> WorkerEntry \<Rightarrow> WorkerEntry" where
  "go t pc w = w\<lparr>shutdowns := (shutdowns w)(t \<mapsto> pc)\<rparr>"

definition return_ok :: "nat \<Rightarrow> WorkerEntry \<Rightarrow> WorkerEntry" where
  "return_ok t w = w\<lparr>shutdowns := (shutdowns w)(t := None), returned_ok := insert t (returned_ok w)\<rparr>"

definition return_err :: "nat \<Rightarrow> WorkerEntry \<Rightarrow> WorkerEntry" where
  "return_err t w = w\<lparr>shutdowns := (shutdowns w)(t := None), returned_err := insert t (returned_err w)\<rparr>"

text \<open>The first critical section of \<^verbatim>\<open>shutdown\<close>, with the lock just acquired.\<close>

definition shutdown_take :: "nat \<Rightarrow> WorkerEntry \<Rightarrow> WorkerEntry" where
  "shutdown_take t w = (case wstate w of
      Running started \<Rightarrow> go t (Taken started) (w\<lparr>wstate := Draining\<rparr>)
    | Draining \<Rightarrow> go t (Taken True) w
    | Finalized \<Rightarrow> return_ok t w)"

text \<open>From \<^verbatim>\<open>initiate_shutdown\<close> to the loop on the pumps, or to the return if they never started.\<close>

definition shutdown_initiate :: "nat \<Rightarrow> bool \<Rightarrow> WorkerEntry \<Rightarrow> WorkerEntry" where
  "shutdown_initiate t started w =
     (if started then go t PumpWait (w\<lparr>initiated := True\<rparr>)
      else return_ok t (w\<lparr>initiated := True, wstate := Finalized\<rparr>))"

text \<open>
  What the shutdown calls and their background tasks do by themselves; \<open>core_finalized\<close> records that
  \<^verbatim>\<open>finalize_shutdown\<close> was called.
\<close>

inductive shutdown_progress :: "WorkerEntry \<Rightarrow> WorkerEntry \<Rightarrow> bool" where
  shutdown_locked:
    "shutdowns w t = Some LockWait \<Longrightarrow> lock_free w \<Longrightarrow> shutdown_progress w (shutdown_take t w)"
| shutdown_initiated:
    "shutdowns w t = Some (Taken started) \<Longrightarrow> shutdown_progress w (shutdown_initiate t started w)"
| shutdown_pumps_ended:
    "shutdowns w t = Some PumpWait \<Longrightarrow> live_pumps w = 0 \<Longrightarrow> shutdown_progress w (go t PumpsEnded w)"
| shutdown_grace_over:
    "shutdowns w t = Some PumpWait \<Longrightarrow> 0 < live_pumps w \<Longrightarrow> shutdowns w b = None \<Longrightarrow>
     shutdown_progress w (go b BgWait (return_err t w))"
| shutdown_already_freed:
    "shutdowns w t = Some PumpsEnded \<Longrightarrow> wstate w = Finalized \<Longrightarrow> shutdown_progress w (return_ok t w)"
| shutdown_finalizes:
    "shutdowns w t = Some PumpsEnded \<Longrightarrow> wstate w \<noteq> Finalized \<Longrightarrow> shutdown_progress w (go t FinalizeCall w)"
| finalize_begins:
    "shutdowns w t = Some FinalizeCall \<Longrightarrow> shutdown_progress w (go t Unwrapping (w\<lparr>wstate := Finalized\<rparr>))"
| finalize_unwraps:
    "shutdowns w t = Some Unwrapping \<Longrightarrow> core_refs w = 1 \<Longrightarrow>
     shutdown_progress w (go t Finalizing (w\<lparr>core_finalized := True\<rparr>))"
| finalize_gives_up:
    "shutdowns w t = Some Unwrapping \<Longrightarrow> core_refs w \<noteq> 1 \<Longrightarrow>
     shutdown_progress w (return_err t (w\<lparr>wstate := Draining\<rparr>))"
| background_pumps_ended:
    "shutdowns w t = Some BgWait \<Longrightarrow> live_pumps w = 0 \<Longrightarrow> shutdown_progress w (go t BgLock w)"
| background_locked:
    "shutdowns w t = Some BgLock \<Longrightarrow> lock_free w \<Longrightarrow>
     shutdown_progress w (case core_of w of Ok _ \<Rightarrow> go t FinalizeCall w | _ \<Rightarrow> return_ok t w)"

text \<open>Core's \<^verbatim>\<open>finalize_shutdown\<close> returns, which nothing in this repository makes it do.\<close>

inductive core_answers :: "WorkerEntry \<Rightarrow> WorkerEntry \<Rightarrow> bool" where
  core_finalizes: "shutdowns w t = Some Finalizing \<Longrightarrow> core_answers w (return_ok t w)"

text \<open>
  Everything that can happen to a worker: the other entry points, calls that hold the core, the
  pumps, which tell Core to shut down when a poll fails, and the cancellation of a shutdown request
  while it waits, in Core's \<^verbatim>\<open>finalize_shutdown\<close> too.
\<close>

inductive worker_step :: "WorkerEntry \<Rightarrow> WorkerEntry \<Rightarrow> bool" where
  worker_start: "start w = (r, w') \<Longrightarrow> worker_step w w'"
| worker_freed: "worker_step w (worker_free w)"
| worker_initiate: "core_of w = Ok () \<Longrightarrow> worker_step w (w\<lparr>initiated := True\<rparr>)"
| worker_pump_initiates: "pumps w k = Pumping \<Longrightarrow> worker_step w (w\<lparr>initiated := True\<rparr>)"
| worker_call: "core_of w = Ok () \<Longrightarrow> worker_step w (w\<lparr>inflight := inflight w + 1\<rparr>)"
| worker_call_done: "0 < inflight w \<Longrightarrow> worker_step w (w\<lparr>inflight := inflight w - 1\<rparr>)"
| worker_pump_ends:
    "pumps w k = Pumping \<Longrightarrow> worker_step w (w\<lparr>pumps := (pumps w)(k := CoreDropped)\<rparr>)"
| worker_pump_leaves:
    "pumps w k = CoreDropped \<Longrightarrow>
     worker_step w (w\<lparr>pumps := (pumps w)(k := Gone), live_pumps := live_pumps w - 1\<rparr>)"
| shutdown_called: "shutdowns w t = None \<Longrightarrow> worker_step w (go t LockWait w)"
| worker_shutdown: "shutdown_progress w w' \<Longrightarrow> worker_step w w'"
| worker_core_answers: "core_answers w w' \<Longrightarrow> worker_step w w'"
| shutdown_cancelled:
    "shutdowns w t = Some pc \<Longrightarrow> pc \<in> {LockWait, PumpWait, Unwrapping, Finalizing} \<Longrightarrow>
     worker_step w (w\<lparr>shutdowns := (shutdowns w)(t := None)\<rparr>)"

definition worker_init :: "WorkerEntry \<Rightarrow> bool" where
  "worker_init w \<longleftrightarrow> w = WorkerEntry_new"

section \<open>Invariants\<close>

definition kinds :: "TaskKind list" where
  "kinds = [WorkflowActivation, Activity, Nexus]"

lemma all_kinds: "(\<forall>k. P k) \<longleftrightarrow> P WorkflowActivation \<and> P Activity \<and> P Nexus"
  by (metis TaskKind.exhaust)

definition one_holder :: "WorkerEntry \<Rightarrow> bool" where
  "one_holder w \<longleftrightarrow> finite (dom (shutdowns w)) \<and>
     (\<forall>t u pc pc'. shutdowns w t = Some pc \<longrightarrow> shutdowns w u = Some pc' \<longrightarrow> holds_core pc \<longrightarrow> holds_core pc' \<longrightarrow> t = u)"

definition pumps_counted :: "WorkerEntry \<Rightarrow> bool" where
  "pumps_counted w \<longleftrightarrow>
     live_pumps w = length (filter (\<lambda>k. pumps w k = Pumping \<or> pumps w k = CoreDropped) kinds) \<and>
     (\<forall>k. pumps w k \<noteq> NoPump \<longleftrightarrow> ever_started w) \<and>
     (\<forall>s. wstate w = Running s \<longrightarrow> s = ever_started w)"

text \<open>Which calls there can be before the pumps were started, and while they still run.\<close>

definition calls_consistent :: "WorkerEntry \<Rightarrow> bool" where
  "calls_consistent w \<longleftrightarrow>
     (\<forall>t pc. shutdowns w t = Some pc \<longrightarrow>
        (pc = Taken False \<longrightarrow> \<not> ever_started w) \<and>
        (pc \<noteq> LockWait \<and> pc \<noteq> Taken False \<longrightarrow> ever_started w) \<and>
        (pc \<noteq> LockWait \<longrightarrow> (\<forall>s. wstate w \<noteq> Running s)) \<and>
        (pc \<in> {PumpsEnded, FinalizeCall, Unwrapping, Finalizing, BgLock} \<longrightarrow> live_pumps w = 0)) \<and>
     (wstate w = Draining \<longrightarrow> ever_started w \<or> (\<exists>t. shutdowns w t = Some (Taken False)))"

definition finalized_alone :: "WorkerEntry \<Rightarrow> bool" where
  "finalized_alone w \<longleftrightarrow> (\<forall>t. shutdowns w t = Some Finalizing \<longrightarrow> core_finalized w) \<and> (core_finalized w \<longrightarrow>
     wstate w = Finalized \<and> (\<forall>k. pumps w k \<noteq> Pumping) \<and> inflight w = 0 \<and>
     (\<forall>t pc. shutdowns w t = Some pc \<and> holds_core pc \<longrightarrow> pc = Finalizing) \<and>
     ever_started w \<and> live_pumps w = 0)"

lemmas worker_step_defs = go_def return_ok_def return_err_def shutdown_take_def shutdown_initiate_def
  worker_free_def start_def core_of_def

lemma one_holder_progress: "shutdown_progress w w' \<Longrightarrow> one_holder w \<Longrightarrow> one_holder w'"
proof (induction rule: shutdown_progress.induct)
  case (shutdown_locked w t)
  then show ?case
    by (auto simp: one_holder_def lock_free_def shutdown_take_def go_def return_ok_def
        split: WorkerState.splits if_splits)
next
  case (background_locked w t)
  then show ?case
    by (auto simp: one_holder_def lock_free_def core_of_def go_def return_ok_def
        split: WorkerState.splits if_splits)
qed (auto simp: one_holder_def worker_free_def go_def return_ok_def return_err_def shutdown_initiate_def
    split: if_splits)

lemma one_holder_answers: "core_answers w w' \<Longrightarrow> one_holder w \<Longrightarrow> one_holder w'"
  by (induction rule: core_answers.induct) (auto simp: one_holder_def return_ok_def)

lemma one_holder_step: "worker_step w w' \<Longrightarrow> one_holder w \<Longrightarrow> one_holder w'"
proof (induction rule: worker_step.induct)
  case (worker_start w r w')
  then show ?case by (auto simp: start_def one_holder_def split: WorkerState.splits bool.splits)
next
  case (worker_shutdown w w')
  then show ?case by (rule one_holder_progress)
next
  case (worker_core_answers w w')
  then show ?case by (rule one_holder_answers)
qed (auto simp: one_holder_def worker_free_def go_def return_ok_def return_err_def shutdown_initiate_def
    split: if_splits)

lemma pumps_counted_progress: "shutdown_progress w w' \<Longrightarrow> pumps_counted w \<Longrightarrow> pumps_counted w'"
proof (induction rule: shutdown_progress.induct)
  case (shutdown_locked w t)
  then show ?case
    by (auto simp: pumps_counted_def shutdown_take_def go_def return_ok_def split: WorkerState.splits)
next
  case (background_locked w t)
  then show ?case
    by (auto simp: pumps_counted_def core_of_def go_def return_ok_def split: WorkerState.splits)
qed (auto simp: pumps_counted_def worker_free_def go_def return_ok_def return_err_def shutdown_initiate_def)

lemma pumps_counted_step: "worker_step w w' \<Longrightarrow> pumps_counted w \<Longrightarrow> pumps_counted w'"
proof (induction rule: worker_step.induct)
  case (worker_start w r w')
  show ?case
  proof (cases "wstate w = Running False")
    case True
    with worker_start.hyps show ?thesis by (auto simp: start_def pumps_counted_def kinds_def)
  next
    case False
    with worker_start have "w' = w" by (auto simp: start_def split: WorkerState.splits bool.splits)
    with worker_start.prems show ?thesis by simp
  qed
next
  case (worker_pump_ends w k)
  then have "ever_started w" by (metis pumps_counted_def pump_pc.distinct(1,3))
  with worker_pump_ends show ?case by (cases k) (auto simp: pumps_counted_def kinds_def)
next
  case (worker_pump_leaves w k)
  then have "ever_started w" by (metis pumps_counted_def pump_pc.distinct(1,3))
  with worker_pump_leaves show ?case by (cases k) (auto simp: pumps_counted_def kinds_def)
next
  case (worker_shutdown w w')
  then show ?case by (rule pumps_counted_progress)
next
  case (worker_core_answers w w')
  then show ?case by (induction rule: core_answers.induct) (simp add: pumps_counted_def return_ok_def)
qed (auto simp: pumps_counted_def worker_free_def go_def return_ok_def return_err_def shutdown_initiate_def)

text \<open>Moving or removing one call keeps the rest consistent.\<close>

lemma calls_consistent_go:
  assumes "calls_consistent w" and "wstate w' = wstate w \<or> wstate w' = Finalized \<or> (wstate w' = Draining \<and> ever_started w)"
    and "ever_started w' = ever_started w" and "live_pumps w' = live_pumps w"
    and "shutdowns w' = (shutdowns w)(t := x)"
    and "\<And>pc. x = Some pc \<Longrightarrow>
        (pc = Taken False \<longrightarrow> \<not> ever_started w) \<and>
        (pc \<noteq> LockWait \<and> pc \<noteq> Taken False \<longrightarrow> ever_started w) \<and>
        (pc \<noteq> LockWait \<longrightarrow> (\<forall>s. wstate w' \<noteq> Running s)) \<and>
        (pc \<in> {PumpsEnded, FinalizeCall, Unwrapping, Finalizing, BgLock} \<longrightarrow> live_pumps w = 0)"
    and "wstate w' \<noteq> Draining \<or> ever_started w \<or> x = Some (Taken False) \<or> shutdowns w t \<noteq> Some (Taken False)"
  shows "calls_consistent w'"
  unfolding calls_consistent_def
proof (intro conjI allI impI)
  fix u pc
  assume u: "shutdowns w' u = Some pc"
  have old: "u \<noteq> t \<Longrightarrow> shutdowns w u = Some pc" using u assms(5) by simp
  show "pc = Taken False \<Longrightarrow> \<not> ever_started w'"
    using assms(1,3,5,6) u old unfolding calls_consistent_def by (cases "u = t") auto
  show "pc \<noteq> LockWait \<and> pc \<noteq> Taken False \<Longrightarrow> ever_started w'"
    using assms(1,3,5,6) u old unfolding calls_consistent_def by (cases "u = t") auto
  show "wstate w' \<noteq> Running s" if "pc \<noteq> LockWait" for s
    using assms(1,2,5,6) u old that unfolding calls_consistent_def by (cases "u = t") auto
  show "pc \<in> {PumpsEnded, FinalizeCall, Unwrapping, Finalizing, BgLock} \<Longrightarrow> live_pumps w' = 0"
    using assms(1,4,5,6) u old unfolding calls_consistent_def by (cases "u = t") auto
next
  assume d: "wstate w' = Draining"
  show "ever_started w' \<or> (\<exists>t. shutdowns w' t = Some (Taken False))"
  proof (cases "ever_started w")
    case False
    with d assms(2) have "wstate w = Draining" by auto
    with assms(1) False obtain u where u: "shutdowns w u = Some (Taken False)"
      unfolding calls_consistent_def by auto
    from assms(7) d False have "x = Some (Taken False) \<or> u \<noteq> t" using u by auto
    then show ?thesis using u assms(5) by (metis fun_upd_apply)
  qed (simp add: assms(3))
qed

lemma calls_consistent_progress:
  assumes "shutdown_progress w w'" and "calls_consistent w" and "pumps_counted w" and "one_holder w"
  shows "calls_consistent w'"
  using assms
proof (induction rule: shutdown_progress.induct)
  case (shutdown_locked w t)
  show ?case
  proof (cases "wstate w")
    case (Running s)
    then have s: "s = ever_started w" using shutdown_locked.prems(2) by (auto simp: pumps_counted_def)
    have "calls_consistent (w\<lparr>wstate := Draining, shutdowns := (shutdowns w)(t \<mapsto> Taken s)\<rparr>)"
      using shutdown_locked s unfolding calls_consistent_def by (auto split: if_splits)
    then show ?thesis by (simp add: Running shutdown_take_def go_def)
  next
    case Draining
    then have "ever_started w"
      using shutdown_locked.prems(1) shutdown_locked.hyps(2) unfolding calls_consistent_def lock_free_def
      by fastforce
    then show ?thesis
      using shutdown_locked Draining
      by - (rule calls_consistent_go [of w _ t "Some (Taken True)"], auto simp: shutdown_take_def go_def)
  next
    case Finalized
    then show ?thesis
      using shutdown_locked
      by - (rule calls_consistent_go [of w _ t None], auto simp: shutdown_take_def return_ok_def)
  qed
next
  case (shutdown_initiated w t started)
  then show ?case
    by - (rule calls_consistent_go [of w _ t "if started then Some PumpWait else None"],
      auto simp: shutdown_initiate_def go_def return_ok_def calls_consistent_def)
next
  case (shutdown_pumps_ended w t)
  then show ?case
    by - (rule calls_consistent_go [of w _ t "Some PumpsEnded"], auto simp: go_def calls_consistent_def)
next
  case (shutdown_grace_over w t b)
  then have e: "ever_started w" "\<And>s. wstate w \<noteq> Running s" by (auto simp: calls_consistent_def)
  have "calls_consistent (return_err t w)"
    using shutdown_grace_over e
    by - (rule calls_consistent_go [of w _ t None], auto simp: return_err_def)
  then show ?case
    using e by - (rule calls_consistent_go [of "return_err t w" _ b "Some BgWait"], auto simp: go_def return_err_def)
next
  case (shutdown_already_freed w t)
  then show ?case by - (rule calls_consistent_go [of w _ t None], auto simp: return_ok_def)
next
  case (shutdown_finalizes w t)
  then show ?case
    by - (rule calls_consistent_go [of w _ t "Some FinalizeCall"], auto simp: go_def calls_consistent_def)
next
  case (finalize_begins w t)
  then show ?case
    by - (rule calls_consistent_go [of w _ t "Some Unwrapping"], auto simp: go_def calls_consistent_def)
next
  case (finalize_unwraps w t)
  then show ?case
    by - (rule calls_consistent_go [of w _ t "Some Finalizing"], auto simp: go_def calls_consistent_def)
next
  case (finalize_gives_up w t)
  then show ?case
    by - (rule calls_consistent_go [of w _ t None], auto simp: return_err_def calls_consistent_def)
next
  case (background_pumps_ended w t)
  then show ?case
    by - (rule calls_consistent_go [of w _ t "Some BgLock"], auto simp: go_def calls_consistent_def)
next
  case (background_locked w t)
  show ?case
  proof (cases "wstate w = Finalized")
    case True
    then show ?thesis
      using background_locked by - (rule calls_consistent_go [of w _ t None], auto simp: return_ok_def core_of_def)
  next
    case False
    have e: "ever_started w" "live_pumps w = 0" using background_locked by (auto simp: calls_consistent_def)
    have "wstate w \<noteq> Running s" for s using background_locked by (auto simp: calls_consistent_def)
    then show ?thesis
      using background_locked False e
      by - (rule calls_consistent_go [of w _ t "Some FinalizeCall"],
        auto simp: go_def core_of_def split: WorkerState.splits)
  qed
qed

lemma calls_consistent_step:
  assumes "worker_step w w'" and "calls_consistent w" and "pumps_counted w" and "one_holder w"
  shows "calls_consistent w'"
  using assms
proof (induction rule: worker_step.induct)
  case (worker_start w r w')
  show ?case
  proof (cases "wstate w = Running False")
    case True
    with worker_start.prems(1) have only: "shutdowns w t = Some pc \<Longrightarrow> pc = LockWait" for t pc
      unfolding calls_consistent_def by blast
    with True worker_start.hyps show ?thesis by (auto simp: calls_consistent_def start_def dest!: only)
  next
    case False
    with worker_start have "w' = w" by (auto simp: start_def split: WorkerState.splits bool.splits)
    with worker_start.prems show ?thesis by simp
  qed
next
  case (worker_freed w)
  then show ?case by (auto simp: calls_consistent_def worker_free_def)
next
  case (worker_pump_leaves w k)
  then show ?case by (auto simp: calls_consistent_def)
next
  case (shutdown_called w t)
  then show ?case by - (rule calls_consistent_go [of w _ t "Some LockWait"], auto simp: go_def)
next
  case (shutdown_cancelled w t pc)
  then show ?case by - (rule calls_consistent_go [of w _ t None], auto)
next
  case (worker_shutdown w w')
  then show ?case by (rule calls_consistent_progress)
next
  case (worker_core_answers w w')
  then show ?case
  proof (induction rule: core_answers.induct)
    case (core_finalizes w t)
    then show ?case by - (rule calls_consistent_go [of w _ t None], auto simp: return_ok_def)
  qed
qed (auto simp: calls_consistent_def)

lemma sole_reference:
  assumes "finite (dom (shutdowns w))" and "shutdowns w t = Some pc" and "holds_core pc" and "pc \<noteq> Finalizing" and "core_refs w = 1"
  shows "wstate w = Finalized \<and> (\<forall>k. pumps w k \<noteq> Pumping) \<and> inflight w = 0"
proof -
  from dom_sum_split [of "shutdowns w" call_refs t] assms(1-4) have "1 \<le> dom_sum call_refs (shutdowns w)"
    by (simp add: call_refs_def)
  with assms(5) have "wstate w = Finalized" "pump_refs w = 0" "inflight w = 0"
    by (auto simp: core_refs_def split: if_splits)
  moreover have "\<forall>k. pumps w k \<noteq> Pumping"
    using \<open>pump_refs w = 0\<close> by (simp add: all_kinds pump_refs_def split: if_splits)
  ultimately show ?thesis by simp
qed

lemma finalized_alone_progress:
  assumes "shutdown_progress w w'" and "finalized_alone w" and "one_holder w" and "calls_consistent w"
  shows "finalized_alone w'"
  using assms
proof (induction rule: shutdown_progress.induct)
  case (shutdown_locked w t)
  then show ?case
    by (auto simp: finalized_alone_def lock_free_def shutdown_take_def go_def return_ok_def
        split: WorkerState.splits)
next
  case (finalize_unwraps w t)
  have "finite (dom (shutdowns w))" using finalize_unwraps.prems(2) by (simp add: one_holder_def)
  from sole_reference [OF this finalize_unwraps.hyps(1) _ _ finalize_unwraps.hyps(2)]
  have "wstate w = Finalized" "\<forall>k. pumps w k \<noteq> Pumping" "inflight w = 0" by auto
  moreover have "\<forall>u pc. u \<noteq> t \<and> shutdowns w u = Some pc \<longrightarrow> \<not> holds_core pc"
    using finalize_unwraps.prems(2) finalize_unwraps.hyps(1) unfolding one_holder_def by fastforce
  moreover have "ever_started w" "live_pumps w = 0"
    using finalize_unwraps.prems(3) finalize_unwraps.hyps(1) by (auto simp: calls_consistent_def)
  ultimately show ?case by (auto simp: finalized_alone_def go_def)
next
  case (background_locked w t)
  then show ?case
    by (auto simp: finalized_alone_def lock_free_def core_of_def go_def return_ok_def
        split: WorkerState.splits)
qed (fastforce simp: finalized_alone_def lock_free_def core_of_def go_def return_ok_def return_err_def
    shutdown_initiate_def worker_free_def split: if_splits)+

lemma finalized_alone_step:
  assumes "worker_step w w'" and "finalized_alone w" and "one_holder w" and "calls_consistent w"
  shows "finalized_alone w'"
  using assms
proof (induction rule: worker_step.induct)
  case (worker_start w r w')
  then show ?case
    by (auto simp: finalized_alone_def start_def split: WorkerState.splits bool.splits)
next
  case (worker_pump_ends w k)
  then show ?case by (auto simp: finalized_alone_def)
next
  case (worker_pump_leaves w k)
  then show ?case by (auto simp: finalized_alone_def lock_free_def)
next
  case (worker_shutdown w w')
  then show ?case by (rule finalized_alone_progress)
next
  case (worker_core_answers w w')
  then show ?case by (induction rule: core_answers.induct) (auto simp: finalized_alone_def return_ok_def split: if_splits)
qed (fastforce simp: finalized_alone_def lock_free_def core_of_def go_def return_ok_def return_err_def
    shutdown_initiate_def worker_free_def split: if_splits)+

definition worker_inv :: "WorkerEntry \<Rightarrow> bool" where
  "worker_inv w \<longleftrightarrow> one_holder w \<and> pumps_counted w \<and> calls_consistent w \<and> finalized_alone w"

interpretation wk: invariant_system worker_init worker_step worker_inv
proof unfold_locales
  show "worker_inv w" if "worker_init w" for w
    using that by (auto simp: worker_init_def WorkerEntry_new_def worker_inv_def one_holder_def
        pumps_counted_def kinds_def calls_consistent_def finalized_alone_def)
  show "worker_inv w'" if "worker_inv w" "worker_step w w'" for w w'
    using that one_holder_step pumps_counted_step calls_consistent_step finalized_alone_step
    unfolding worker_inv_def by blast
qed

section \<open>What a poll loop promises\<close>

fun ends :: "poll_result \<Rightarrow> bool" where
  "ends PollShutDown = True"
| "ends (PollPanic _) = True"
| "ends PollAborted = True"
| "ends _ = False"

fun task_bytes :: "poll_result list \<Rightarrow> u8 list list" where
  "task_bytes [] = []"
| "task_bytes (Task b # rs) = b # task_bytes rs"
| "task_bytes (PollError _ # rs) = task_bytes rs"
| "task_bytes (_ # rs) = []"

lemmas event_defs = task_event_def stream_end_def worker_failed_def pushed_event_def pending_defs PUSHED_def

lemma completion_kind_task [simp]:
  "completion_kind k \<noteq> TaskStreamEnd" "completion_kind k \<noteq> WorkerFailed" "completion_kind k \<noteq> ClientConnected"
  "completion_kind k \<noteq> EphemeralStarted" "TaskStreamEnd \<noteq> completion_kind k" "WorkerFailed \<noteq> completion_kind k"
  by (cases k; simp)+

lemma pump_pushed_events:
  "p \<in> set (pushed (pump h k reported rs)) \<Longrightarrow>
    req_id p = PUSHED \<and> aux0 p = h \<and> aux1 p = TaskKind_u64 k \<and> kind p \<noteq> ClientConnected \<and> kind p \<noteq> EphemeralStarted"
  by (induction h k reported rs rule: pump.induct) (auto simp: event_defs Let_def split: if_splits)

lemma pump_stream_end:
  "filter (\<lambda>p. kind p = TaskStreamEnd) (pushed (pump h k reported rs)) =
     (if find ends rs \<in> {None, Some PollAborted} then [] else [stream_end h k]) \<and>
   (find ends rs \<notin> {None, Some PollAborted} \<longrightarrow> pushed (pump h k reported rs) \<noteq> [] \<and>
      last (pushed (pump h k reported rs)) = stream_end h k)"
  by (induction h k reported rs rule: pump.induct) (auto simp: event_defs Let_def)

lemma pump_exits: "exited (pump h k reported rs) \<longleftrightarrow> find ends rs \<noteq> None"
  by (induction h k reported rs rule: pump.induct) (auto simp: Let_def)

lemma pump_tasks:
  "filter (\<lambda>p. kind p = completion_kind k) (pushed (pump h k reported rs)) = map (task_event h k) (task_bytes rs)"
  by (induction h k reported rs rule: pump.induct) (auto simp: event_defs Let_def)

lemma pump_failures:
  "length (filter (\<lambda>p. kind p = WorkerFailed \<and> status p = KT_ERR_FAILED) (pushed (pump h k reported rs)))
     \<le> (if reported then 0 else 1) \<and>
   length (filter (\<lambda>p. kind p = WorkerFailed) (pushed (pump h k reported rs))) = initiations (pump h k reported rs)"
  by (induction h k reported rs rule: pump.induct)
    (auto simp: event_defs Let_def KT_ERR_FAILED_def KT_ERR_PANIC_def)



section \<open>What the life cycle promises\<close>

text \<open>A concrete life: started, all pumps end, one shutdown runs to its end.\<close>

lemma pump_stops:
  assumes "runs worker_init worker_step w" and "pumps w k = Pumping"
  shows "runs worker_init worker_step (w\<lparr>pumps := (pumps w)(k := Gone), live_pumps := live_pumps w - 1\<rparr>)"
proof -
  let ?w = "w\<lparr>pumps := (pumps w)(k := CoreDropped)\<rparr>"
  have "runs worker_init worker_step ?w" by (rule runs_step [OF assms(1) worker_pump_ends [of w k, OF assms(2)]])
  moreover have "worker_step ?w (w\<lparr>pumps := (pumps w)(k := Gone), live_pumps := live_pumps w - 1\<rparr>)"
    using worker_pump_leaves [of ?w k] by simp
  ultimately show ?thesis by (rule runs_step)
qed

definition demo_stopped :: WorkerEntry where
  "demo_stopped = (snd (start WorkerEntry_new))\<lparr>pumps := (\<lambda>_. Gone), live_pumps := 0\<rparr>"

lemma demo_stopped_run: "runs worker_init worker_step demo_stopped"
proof -
  let ?s = "snd (start WorkerEntry_new)"
  have 0: "runs worker_init worker_step WorkerEntry_new" by (rule runs_init) (simp add: worker_init_def)
  have 1: "runs worker_init worker_step ?s" by (rule runs_step [OF 0 worker_start]) (rule prod.collapse [symmetric])
  have p: "pumps ?s = (\<lambda>_. Pumping)" "live_pumps ?s = 3" by (simp_all add: start_def WorkerEntry_new_def)
  have all: "(\<lambda>_. Pumping)(WorkflowActivation := Gone, Activity := Gone, Nexus := Gone) = (\<lambda>_. Gone)"
    by (auto simp: fun_eq_iff all_kinds)
  from pump_stops [OF 1, of WorkflowActivation] p
  have "runs worker_init worker_step (?s\<lparr>pumps := (\<lambda>_. Pumping)(WorkflowActivation := Gone), live_pumps := 2\<rparr>)" by simp
  from pump_stops [OF this, of Activity]
  have "runs worker_init worker_step (?s\<lparr>pumps := (\<lambda>_. Pumping)(WorkflowActivation := Gone, Activity := Gone), live_pumps := 1\<rparr>)"
    by simp
  from pump_stops [OF this, of Nexus] show ?thesis by (simp add: demo_stopped_def all)
qed

definition demo_unwrapping :: WorkerEntry where
  "demo_unwrapping = demo_stopped\<lparr>wstate := Finalized, initiated := True, shutdowns := [1 \<mapsto> Unwrapping]\<rparr>"

text \<open>Steps of the shutdown calls that start no background task.\<close>

definition own_progress :: "WorkerEntry \<Rightarrow> WorkerEntry \<Rightarrow> bool" where
  "own_progress e e' \<longleftrightarrow> shutdown_progress e e' \<and> dom (shutdowns e') \<subseteq> dom (shutdowns e)"

lemma demo_unwrapping_path:
  "own_progress\<^sup>*\<^sup>* (demo_stopped\<lparr>shutdowns := [t \<mapsto> LockWait]\<rparr>)
     (demo_stopped\<lparr>wstate := Finalized, initiated := True, shutdowns := [t \<mapsto> Unwrapping]\<rparr>)"
proof -
  let ?w = "\<lambda>st i pc. demo_stopped\<lparr>wstate := st, initiated := i, shutdowns := [t \<mapsto> pc]\<rparr>"
  note defs = own_progress_def demo_stopped_def start_def WorkerEntry_new_def go_def shutdown_take_def shutdown_initiate_def
    lock_free_def
  have "own_progress (?w (Running True) False LockWait) (?w Draining False (Taken True))"
    using shutdown_locked [of "?w (Running True) False LockWait" t] by (simp add: defs)
  moreover have "own_progress (?w Draining False (Taken True)) (?w Draining True PumpWait)"
    using shutdown_initiated [of "?w Draining False (Taken True)" t True] by (simp add: defs)
  moreover have "own_progress (?w Draining True PumpWait) (?w Draining True PumpsEnded)"
    using shutdown_pumps_ended [of "?w Draining True PumpWait" t] by (simp add: defs)
  moreover have "own_progress (?w Draining True PumpsEnded) (?w Draining True FinalizeCall)"
    using shutdown_finalizes [of "?w Draining True PumpsEnded" t] by (simp add: defs)
  moreover have "own_progress (?w Draining True FinalizeCall) (?w Finalized True Unwrapping)"
    using finalize_begins [of "?w Draining True FinalizeCall" t] by (simp add: defs)
  moreover have "demo_stopped\<lparr>shutdowns := [t \<mapsto> LockWait]\<rparr> = ?w (Running True) False LockWait"
    by (simp add: demo_stopped_def start_def WorkerEntry_new_def)
  ultimately show ?thesis by (metis (no_types, lifting) converse_rtranclp_into_rtranclp rtranclp.rtrancl_refl)
qed

lemma demo_unwrapping_run: "runs worker_init worker_step demo_unwrapping"
proof -
  have "shutdowns demo_stopped = Map.empty" by (simp add: demo_stopped_def start_def WorkerEntry_new_def)
  then have "worker_step demo_stopped (demo_stopped\<lparr>shutdowns := [1 \<mapsto> LockWait]\<rparr>)"
    using shutdown_called [of demo_stopped 1] by (simp add: go_def)
  note r = runs_step [OF demo_stopped_run this]
  have "worker_step\<^sup>*\<^sup>* (demo_stopped\<lparr>shutdowns := [1 \<mapsto> LockWait]\<rparr>) demo_unwrapping"
    unfolding demo_unwrapping_def
    by (rule rtranclp_mono [THEN predicate2D, OF _ demo_unwrapping_path]) (auto simp: own_progress_def intro: worker_shutdown)
  then show ?thesis using r by (induction rule: rtranclp_induct) (auto intro: runs_step)
qed

text \<open>C27: Core is finalized last. If \<open>finalize_shutdown\<close> has been called in any interleaving of
  starts, shutdowns (concurrent, cancelled or past their grace period), frees and calls in flight,
  then the worker had been started, all three pumps have dropped Core and left, no call holds it,
  no reference is left at all, and every later access gets \<open>WorkerShutDown\<close>.\<close>

theorem finalize_after_pumps:
  assumes "runs worker_init worker_step w" and "core_finalized w"
  shows "ever_started w \<and> live_pumps w = 0 \<and> (\<forall>k. pumps w k = Gone) \<and> core_refs w = 0 \<and>
    core_of w = Err WorkerShutDown"
proof -
  from wk.runs_inv [OF assms(1)] have inv: "pumps_counted w" "finalized_alone w" by (simp_all add: worker_inv_def)
  with assms(2) have f: "wstate w = Finalized" "\<forall>k. pumps w k \<noteq> Pumping" "inflight w = 0" "ever_started w" "live_pumps w = 0"
    and h: "\<forall>t pc. shutdowns w t = Some pc \<and> holds_core pc \<longrightarrow> pc = Finalizing" by (auto simp: finalized_alone_def)
  have "pumps w k = Gone" for k
    using inv(1) f unfolding pumps_counted_def kinds_def
    by (cases k; cases "pumps w k") (auto split: if_splits)
  moreover have "call_refs (shutdowns w t) = 0" for t
    using h by (auto simp: call_refs_def split: option.splits)
  ultimately show ?thesis
    using f by (simp add: core_refs_def pump_refs_def dom_sum_def core_of_def)
qed

theorem finalize_after_pumps_witness:
  "\<exists>w. runs worker_init worker_step w \<and> core_finalized w \<and> core_of w = Err WorkerShutDown \<and> core_refs w = 0"
proof -
  let ?w = "go 1 Finalizing (demo_unwrapping\<lparr>core_finalized := True\<rparr>)"
  have "core_refs demo_unwrapping = 1"
    by (simp add: core_refs_def pump_refs_def demo_unwrapping_def demo_stopped_def start_def WorkerEntry_new_def
        dom_sum_def call_refs_def)
  then have "worker_step demo_unwrapping ?w"
    by (intro worker_shutdown finalize_unwraps) (simp_all add: demo_unwrapping_def)
  then have r: "runs worker_init worker_step ?w" by (rule runs_step [OF demo_unwrapping_run])
  have "core_finalized ?w" by (simp add: go_def)
  with finalize_after_pumps [OF r this] r show ?thesis by blast
qed

text \<open>The state machine never confuses a worker that was started with one that was not. Whenever
  \<open>shutdown_lock\<close> is free and the state is \<open>Draining\<close>, the pumps were started, so the branch of
  \<open>shutdown\<close> that takes \<open>Draining\<close> for started is right; a second \<open>start\<close> changes nothing; and at most
  one shutdown at a time holds the core.\<close>

theorem draining_means_started:
  assumes "runs worker_init worker_step w"
  shows "(lock_free w \<and> wstate w = Draining \<longrightarrow> ever_started w) \<and>
    snd (start (snd (start w))) = snd (start w) \<and>
    (fst (start w) = Ok () \<longleftrightarrow> (\<exists>s. wstate w = Running s)) \<and>
    (shutdowns w t = Some pc \<and> holds_core pc \<and> shutdowns w u = Some pc' \<and> holds_core pc' \<longrightarrow> t = u)"
proof -
  from wk.runs_inv [OF assms] have inv: "one_holder w" "calls_consistent w" by (simp_all add: worker_inv_def)
  have "lock_free w \<and> wstate w = Draining \<longrightarrow> ever_started w"
    using inv(2) unfolding calls_consistent_def lock_free_def by fastforce
  moreover have "snd (start (snd (start w))) = snd (start w)"
    "fst (start w) = Ok () \<longleftrightarrow> (\<exists>s. wstate w = Running s)"
    by (auto simp: start_def split: WorkerState.splits bool.splits)
  moreover have "shutdowns w t = Some pc \<and> holds_core pc \<and> shutdowns w u = Some pc' \<and> holds_core pc' \<longrightarrow> t = u"
    using inv(1) unfolding one_holder_def by blast
  ultimately show ?thesis by blast
qed

theorem draining_means_started_witness:
  "fst (start demo_unwrapping) \<noteq> Ok () \<and> snd (start (snd (start demo_stopped))) = snd (start demo_stopped)"
proof
  show "fst (start demo_unwrapping) \<noteq> Ok ()"
    using draining_means_started [OF demo_unwrapping_run, of 1 LockWait 1 LockWait, THEN conjunct2, THEN conjunct2,
        THEN conjunct1] by (simp add: demo_unwrapping_def)
  show "snd (start (snd (start demo_stopped))) = snd (start demo_stopped)"
    using draining_means_started [OF demo_stopped_run, of 1 LockWait 1 LockWait] by blast
qed

section \<open>Shutdown calls return\<close>

text \<open>
  What the steps of one shutdown do to the other calls: nothing, except that a grace period that is
  over leaves a background task behind.
\<close>

definition others_kept :: "nat \<Rightarrow> WorkerEntry \<Rightarrow> WorkerEntry \<Rightarrow> bool" where
  "others_kept t w w' \<longleftrightarrow> (\<forall>u. u \<noteq> t \<longrightarrow> shutdowns w' u = shutdowns w u \<or>
     (shutdowns w u = None \<and> shutdowns w' u = Some BgWait))"

definition has_returned :: "nat \<Rightarrow> WorkerEntry \<Rightarrow> bool" where
  "has_returned t w \<longleftrightarrow> shutdowns w t = None \<and> t \<in> returned_ok w \<union> returned_err w"

text \<open>A call has returned, or it is in Core's \<^verbatim>\<open>finalize_shutdown\<close>.\<close>

definition settled :: "nat \<Rightarrow> WorkerEntry \<Rightarrow> bool" where
  "settled t w \<longleftrightarrow> has_returned t w \<or> shutdowns w t = Some Finalizing"

definition returns_from :: "nat \<Rightarrow> WorkerEntry \<Rightarrow> bool" where
  "returns_from t w \<longleftrightarrow> (\<exists>w'. shutdown_progress\<^sup>*\<^sup>* w w' \<and> settled t w' \<and> others_kept t w w')"

lemma returns_from_now:
  "shutdown_progress w w' \<Longrightarrow> settled t w' \<Longrightarrow> others_kept t w w' \<Longrightarrow> returns_from t w"
  unfolding returns_from_def by blast

lemma returns_from_step:
  assumes "shutdown_progress w (go t pc w1)" and "shutdowns w1 = shutdowns w" and "returns_from t (go t pc w1)"
  shows "returns_from t w"
proof -
  from assms(3) obtain w' where "shutdown_progress\<^sup>*\<^sup>* (go t pc w1) w'" "settled t w'" "others_kept t (go t pc w1) w'"
    by (auto simp: returns_from_def)
  then show ?thesis
    using assms(1,2) unfolding returns_from_def others_kept_def
    by (intro exI [of _ w']) (auto simp: go_def intro: converse_rtranclp_into_rtranclp)
qed

lemma unwrapping_returns: "shutdowns w t = Some Unwrapping \<Longrightarrow> returns_from t w"
  using returns_from_now [OF finalize_unwraps, of w t t] returns_from_now [OF finalize_gives_up, of w t t]
  by (cases "core_refs w = 1") (simp_all add: go_def return_err_def others_kept_def settled_def has_returned_def)

lemma finalize_call_returns: "shutdowns w t = Some FinalizeCall \<Longrightarrow> returns_from t w"
  by (rule returns_from_step [OF finalize_begins]) (simp_all add: unwrapping_returns go_def)

lemma pumps_ended_returns:
  assumes "shutdowns w t = Some PumpsEnded"
  shows "returns_from t w"
proof (cases "wstate w = Finalized")
  case True
  show ?thesis
    by (rule returns_from_now [OF shutdown_already_freed [OF assms True]])
      (simp_all add: return_ok_def others_kept_def settled_def has_returned_def)
next
  case False
  show ?thesis
    by (rule returns_from_step [OF shutdown_finalizes [OF assms False]])
      (simp_all add: finalize_call_returns go_def)
qed

lemma pump_wait_returns:
  assumes "finite (dom (shutdowns w))" and "shutdowns w t = Some PumpWait"
  shows "returns_from t w"
proof (cases "live_pumps w = 0")
  case True
  show ?thesis
    by (rule returns_from_step [OF shutdown_pumps_ended [OF assms(2) True]])
      (simp_all add: pumps_ended_returns go_def)
next
  case False
  obtain b where b: "shutdowns w b = None"
    using assms(1) ex_new_if_finite [of "dom (shutdowns w)"] by (auto simp: dom_def)
  then have "b \<noteq> t" using assms(2) by auto
  have "shutdown_progress w (go b BgWait (return_err t w))"
    by (rule shutdown_grace_over [OF assms(2) _ b]) (use False in simp)
  then show ?thesis
    by (rule returns_from_now) (use b \<open>b \<noteq> t\<close> in \<open>simp_all add: go_def return_err_def others_kept_def settled_def has_returned_def\<close>)
qed

lemma taken_returns:
  assumes "finite (dom (shutdowns w))" and "shutdowns w t = Some (Taken started)"
  shows "returns_from t w"
proof (cases started)
  case True
  have "shutdown_progress w (go t PumpWait (w\<lparr>initiated := True\<rparr>))"
    using shutdown_initiated [OF assms(2)] True by (simp add: shutdown_initiate_def)
  moreover have "returns_from t (go t PumpWait (w\<lparr>initiated := True\<rparr>))"
    by (rule pump_wait_returns) (use assms(1) in \<open>simp_all add: go_def\<close>)
  ultimately show ?thesis by - (rule returns_from_step, assumption, simp)
next
  case False
  show ?thesis
    by (rule returns_from_now [OF shutdown_initiated [OF assms(2)]])
      (use False in \<open>simp_all add: shutdown_initiate_def return_ok_def others_kept_def settled_def has_returned_def\<close>)
qed

lemma holder_returns:
  assumes "finite (dom (shutdowns w))" and "shutdowns w t = Some pc" and "holds_core pc"
  shows "returns_from t w"
proof (cases "pc = Finalizing")
  case True
  with assms(2) show ?thesis
    unfolding returns_from_def by (intro exI [of _ w]) (simp add: settled_def others_kept_def)
qed (use assms unwrapping_returns finalize_call_returns pumps_ended_returns pump_wait_returns taken_returns
    in \<open>cases pc; auto\<close>)

lemma shutdown_progress_inv:
  assumes "shutdown_progress\<^sup>*\<^sup>* w w'" and "worker_inv w"
  shows "worker_inv w'"
  using rtranclp_mono [of shutdown_progress worker_step] assms worker_shutdown
  by (blast intro: wk.rtranclp_inv)

lemma waiting_returns:
  assumes "worker_inv w" and "shutdowns w t = Some LockWait" and "lock_free w"
  shows "\<exists>w'. shutdown_progress\<^sup>*\<^sup>* w w' \<and> settled t w'"
proof -
  have s: "shutdown_progress w (shutdown_take t w)" by (rule shutdown_locked [OF assms(2,3)])
  have f: "finite (dom (shutdowns w))" using assms(1) by (simp add: worker_inv_def one_holder_def)
  show ?thesis
  proof (cases "wstate w = Finalized")
    case True
    then have "settled t (shutdown_take t w)" by (simp add: shutdown_take_def return_ok_def settled_def has_returned_def)
    with s show ?thesis by blast
  next
    case False
    then obtain pc where "shutdowns (shutdown_take t w) t = Some pc" "holds_core pc"
      "finite (dom (shutdowns (shutdown_take t w)))"
      using f by (cases "wstate w") (simp_all add: shutdown_take_def go_def)
    from holder_returns [OF this(3,1,2)] s show ?thesis
      unfolding returns_from_def by (meson converse_rtranclp_into_rtranclp)
  qed
qed

text \<open>When the call that holds the lock has returned, the lock is free.\<close>

lemma lock_freed:
  assumes "one_holder w" and "shutdowns w u = Some pc" "holds_core pc" and "shutdowns v u = None" and "others_kept u w v"
  shows "lock_free v"
proof -
  have "\<not> holds_core pc'" if x: "shutdowns v x = Some pc'" for x pc'
  proof -
    have "x \<noteq> u" using x assms(4) by auto
    with assms(5) x have "shutdowns w x = Some pc' \<or> pc' = BgWait" unfolding others_kept_def by force
    then show ?thesis using assms(1-3) \<open>x \<noteq> u\<close> unfolding one_holder_def by auto
  qed
  then show ?thesis by (auto simp: lock_free_def)
qed

text \<open>The call that holds the lock can finish, which frees it, or get as far as Core's \<^verbatim>\<open>finalize_shutdown\<close>.\<close>

lemma lock_released:
  assumes "worker_inv w"
  shows "\<exists>v. shutdown_progress\<^sup>*\<^sup>* w v \<and> (lock_free v \<or> (\<exists>u. shutdowns v u = Some Finalizing)) \<and>
    (\<forall>t. shutdowns w t = Some LockWait \<longrightarrow> shutdowns v t = Some LockWait)"
proof (cases "lock_free w")
  case False
  then obtain u pc where u: "shutdowns w u = Some pc" "holds_core pc" by (auto simp: lock_free_def)
  have oh: "one_holder w" using assms by (simp add: worker_inv_def)
  then have "finite (dom (shutdowns w))" by (simp add: one_holder_def)
  from holder_returns [OF this u] obtain v where
    v: "shutdown_progress\<^sup>*\<^sup>* w v" "settled u v" "others_kept u w v" by (auto simp: returns_from_def)
  from v(2) have "lock_free v \<or> shutdowns v u = Some Finalizing"
    using lock_freed [OF oh u _ v(3)] by (auto simp: settled_def has_returned_def)
  moreover have "shutdowns v t = Some LockWait" if "shutdowns w t = Some LockWait" for t
    using v(3) u that by (cases "t = u") (auto simp: others_kept_def)
  ultimately show ?thesis using v(1) by blast
qed blast

text \<open>The call gets to its return, or it or the call it waits for gets to Core.\<close>

definition in_core :: "nat \<Rightarrow> WorkerEntry \<Rightarrow> bool" where
  "in_core t w \<longleftrightarrow> (\<exists>u. shutdowns w u = Some Finalizing \<and> (u = t \<or> shutdowns w t = Some LockWait))"

lemma call_settles:
  assumes "worker_inv w" and "shutdowns w t = Some pc" and "pc \<noteq> BgWait" and "pc \<noteq> BgLock"
  shows "\<exists>w'. shutdown_progress\<^sup>*\<^sup>* w w' \<and> (has_returned t w' \<or> in_core t w')"
proof (cases "pc = LockWait")
  case True
  with assms(1,2) obtain v where v: "shutdown_progress\<^sup>*\<^sup>* w v" "shutdowns v t = Some LockWait"
    "lock_free v \<or> (\<exists>u. shutdowns v u = Some Finalizing)" using lock_released by blast
  show ?thesis
  proof (cases "lock_free v")
    case True
    from waiting_returns [OF shutdown_progress_inv [OF v(1) assms(1)] v(2) True] obtain w' where
      "shutdown_progress\<^sup>*\<^sup>* v w'" "settled t w'" by blast
    then show ?thesis using rtranclp_trans [OF v(1)] unfolding settled_def in_core_def by blast
  next
    case False
    with v show ?thesis unfolding in_core_def by blast
  qed
next
  case False
  have "finite (dom (shutdowns w))" using assms(1) by (simp add: worker_inv_def one_holder_def)
  moreover have "holds_core pc" using assms(3,4) False by (cases pc) simp_all
  ultimately have "returns_from t w" using holder_returns assms(2) by blast
  then show ?thesis unfolding returns_from_def settled_def in_core_def by blast
qed

abbreviation with_core :: "WorkerEntry \<Rightarrow> WorkerEntry \<Rightarrow> bool" where
  "with_core \<equiv> sup shutdown_progress core_answers"

lemma with_core_progress: "shutdown_progress\<^sup>*\<^sup>* w w' \<Longrightarrow> with_core\<^sup>*\<^sup>* w w'"
  by (rule rtranclp_mono [THEN predicate2D]) auto

lemma settled_returns: "settled t w \<Longrightarrow> \<exists>w'. with_core\<^sup>*\<^sup>* w w' \<and> has_returned t w'"
  using r_into_rtranclp [of with_core w "return_ok t w"] core_finalizes [of w t]
  by (auto simp: settled_def has_returned_def return_ok_def)

text \<open>Once Core answers, the lock is free and the call that waits for it goes on.\<close>

lemma in_core_returns:
  assumes "worker_inv w" and "in_core t w"
  shows "\<exists>w'. with_core\<^sup>*\<^sup>* w w' \<and> has_returned t w'"
proof (cases "shutdowns w t = Some Finalizing")
  case True
  then show ?thesis by (intro settled_returns) (simp add: settled_def)
next
  case False
  with assms(2) obtain u where u: "shutdowns w u = Some Finalizing" and t: "shutdowns w t = Some LockWait"
    unfolding in_core_def by blast
  let ?v = "return_ok u w"
  have a: "core_answers w ?v" by (rule core_finalizes [OF u])
  have inv: "worker_inv ?v" using assms(1) worker_core_answers [OF a] by (rule wk.step_inv)
  have "one_holder w" using assms(1) by (simp add: worker_inv_def)
  from lock_freed [OF this u] have "lock_free ?v" by (simp add: return_ok_def others_kept_def)
  moreover have "shutdowns ?v t = Some LockWait" using t u by (auto simp: return_ok_def)
  ultimately obtain v where v: "shutdown_progress\<^sup>*\<^sup>* ?v v" "settled t v" using waiting_returns inv by blast
  from settled_returns [OF v(2)] obtain w' where "with_core\<^sup>*\<^sup>* v w'" "has_returned t w'" by blast
  with a with_core_progress [OF v(1)] show ?thesis
    by (meson converse_rtranclp_into_rtranclp rtranclp_trans sup2I2)
qed

lemma shutdown_progress_frame:
  "shutdown_progress\<^sup>*\<^sup>* w w' \<Longrightarrow> live_pumps w' = live_pumps w \<and> ever_started w' = ever_started w"
proof (induction rule: rtranclp_induct)
  case (step v w')
  from step.hyps(2) have "live_pumps w' = live_pumps v \<and> ever_started w' = ever_started v"
    by (induction rule: shutdown_progress.induct)
      (simp_all add: worker_step_defs split: WorkerState.split)
  with step.IH show ?case by simp
qed simp

lemma in_core_alone:
  assumes "worker_inv w" and "in_core t w"
  shows "ever_started w \<and> live_pumps w = 0 \<and> inflight w = 0 \<and> wstate w = Finalized \<and> (\<forall>k. pumps w k \<noteq> Pumping)"
  using assms unfolding in_core_def worker_inv_def finalized_alone_def by blast

text \<open>C26: A shutdown call returns, unless Core does not. From every reachable state, the steps of the shutdown
  calls alone can bring a call of \<open>shutdown\<close> that is waiting for \<open>shutdown_lock\<close> or is past it to its return with
  a result, without waiting for a pump, a completion or a reference beyond the grace period, or else to
  Core's \<^verbatim>\<open>finalize_shutdown().await\<close>, its own or that of the call which has the lock. That await is
  reached only by a started worker whose pumps have all left and with nobody else in possession of the core; so a
  call on a worker that was not started, or whose pumps still run, returns without Core. And in every
  case the call returns if Core's \<^verbatim>\<open>finalize_shutdown\<close> does: no wait but that one depends on code outside.\<close>

theorem shutdown_call_returns:
  assumes "runs worker_init worker_step w" and "shutdowns w t = Some pc" and "pc \<noteq> BgWait" and "pc \<noteq> BgLock"
  shows "(\<exists>w'. shutdown_progress\<^sup>*\<^sup>* w w' \<and> (has_returned t w' \<or>
      (\<exists>u. shutdowns w' u = Some Finalizing \<and> (u = t \<or> shutdowns w' t = Some LockWait)) \<and> ever_started w' \<and>
      live_pumps w' = 0 \<and> inflight w' = 0 \<and> wstate w' = Finalized \<and> (\<forall>k. pumps w' k \<noteq> Pumping))) \<and>
    (\<not> ever_started w \<or> 0 < live_pumps w \<longrightarrow> (\<exists>w'. shutdown_progress\<^sup>*\<^sup>* w w' \<and> has_returned t w')) \<and>
    (\<exists>w'. (sup shutdown_progress core_answers)\<^sup>*\<^sup>* w w' \<and> has_returned t w')"
proof -
  have inv: "worker_inv w" by (rule wk.runs_inv [OF assms(1)])
  from call_settles [OF this assms(2-4)] obtain v where
    v: "shutdown_progress\<^sup>*\<^sup>* w v" "has_returned t v \<or> in_core t v" by blast
  note inv' = shutdown_progress_inv [OF v(1) inv]
  have alone: "in_core t v \<Longrightarrow> ever_started v \<and> live_pumps v = 0 \<and> inflight v = 0 \<and> wstate v = Finalized \<and>
      (\<forall>k. pumps v k \<noteq> Pumping)" by (rule in_core_alone [OF inv'])
  have "\<exists>w'. with_core\<^sup>*\<^sup>* v w' \<and> has_returned t w'" using v(2) in_core_returns [OF inv'] by blast
  then have "\<exists>w'. with_core\<^sup>*\<^sup>* w w' \<and> has_returned t w'" using with_core_progress [OF v(1)] by (meson rtranclp_trans)
  moreover have "\<not> ever_started w \<or> 0 < live_pumps w \<longrightarrow> has_returned t v"
    using v(2) alone shutdown_progress_frame [OF v(1)] by auto
  ultimately show ?thesis using v alone unfolding in_core_def by blast
qed

definition demo_draining :: WorkerEntry where
  "demo_draining = (snd (start WorkerEntry_new))\<lparr>shutdowns := [1 \<mapsto> LockWait]\<rparr>"

theorem shutdown_call_returns_witness:
  "(\<exists>w'. (sup shutdown_progress core_answers)\<^sup>*\<^sup>* (go 2 LockWait demo_unwrapping) w' \<and> has_returned 2 w') \<and>
   (\<exists>w'. shutdown_progress\<^sup>*\<^sup>* demo_draining w' \<and> has_returned 1 w')"
proof
  have "runs worker_init worker_step (go 2 LockWait demo_unwrapping)"
    by (rule runs_step [OF demo_unwrapping_run shutdown_called]) (simp add: demo_unwrapping_def)
  from shutdown_call_returns [OF this, of 2 LockWait]
  show "\<exists>w'. (sup shutdown_progress core_answers)\<^sup>*\<^sup>* (go 2 LockWait demo_unwrapping) w' \<and> has_returned 2 w'"
    by (simp add: go_def)
  let ?s = "snd (start WorkerEntry_new)"
  have 0: "runs worker_init worker_step WorkerEntry_new" by (rule runs_init) (simp add: worker_init_def)
  have 1: "runs worker_init worker_step ?s" by (rule runs_step [OF 0 worker_start]) (rule prod.collapse [symmetric])
  have "worker_step ?s demo_draining"
    using shutdown_called [of ?s 1] by (simp add: demo_draining_def start_def WorkerEntry_new_def go_def)
  from shutdown_call_returns [OF runs_step [OF 1 this], of 1 LockWait]
  show "\<exists>w'. shutdown_progress\<^sup>*\<^sup>* demo_draining w' \<and> has_returned 1 w'"
    by (simp add: demo_draining_def start_def WorkerEntry_new_def)
qed

end
