(* ===== verification/Kt_Slots.thy ===== *)
theory Kt_Slots
  imports Kt_Error
begin

text \<open>
  JVM-directed slot suppliers (\<^verbatim>\<open>jvm_slots.rs\<close>).

  A \<open>JvmSlots\<close> supplier hands out permits for one kind of slot: never more than \<open>maximum\<close>, freely up
  to \<open>minimum\<close>, and beyond it only while the JVM's admission bit is set and the ramp interval since
  the last permit has passed. A sticky workflow supplier counts its permits per queue (0 for the
  normal queue, 1 for the sticky one) and keeps one back for a queue that has none.

  \<open>try_reserve_slot\<close>, \<open>Permit_drop\<close> and \<open>ResourceGate_update\<close> are functions on the shared state;
  \<open>slot_step\<close> interleaves the loops of any number of \<open>reserve_slot\<close> calls with releases, gate
  updates and the passing of time. Instants and durations are milliseconds since some origin.
  Dropping a permit and updating the gate each publish their change first and notify the waiters
  afterwards, so each is two steps. The gate is shared by the suppliers of all four kinds; what the
  others do to it is \<open>slot_other_kind\<close>.
\<close>

record ResourceGate =
  allowed :: u32
  reserved :: "u32 list"
  pending_reserves :: "u32 list"

definition ResourceGate_new :: ResourceGate where
  "ResourceGate_new = \<lparr>allowed = 0, reserved = [0, 0, 0, 0], pending_reserves = [0, 0, 0, 0]\<rparr>"

definition ResourceGate_update :: "u32 \<Rightarrow> ResourceGate \<Rightarrow> ResourceGate" where
  "ResourceGate_update a g = g\<lparr>allowed := a\<rparr>"

definition ResourceGate_stats :: "ResourceGate \<Rightarrow> u32 list" where
  "ResourceGate_stats g =
    map (\<lambda>index. (if index mod 2 = 0 then reserved g else pending_reserves g) ! (index div 2)) [0..<8]"

definition ResourceGate_allows :: "ResourceGate \<Rightarrow> nat \<Rightarrow> bool" where
  "ResourceGate_allows g kind \<longleftrightarrow> allowed g AND push_bit kind 1 \<noteq> 0"

record SlotState =
  issued :: "nat list"
  last_issued :: nat

record Permit =
  pqueue :: nat
  pkind :: nat

record JvmSlots =
  minimum :: nat
  maximum :: nat
  ramp :: nat
  skind :: nat
  sticky :: bool

record ResourceSlotLimits =
  minimum_slots :: u32
  maximum_slots :: u32
  ramp_throttle_millis :: u64

definition supplier :: "ResourceSlotLimits \<Rightarrow> nat \<Rightarrow> bool \<Rightarrow> nat \<Rightarrow> JvmSlots \<times> SlotState" where
  "supplier limits kind is_sticky now =
    (\<lparr>minimum = unat (minimum_slots limits), maximum = unat (maximum_slots limits),
      ramp = unat (ramp_throttle_millis limits), skind = kind, sticky = is_sticky\<rparr>,
     \<lparr>issued = [0, 0], last_issued = now\<rparr>)"

text \<open>\<^verbatim>\<open>Instant::elapsed\<close> saturates at zero.\<close>

definition elapsed :: "SlotState \<Rightarrow> nat \<Rightarrow> nat" where
  "elapsed st now = now - last_issued st"

definition try_reserve_slot ::
  "JvmSlots \<Rightarrow> bool \<Rightarrow> nat \<Rightarrow> ResourceGate \<times> SlotState \<Rightarrow> (Permit \<times> ResourceGate \<times> SlotState) option"
where
  "try_reserve_slot sl ctx_sticky now = (\<lambda>(g, st).
    let queue = (if sticky sl \<and> ctx_sticky then 1 else 0);
        total_issued = sum_list (issued st)
    in if total_issued \<ge> maximum sl then None
       else if sticky sl \<and> issued st ! (1 - queue) = 0 \<and> total_issued + 1 = maximum sl then None
       else let required = (total_issued < minimum sl \<or> (sticky sl \<and> issued st ! queue = 0))
            in if \<not> required \<and> (\<not> ResourceGate_allows g (skind sl) \<or> elapsed st now < ramp sl) then None
               else Some (\<lparr>pqueue = queue, pkind = skind sl\<rparr>,
                 g\<lparr>reserved := (reserved g)[skind sl := reserved g ! skind sl + 1]\<rparr>,
                 st\<lparr>issued := (issued st)[queue := issued st ! queue + 1], last_issued := now\<rparr>))"

text \<open>
  \<^verbatim>\<open>Drop for Permit\<close>, before it notifies: the count of the permit's queue, whose decrement would
  panic at zero, and the gate's counter.
\<close>

definition Permit_drop_issued :: "Permit \<Rightarrow> SlotState \<Rightarrow> (SlotState, unit) outcome" where
  "Permit_drop_issued p st =
    (if issued st ! pqueue p = 0 then Panicked (StaticStr ''attempt to subtract with overflow'')
     else Ok (st\<lparr>issued := (issued st)[pqueue p := issued st ! pqueue p - 1]\<rparr>))"

definition Permit_drop_reserved :: "Permit \<Rightarrow> ResourceGate \<Rightarrow> ResourceGate" where
  "Permit_drop_reserved p g = g\<lparr>reserved := (reserved g)[pkind p := reserved g ! pkind p - 1]\<rparr>"

definition add_pending_reserve :: "nat \<Rightarrow> ResourceGate \<Rightarrow> ResourceGate" where
  "add_pending_reserve kind g =
    g\<lparr>pending_reserves := (pending_reserves g)[kind := pending_reserves g ! kind + 1]\<rparr>"

definition PendingReserve_drop :: "nat \<Rightarrow> ResourceGate \<Rightarrow> ResourceGate" where
  "PendingReserve_drop kind g =
    g\<lparr>pending_reserves := (pending_reserves g)[kind := pending_reserves g ! kind - 1]\<rparr>"

definition available_slots :: "JvmSlots \<Rightarrow> SlotState \<Rightarrow> (nat, unit) outcome" where
  "available_slots sl st =
    (if maximum sl < sum_list (issued st) then Panicked (StaticStr ''attempt to subtract with overflow'')
     else Ok (maximum sl - sum_list (issued st)))"

section \<open>Reservations in any interleaving\<close>

text \<open>
  Where a \<^verbatim>\<open>reserve_slot\<close> call is. Its first component records whether the \<^verbatim>\<open>Notified\<close> future, which
  is enabled before the test, has been notified since. \<open>Enabled\<close>: about to try. \<open>TryFailed\<close>: the try
  returned nothing and the wait is not computed yet. \<open>Waiting\<close>: in the select, with the deadline of
  the sleep branch if that branch is enabled.
\<close>

datatype reserve_pc =
    Enabled bool
  | TryFailed bool
  | Waiting bool "nat option"

record slot_world =
  now :: nat
  gate :: ResourceGate
  sstate :: SlotState
  reservers :: "nat \<rightharpoonup> bool \<times> reserve_pc"
  permits :: "Permit list"
  releasing :: "Permit list"
  updating :: nat

fun notify_pc :: "reserve_pc \<Rightarrow> reserve_pc" where
  "notify_pc (Enabled _) = Enabled True"
| "notify_pc (TryFailed _) = TryFailed True"
| "notify_pc (Waiting _ d) = Waiting True d"

definition notify_waiters :: "(nat \<rightharpoonup> bool \<times> reserve_pc) \<Rightarrow> (nat \<rightharpoonup> bool \<times> reserve_pc)" where
  "notify_waiters rs t = map_option (map_prod id notify_pc) (rs t)"

inductive slot_step :: "JvmSlots \<Rightarrow> slot_world \<Rightarrow> slot_world \<Rightarrow> bool" for sl :: JvmSlots where
  slot_time: "now w \<le> n \<Longrightarrow> slot_step sl w (w\<lparr>now := n\<rparr>)"
| slot_begin:
    "reservers w t = None \<Longrightarrow>
     slot_step sl w (w\<lparr>gate := add_pending_reserve (skind sl) (gate w),
       reservers := (reservers w)(t \<mapsto> (ctx, Enabled False))\<rparr>)"
| slot_issued:
    "reservers w t = Some (ctx, Enabled n) \<Longrightarrow>
     try_reserve_slot sl ctx (now w) (gate w, sstate w) = Some (p, g, st) \<Longrightarrow>
     slot_step sl w (w\<lparr>gate := PendingReserve_drop (skind sl) g, sstate := st,
       reservers := (reservers w)(t := None), permits := p # permits w\<rparr>)"
| slot_try_failed:
    "reservers w t = Some (ctx, Enabled n) \<Longrightarrow>
     try_reserve_slot sl ctx (now w) (gate w, sstate w) = None \<Longrightarrow>
     slot_step sl w (w\<lparr>reservers := (reservers w)(t \<mapsto> (ctx, TryFailed n))\<rparr>)"
| slot_select:
    "reservers w t = Some (ctx, TryFailed n) \<Longrightarrow>
     wait = ramp sl - elapsed (sstate w) (now w) \<Longrightarrow>
     slot_step sl w (w\<lparr>reservers := (reservers w)(t \<mapsto>
       (ctx, Waiting n (if wait = 0 then None else Some (now w + wait))))\<rparr>)"
| slot_notified:
    "reservers w t = Some (ctx, Waiting True d) \<Longrightarrow>
     slot_step sl w (w\<lparr>reservers := (reservers w)(t \<mapsto> (ctx, Enabled False))\<rparr>)"
| slot_slept:
    "reservers w t = Some (ctx, Waiting n (Some d)) \<Longrightarrow> d \<le> now w \<Longrightarrow>
     slot_step sl w (w\<lparr>reservers := (reservers w)(t \<mapsto> (ctx, Enabled False))\<rparr>)"
| slot_dropped:
    "reservers w t = Some (ctx, pc) \<Longrightarrow>
     slot_step sl w (w\<lparr>gate := PendingReserve_drop (skind sl) (gate w), reservers := (reservers w)(t := None)\<rparr>)"
| slot_release:
    "permits w = ps @ p # qs \<Longrightarrow> Permit_drop_issued p (sstate w) = Ok st \<Longrightarrow>
     slot_step sl w (w\<lparr>sstate := st, permits := ps @ qs, releasing := p # releasing w\<rparr>)"
| slot_released:
    "releasing w = ps @ p # qs \<Longrightarrow>
     slot_step sl w (w\<lparr>gate := Permit_drop_reserved p (gate w), releasing := ps @ qs,
       reservers := notify_waiters (reservers w)\<rparr>)"
| slot_update:
    "slot_step sl w (w\<lparr>gate := ResourceGate_update a (gate w), updating := updating w + 1\<rparr>)"
| slot_updated:
    "0 < updating w \<Longrightarrow>
     slot_step sl w (w\<lparr>updating := updating w - 1, reservers := notify_waiters (reservers w)\<rparr>)"
| slot_other_kind:
    "allowed g = allowed (gate w) \<Longrightarrow> length (reserved g) = 4 \<Longrightarrow> length (pending_reserves g) = 4 \<Longrightarrow>
     reserved g ! skind sl = reserved (gate w) ! skind sl \<Longrightarrow>
     pending_reserves g ! skind sl = pending_reserves (gate w) ! skind sl \<Longrightarrow>
     slot_step sl w (w\<lparr>gate := g, reservers := notify_waiters (reservers w)\<rparr>)"

definition slot_init :: "JvmSlots \<Rightarrow> slot_world \<Rightarrow> bool" where
  "slot_init sl w \<longleftrightarrow> gate w = ResourceGate_new \<and> issued (sstate w) = [0, 0] \<and>
     last_issued (sstate w) \<le> now w \<and> reservers w = Map.empty \<and> permits w = [] \<and> releasing w = [] \<and> updating w = 0"

section \<open>Invariants\<close>

definition held :: "slot_world \<Rightarrow> nat \<Rightarrow> nat" where
  "held w q = length (filter (\<lambda>p. pqueue p = q) (permits w))"

text \<open>The counts are the permits that exist, and the limits hold.\<close>

definition slots_counted :: "JvmSlots \<Rightarrow> slot_world \<Rightarrow> bool" where
  "slots_counted sl w \<longleftrightarrow>
     issued (sstate w) = [held w 0, held w 1] \<and>
     (\<forall>p \<in> set (permits w). pqueue p < 2 \<and> pkind p = skind sl \<and> (pqueue p = 1 \<longrightarrow> sticky sl)) \<and>
     length (permits w) \<le> maximum sl \<and>
     (sticky sl \<and> 2 \<le> maximum sl \<longrightarrow> held w 0 < maximum sl \<and> held w 1 < maximum sl) \<and>
     last_issued (sstate w) \<le> now w"

definition gate_counted :: "JvmSlots \<Rightarrow> slot_world \<Rightarrow> bool" where
  "gate_counted sl w \<longleftrightarrow> finite (dom (reservers w)) \<and>
     length (reserved (gate w)) = 4 \<and> length (pending_reserves (gate w)) = 4 \<and>
     (\<forall>p \<in> set (releasing w). pkind p = skind sl) \<and>
     reserved (gate w) ! skind sl = of_nat (length (permits w) + length (releasing w)) \<and>
     pending_reserves (gate w) ! skind sl = of_nat (card (dom (reservers w)))"

lemma held_sum:
  assumes "\<forall>p \<in> set (permits w). pqueue p < 2"
  shows "held w 0 + held w 1 = length (permits w)"
proof -
  have "length (filter (\<lambda>p. pqueue p = 0) ps) + length (filter (\<lambda>p. pqueue p = 1) ps) = length ps"
    if "\<forall>p \<in> set ps. pqueue p < 2" for ps
    using that by (induction ps) (auto simp: less_2_cases_iff)
  then show ?thesis using assms by (simp add: held_def)
qed

lemma try_reserve_slot_Some:
  assumes "try_reserve_slot sl ctx t (g, st) = Some (p, g', st')" and "issued st = [a, b]"
  shows "a + b < maximum sl"
    and "pqueue p = (if sticky sl \<and> ctx then 1 else 0)" and "pkind p = skind sl"
    and "g' = g\<lparr>reserved := (reserved g)[skind sl := reserved g ! skind sl + 1]\<rparr>"
    and "st' = st\<lparr>issued := (if sticky sl \<and> ctx then [a, b + 1] else [a + 1, b]), last_issued := t\<rparr>"
    and "sticky sl \<Longrightarrow> (if ctx then a = 0 else b = 0) \<Longrightarrow> a + b + 1 \<noteq> maximum sl"
  using assms by (auto simp: try_reserve_slot_def Let_def split: if_splits)

lemma slots_counted_step:
  assumes "slot_step sl w w'" and "slots_counted sl w"
  shows "slots_counted sl w'"
  using assms
proof (induction rule: slot_step.induct)
  case (slot_issued w t ctx n p g st)
  let ?h = "w\<lparr>gate := PendingReserve_drop (skind sl) g, sstate := st,
       reservers := (reservers w)(t := None), permits := p # permits w\<rparr>"
  have iss: "issued (sstate w) = [held w 0, held w 1]" using slot_issued.prems by (simp add: slots_counted_def)
  note r = try_reserve_slot_Some [OF slot_issued.hyps(2) iss]
  have sum: "held w 0 + held w 1 = length (permits w)"
    using slot_issued.prems by (intro held_sum) (auto simp: slots_counted_def)
  have h: "held ?h 0 = held w 0 + (if sticky sl \<and> ctx then 0 else 1)"
    "held ?h 1 = held w 1 + (if sticky sl \<and> ctx then 1 else 0)" using r(2) by (auto simp: held_def)
  have "held ?h 0 < maximum sl \<and> held ?h 1 < maximum sl" if "sticky sl" "2 \<le> maximum sl"
    unfolding h using that r(1) r(6) [OF that(1)] slot_issued.prems
    by (cases ctx; cases "held w 0"; cases "held w 1") (auto simp: slots_counted_def)
  then show ?case
    using slot_issued.prems r sum h unfolding slots_counted_def by (auto split: if_splits)
next
  case (slot_release w ps p qs st)
  then have p: "pqueue p < 2" and iss: "issued (sstate w) = [held w 0, held w 1]"
    by (auto simp: slots_counted_def)
  from p slot_release show ?case
    by (auto simp: slots_counted_def Permit_drop_issued_def held_def less_2_cases_iff split: if_splits)
qed (auto simp: slots_counted_def held_def)

lemma gate_counted_notify:
  "dom (notify_waiters rs) = dom rs"
  by (auto simp: notify_waiters_def dom_def)

lemma card_dom_del:
  assumes "finite (dom m)" and "m k = Some y"
  shows "card (dom m) = card (dom (m(k := None))) + 1"
  using assms card.remove [of "dom m" k] by (simp add: domI)

lemma gate_counted_step:
  assumes "slot_step sl w w'" and "slots_counted sl w" and "gate_counted sl w" and "skind sl < 4"
  shows "gate_counted sl w'"
  using assms
proof (induction rule: slot_step.induct)
  case (slot_begin w t ctx)
  then show ?case by (auto simp: gate_counted_def add_pending_reserve_def card_insert_if domIff add.commute)
next
  case (slot_issued w t ctx n p g st)
  have iss: "issued (sstate w) = [held w 0, held w 1]" using slot_issued.prems by (simp add: slots_counted_def)
  note r = try_reserve_slot_Some [OF slot_issued.hyps(2) iss]
  have "card (dom (reservers w)) = card (dom ((reservers w)(t := None))) + 1"
    using slot_issued by (intro card_dom_del) (auto simp: gate_counted_def)
  then show ?case using slot_issued r by (auto simp: gate_counted_def PendingReserve_drop_def)
next
  case (slot_dropped w t ctx pc)
  then have "card (dom (reservers w)) = card (dom ((reservers w)(t := None))) + 1"
    by (intro card_dom_del) (auto simp: gate_counted_def)
  then show ?case using slot_dropped by (auto simp: gate_counted_def PendingReserve_drop_def)
next
  case (slot_release w ps p qs st)
  then show ?case by (auto simp: gate_counted_def slots_counted_def)
next
  case (slot_released w ps p qs)
  then show ?case by (auto simp: gate_counted_def Permit_drop_reserved_def gate_counted_notify)
qed (auto simp: gate_counted_def insert_absorb domI gate_counted_notify ResourceGate_update_def)

text \<open>
  A failed try stays failed while others succeed: permits only shrink the room, and a new permit
  restarts the ramp.
\<close>

lemma try_fails_mono:
  assumes "try_reserve_slot sl ctx t (g, st) = None"
    and "try_reserve_slot sl ctx' t (g, st) = Some (p, g', st')" and "issued st = [a, b]"
    and "last_issued st \<le> t"
  shows "try_reserve_slot sl ctx t (PendingReserve_drop k g', st') = None"
proof -
  note r = try_reserve_slot_Some [OF assms(2,3)]
  show ?thesis
    using assms r(4,5)
    by (auto simp: try_reserve_slot_def Let_def PendingReserve_drop_def ResourceGate_allows_def elapsed_def
        split: if_splits)
qed

lemma try_reserve_slot_gate:
  assumes "allowed g' = allowed g"
  shows "try_reserve_slot sl ctx t (g', st) = None \<longleftrightarrow> try_reserve_slot sl ctx t (g, st) = None"
  using assms by (auto simp: try_reserve_slot_def Let_def ResourceGate_allows_def)

fun unnotified :: "reserve_pc \<Rightarrow> bool" where
  "unnotified (Enabled n) = False"
| "unnotified (TryFailed n) = (\<not> n)"
| "unnotified (Waiting n d) = (\<not> n)"

text \<open>A call that failed its try, and has not been notified since, would still fail.\<close>

definition waiters_blocked :: "JvmSlots \<Rightarrow> slot_world \<Rightarrow> bool" where
  "waiters_blocked sl w \<longleftrightarrow> releasing w = [] \<longrightarrow> updating w = 0 \<longrightarrow>
     (\<forall>t ctx pc. reservers w t = Some (ctx, pc) \<longrightarrow> unnotified pc \<longrightarrow>
        try_reserve_slot sl ctx (now w) (gate w, sstate w) = None)"

lemma unnotified_notify [simp]: "\<not> unnotified (notify_pc pc)"
  by (cases pc) auto

lemma notify_waiters_Some:
  "notify_waiters rs t = Some (ctx, pc) \<longleftrightarrow> (\<exists>pc'. rs t = Some (ctx, pc') \<and> pc = notify_pc pc')"
  by (auto simp: notify_waiters_def)

lemma try_time_irrelevant:
  "ramp sl = 0 \<Longrightarrow> try_reserve_slot sl ctx t (g, st) = None \<longleftrightarrow> try_reserve_slot sl ctx t' (g, st) = None"
  by (auto simp: try_reserve_slot_def Let_def)

lemma waiters_blocked_step:
  assumes "slot_step sl w w'" and "slots_counted sl w" and "waiters_blocked sl w" and "ramp sl = 0"
  shows "waiters_blocked sl w'"
  using assms
proof (induction rule: slot_step.induct)
  case (slot_time w n)
  then show ?case
    using try_time_irrelevant [of sl _ n "gate w" "sstate w" "now w"] by (auto simp: waiters_blocked_def)
next
  case (slot_begin w t ctx)
  then show ?case
    using try_reserve_slot_gate [of "add_pending_reserve (skind sl) (gate w)" "gate w" sl _ "now w" "sstate w"]
    by (auto simp: waiters_blocked_def add_pending_reserve_def split: if_splits)
next
  case (slot_issued w t ctx n p g st)
  have st: "issued (sstate w) = [held w 0, held w 1]" "last_issued (sstate w) \<le> now w"
    using slot_issued.prems by (auto simp: slots_counted_def)
  show ?case
    using slot_issued.prems try_fails_mono [OF _ slot_issued.hyps(2) st]
    by (auto simp: waiters_blocked_def split: if_splits)
next
  case (slot_dropped w t ctx pc)
  then show ?case
    using try_reserve_slot_gate [of "PendingReserve_drop (skind sl) (gate w)" "gate w" sl _ "now w" "sstate w"]
    by (auto simp: waiters_blocked_def PendingReserve_drop_def split: if_splits)
next
  case (slot_other_kind g w)
  then show ?case by (auto simp: waiters_blocked_def notify_waiters_Some)
qed (auto simp: waiters_blocked_def notify_waiters_Some split: if_splits)

definition slot_inv :: "JvmSlots \<Rightarrow> slot_world \<Rightarrow> bool" where
  "slot_inv sl w \<longleftrightarrow> slots_counted sl w \<and> (skind sl < 4 \<longrightarrow> gate_counted sl w) \<and>
     (ramp sl = 0 \<longrightarrow> waiters_blocked sl w)"

interpretation slots: invariant_system "slot_init sl" "slot_step sl" "slot_inv sl" for sl
proof unfold_locales
  show "slot_inv sl w" if "slot_init sl w" for w
    using that by (auto simp: slot_init_def slot_inv_def slots_counted_def gate_counted_def waiters_blocked_def
        held_def ResourceGate_new_def less_Suc_eq numeral_eq_Suc)
  show "slot_inv sl w'" if "slot_inv sl w" "slot_step sl w w'" for w w'
    using that slots_counted_step gate_counted_step waiters_blocked_step unfolding slot_inv_def by blast
qed

section \<open>What the suppliers guarantee\<close>

text \<open>C32: A supplier never issues more permits than its maximum, and its arithmetic never
  underflows: in every reachable state \<open>available_slots\<close> is the maximum less the permits that
  exist, dropping any of them succeeds, and the gate's two counters for the kind report the
  permits not yet released and the calls still waiting.\<close>

theorem slots_bounded:
  assumes "runs (slot_init sl) (slot_step sl) w" and "skind sl < 4"
  shows "length (permits w) \<le> maximum sl \<and>
     available_slots sl (sstate w) = Ok (maximum sl - length (permits w)) \<and>
     (\<forall>p \<in> set (permits w). is_ok (Permit_drop_issued p (sstate w))) \<and>
     ResourceGate_stats (gate w) ! (2 * skind sl) = of_nat (length (permits w) + length (releasing w)) \<and>
     ResourceGate_stats (gate w) ! (2 * skind sl + 1) = of_nat (card (dom (reservers w)))"
proof -
  from slots.runs_inv [OF assms(1)] assms(2) have inv: "slots_counted sl w" "gate_counted sl w"
    by (simp_all add: slot_inv_def)
  then have sum: "sum_list (issued (sstate w)) = length (permits w)"
    using held_sum [of w] by (auto simp: slots_counted_def)
  have "is_ok (Permit_drop_issued p (sstate w))" if "p \<in> set (permits w)" for p
  proof -
    from that inv(1) have "pqueue p < 2" "issued (sstate w) = [held w 0, held w 1]"
      by (auto simp: slots_counted_def)
    moreover have "held w (pqueue p) \<noteq> 0" using that by (auto simp: held_def filter_empty_conv)
    ultimately show ?thesis by (auto simp: Permit_drop_issued_def less_2_cases_iff)
  qed
  then show ?thesis
    using inv sum assms(2)
    by (auto simp: available_slots_def ResourceGate_stats_def gate_counted_def slots_counted_def)
qed

lemma sticky_try_succeeds:
  assumes "runs (slot_init sl) (slot_step sl) w" and "sticky sl" and "2 \<le> maximum sl"
    and "held w (if ctx then 1 else 0) = 0"
  shows "try_reserve_slot sl ctx (now w) (gate w, sstate w) \<noteq> None"
proof -
  from slots.runs_inv [OF assms(1)] have "slots_counted sl w" by (simp add: slot_inv_def)
  then have "issued (sstate w) = [held w 0, held w 1]" "held w 0 < maximum sl" "held w 1 < maximum sl"
    using assms(2,3) by (auto simp: slots_counted_def)
  then show ?thesis
    using assms(2-4) by (cases ctx) (auto simp: try_reserve_slot_def Let_def)
qed

text \<open>Sticky polling cannot starve new work. In every reachable state of a sticky supplier with
  room for two permits, a workflow queue that holds no permit gets one at its first try, whatever
  the other queue holds, whatever the JVM's admission bit says and however recent the last permit.\<close>

theorem sticky_no_starvation:
  assumes "runs (slot_init sl) (slot_step sl) w" and "sticky sl" and "2 \<le> maximum sl"
    and "held w (if ctx then 1 else 0) = 0"
  shows "try_reserve_slot sl ctx (now w) (gate w, sstate w) \<noteq> None"
  using assms by (rule sticky_try_succeeds)

text \<open>C33: Without a ramp no release and no gate update is missed: a \<open>reserve_slot\<close> call that waits
  un-notified while no release or update is about to notify would fail its try again.\<close>

theorem no_missed_release:
  assumes "runs (slot_init sl) (slot_step sl) w" and "ramp sl = 0"
    and "releasing w = []" and "updating w = 0" and "reservers w t = Some (ctx, Waiting False d)"
  shows "try_reserve_slot sl ctx (now w) (gate w, sstate w) = None"
  using slots.runs_inv [OF assms(1)] assms(2-5)
  by (fastforce simp: slot_inv_def waiters_blocked_def)

definition demo_slots :: "nat \<Rightarrow> JvmSlots" where
  "demo_slots r = \<lparr>minimum = 0, maximum = 2, ramp = r, skind = 0, sticky = True\<rparr>"

definition demo_slot_world :: slot_world where
  "demo_slot_world = \<lparr>now = 0, gate = ResourceGate_new, sstate = \<lparr>issued = [0, 0], last_issued = 0\<rparr>,
     reservers = Map.empty, permits = [], releasing = [], updating = 0\<rparr>"

text \<open>One permit is issued to the normal queue, and a second normal reservation waits.\<close>

definition demo_waiting :: slot_world where
  "demo_waiting = demo_slot_world\<lparr>gate := \<lparr>allowed = 0, reserved = [1, 0, 0, 0], pending_reserves = [1, 0, 0, 0]\<rparr>,
     sstate := \<lparr>issued = [1, 0], last_issued = 0\<rparr>, permits := [\<lparr>pqueue = 0, pkind = 0\<rparr>],
     reservers := [2 \<mapsto> (False, Waiting False None)]\<rparr>"

lemmas demo_slot_defs = demo_slots_def demo_slot_world_def ResourceGate_new_def

lemmas slot_run = runs_step [where init = "slot_init sl" and step = "slot_step sl" for sl]

lemma demo_waiting_run: "runs (slot_init (demo_slots 0)) (slot_step (demo_slots 0)) demo_waiting"
proof -
  let ?a = "demo_slot_world\<lparr>gate := ResourceGate_new\<lparr>pending_reserves := [1, 0, 0, 0]\<rparr>,
    reservers := [1 \<mapsto> (False, Enabled False)]\<rparr>"
  let ?b = "demo_waiting\<lparr>gate := \<lparr>allowed = 0, reserved = [1, 0, 0, 0], pending_reserves = [0, 0, 0, 0]\<rparr>,
    reservers := Map.empty\<rparr>"
  let ?c = "demo_waiting\<lparr>reservers := [2 \<mapsto> (False, Enabled False)]\<rparr>"
  let ?d = "demo_waiting\<lparr>reservers := [2 \<mapsto> (False, TryFailed False)]\<rparr>"
  let ?step = "slot_step (demo_slots 0)"
  have 0: "runs (slot_init (demo_slots 0)) ?step demo_slot_world"
    by (rule runs_init) (simp add: slot_init_def demo_slot_world_def)
  have 1: "?step demo_slot_world ?a"
    using slot_begin [of demo_slot_world 1 "demo_slots 0" False]
    by (simp add: demo_slot_defs add_pending_reserve_def)
  have 2: "?step ?a ?b"
    using slot_issued [of ?a 1 False False "demo_slots 0" "\<lparr>pqueue = 0, pkind = 0\<rparr>"
        "\<lparr>allowed = 0, reserved = [1, 0, 0, 0], pending_reserves = [1, 0, 0, 0]\<rparr>" "\<lparr>issued = [1, 0], last_issued = 0\<rparr>"]
    by (simp add: demo_slot_defs demo_waiting_def try_reserve_slot_def PendingReserve_drop_def)
  have 3: "?step ?b ?c"
    using slot_begin [of ?b 2 "demo_slots 0" False]
    by (simp add: demo_slot_defs demo_waiting_def add_pending_reserve_def)
  have 4: "?step ?c ?d"
    using slot_try_failed [of ?c 2 False False "demo_slots 0"]
    by (simp add: demo_slot_defs demo_waiting_def try_reserve_slot_def)
  have 5: "?step ?d demo_waiting"
    using slot_select [of ?d 2 False False 0 "demo_slots 0"] by (simp add: demo_slot_defs demo_waiting_def)
  note a = slot_run [OF slot_run [OF 0 1] 2]
  note b = slot_run [OF slot_run [OF a 3] 4]
  show ?thesis by (rule slot_run [OF b 5])
qed

theorem slots_bounded_witness:
  "available_slots (demo_slots 0) (sstate demo_waiting) = Ok 1 \<and>
   ResourceGate_stats (gate demo_waiting) ! 1 = 1"
  using slots_bounded [OF demo_waiting_run] by (simp add: demo_slot_defs demo_waiting_def)

theorem sticky_no_starvation_witness:
  "try_reserve_slot (demo_slots 0) True 0 (gate demo_waiting, sstate demo_waiting) \<noteq> None"
  using sticky_no_starvation [OF demo_waiting_run, of True]
  by (simp add: demo_slot_defs demo_waiting_def held_def)

theorem no_missed_release_witness:
  "try_reserve_slot (demo_slots 0) False 0 (gate demo_waiting, sstate demo_waiting) = None"
  using no_missed_release [OF demo_waiting_run, of 2 False None]
  by (simp add: demo_slot_defs demo_waiting_def)

definition demo_ramp :: JvmSlots where
  "demo_ramp = \<lparr>minimum = 0, maximum = 1, ramp = 10, skind = 0, sticky = False\<rparr>"

text \<open>C34: With a ramp there is a state in which a \<open>reserve_slot\<close> call waits for a notification
  although it could have its permit. The try fails because the ramp has not passed; it passes
  before the wait is computed; the wait is then zero, which disables the sleep branch of the
  select. Nothing is about to notify, the JVM admits the kind, and a try would succeed.\<close>

theorem reserve_slot_ramp_race:
  "\<exists>w. runs (slot_init demo_ramp) (slot_step demo_ramp) w \<and>
     reservers w 1 = Some (False, Waiting False None) \<and> releasing w = [] \<and> updating w = 0 \<and>
     try_reserve_slot demo_ramp False (now w) (gate w, sstate w) \<noteq> None"
proof -
  let ?u1 = "demo_slot_world\<lparr>gate := ResourceGate_new\<lparr>allowed := 1\<rparr>, updating := 1\<rparr>"
  let ?u2 = "demo_slot_world\<lparr>gate := ResourceGate_new\<lparr>allowed := 1\<rparr>\<rparr>"
  let ?w = "\<lambda>pc t. ?u2\<lparr>now := t, gate := ResourceGate_new\<lparr>allowed := 1, pending_reserves := [1, 0, 0, 0]\<rparr>,
    reservers := [1 \<mapsto> (False, pc)]\<rparr>"
  have 0: "runs (slot_init demo_ramp) (slot_step demo_ramp) demo_slot_world"
    by (rule runs_init) (simp add: slot_init_def demo_slot_world_def)
  have "slot_step demo_ramp demo_slot_world ?u1"
    using slot_update [of demo_ramp demo_slot_world 1] by (simp add: demo_slot_defs ResourceGate_update_def)
  note 1 = slot_run [OF 0 this]
  have "notify_waiters Map.empty = Map.empty" by (simp add: notify_waiters_def fun_eq_iff)
  then have "slot_step demo_ramp ?u1 ?u2"
    using slot_updated [of ?u1 demo_ramp] by (simp add: demo_slot_defs)
  note 2 = slot_run [OF 1 this]
  have "slot_step demo_ramp ?u2 (?w (Enabled False) 0)"
    using slot_begin [of ?u2 1 demo_ramp False]
    by (simp add: demo_slot_defs demo_ramp_def add_pending_reserve_def)
  note 3 = slot_run [OF 2 this]
  have "slot_step demo_ramp (?w (Enabled False) 0) (?w (TryFailed False) 0)"
    using slot_try_failed [of "?w (Enabled False) 0" 1 False False demo_ramp]
    by (simp add: demo_slot_defs demo_ramp_def try_reserve_slot_def elapsed_def)
  note 4 = slot_run [OF 3 this]
  have "slot_step demo_ramp (?w (TryFailed False) 0) (?w (TryFailed False) 10)"
    using slot_time [of "?w (TryFailed False) 0" 10 demo_ramp] by (simp add: demo_slot_defs)
  note 5 = slot_run [OF 4 this]
  have "slot_step demo_ramp (?w (TryFailed False) 10) (?w (Waiting False None) 10)"
    using slot_select [of "?w (TryFailed False) 10" 1 False False 0 demo_ramp]
    by (simp add: demo_slot_defs demo_ramp_def elapsed_def)
  note 6 = slot_run [OF 5 this]
  have "try_reserve_slot demo_ramp False 10 (gate (?w (Waiting False None) 10), sstate demo_slot_world) \<noteq> None"
    by (simp add: demo_slot_defs demo_ramp_def try_reserve_slot_def elapsed_def ResourceGate_allows_def)
  with 6 show ?thesis
    by (intro exI [of _ "?w (Waiting False None) 10"]) (simp add: demo_slot_world_def)
qed

end
