(* ===== verification/Kt_WorkerConfig.thy ===== *)
theory Kt_WorkerConfig
  imports Kt_Slots
begin

text \<open>
  The translation of \<^verbatim>\<open>WorkerOptions\<close> into Core's worker configuration (\<^verbatim>\<open>worker.rs\<close>,
  \<open>worker_config\<close> to \<open>tuner\<close>): every check, in the order the builder chain evaluates them.

  A double is \<open>Finite m e\<close> for \<open>m * 2 ^ e\<close>, an infinity or a NaN; only comparisons with 0 and 1 are
  needed. Strings are UTF-8 bytes; \<open>blank\<close> is \<^verbatim>\<open>trim().is_empty()\<close> over the White_Space characters.
  Core's builders are not under this repository: \<open>build_holder\<close>, \<open>build_tuner_holder\<close> and
  \<open>build_config\<close> are arguments that may accept or refuse anything, and their error texts are wrapped as the code wraps them.
\<close>

section \<open>Scalars\<close>

datatype f64 =
    Finite int int
  | Infinite bool
  | NaN

fun is_finite :: "f64 \<Rightarrow> bool" where
  "is_finite (Finite m e) = True"
| "is_finite _ = False"

fun negative :: "f64 \<Rightarrow> bool" where
  "negative (Finite m e) = (m < 0)"
| "negative (Infinite neg) = neg"
| "negative NaN = False"

fun positive :: "f64 \<Rightarrow> bool" where
  "positive (Finite m e) = (m > 0)"
| "positive (Infinite neg) = (\<not> neg)"
| "positive NaN = False"

text \<open>\<^verbatim>\<open>(0.0..=1.0).contains\<close>: \<open>0 \<le> m * 2 ^ e \<le> 1\<close>.\<close>

fun in_unit_interval :: "f64 \<Rightarrow> bool" where
  "in_unit_interval (Finite m e) = (m = 0 \<or> (0 < m \<and> e \<le> 0 \<and> m \<le> 2 ^ nat (- e)))"
| "in_unit_interval _ = False"

fun blank_bytes :: "nat list \<Rightarrow> bool" where
  "blank_bytes [] = True"
| "blank_bytes (a # s) =
     (if a = 32 \<or> (9 \<le> a \<and> a \<le> 13) then blank_bytes s
      else case s of
        [] \<Rightarrow> False
      | b # s' \<Rightarrow>
          if a = 0xC2 \<and> (b = 0x85 \<or> b = 0xA0) then blank_bytes s'
          else (case s' of
            [] \<Rightarrow> False
          | c # s'' \<Rightarrow>
              if (a = 0xE1 \<and> b = 0x9A \<and> c = 0x80) \<or>
                 (a = 0xE2 \<and> b = 0x80 \<and> ((0x80 \<le> c \<and> c \<le> 0x8A) \<or> c = 0xA8 \<or> c = 0xA9 \<or> c = 0xAF)) \<or>
                 (a = 0xE2 \<and> b = 0x81 \<and> c = 0x9F) \<or> (a = 0xE3 \<and> b = 0x80 \<and> c = 0x80)
              then blank_bytes s'' else False))"

definition blank :: "string \<Rightarrow> bool" where
  "blank s = blank_bytes (map of_char s)"

section \<open>The options\<close>

record ResourceBasedTuner =
  jvm_resource_based :: bool
  target_memory_usage :: f64
  target_cpu_usage :: f64
  memory_p_gain :: f64
  memory_i_gain :: f64
  memory_d_gain :: f64
  memory_output_threshold :: f64
  cpu_p_gain :: f64
  cpu_i_gain :: f64
  cpu_d_gain :: f64
  cpu_output_threshold :: f64

record WorkerDeploymentOptions =
  deployment_name :: string
  deployment_build_id :: string
  use_worker_versioning :: bool
  default_versioning_behavior :: u32

datatype poller_strategy =
    SimpleMaximum u32
  | Autoscaling u32 u32 u32

record WorkerOptions =
  wo_namespace :: string
  task_queue :: string
  identity :: string
  max_cached_workflows :: u32
  max_concurrent_workflow_tasks :: "u32 option"
  max_concurrent_activities :: "u32 option"
  max_concurrent_local_activities :: "u32 option"
  no_remote_activities :: bool
  build_id :: string
  resource_tuner :: "ResourceBasedTuner option"
  workflow_resource_limits :: "ResourceSlotLimits option"
  activity_resource_limits :: "ResourceSlotLimits option"
  local_activity_resource_limits :: "ResourceSlotLimits option"
  no_workflows :: bool
  no_local_activities :: bool
  deployment_options :: "WorkerDeploymentOptions option"
  workflow_poller_behavior :: "poller_strategy option option"
  activity_poller_behavior :: "poller_strategy option option"
  nexus_poller_behavior :: "poller_strategy option option"
  max_heartbeat_throttle_interval_millis :: "u64 option"
  default_heartbeat_throttle_interval_millis :: "u64 option"
  max_activities_per_second :: "f64 option"
  max_task_queue_activities_per_second :: "f64 option"
  nonsticky_to_sticky_poll_ratio :: "f64 option"
  sticky_queue_schedule_to_start_timeout_millis :: "u64 option"
  graceful_shutdown_period_millis :: "u64 option"
  nondeterminism_as_workflow_fail :: bool
  nondeterminism_as_workflow_fail_for_types :: "string list"
  max_eager_activity_reservations_per_workflow_task :: "u32 option"
  disable_payload_error_limit :: bool
  enable_nexus :: bool
  max_concurrent_nexus_tasks :: "u32 option"
  nexus_resource_limits :: "ResourceSlotLimits option"

section \<open>The pieces\<close>

definition duration_millis :: "u64 \<Rightarrow> nat KtResult" where
  "duration_millis v =
    (if unat v > 2 ^ 63 - 1 then Err (InvalidArgument ''duration exceeds signed 64-bit milliseconds'')
     else Ok (unat v))"

definition rate :: "f64 option \<Rightarrow> f64 option KtResult" where
  "rate v =
    (if (case v of Some x \<Rightarrow> \<not> is_finite x \<or> negative x | None \<Rightarrow> False)
     then Err (InvalidArgument ''activity rate limits must be finite and nonnegative'')
     else Ok (case v of Some x \<Rightarrow> (if positive x then Some x else None) | None \<Rightarrow> None))"

datatype core_poller =
    CoreSimpleMaximum nat
  | CoreAutoscaling nat nat nat

fun poller :: "poller_strategy option option \<Rightarrow> core_poller option KtResult" where
  "poller None = Ok None"
| "poller (Some (Some (SimpleMaximum m))) = Ok (Some (CoreSimpleMaximum (unat m)))"
| "poller (Some (Some (Autoscaling lo hi ini))) = Ok (Some (CoreAutoscaling (unat lo) (unat hi) (unat ini)))"
| "poller (Some None) = Err (InvalidArgument ''poller behavior must select a strategy'')"

datatype versioning_behavior = Pinned | AutoUpgrade

datatype versioning_strategy =
    VersioningNone string
  | WorkerDeploymentBased string string bool "versioning_behavior option"

definition versioning :: "WorkerOptions \<Rightarrow> versioning_strategy KtResult" where
  "versioning options = (case deployment_options options of
     None \<Rightarrow> Ok (VersioningNone (build_id options))
   | Some d \<Rightarrow>
       if blank (deployment_name d) \<or> blank (deployment_build_id d)
       then Err (InvalidArgument ''deployment name and build ID must not be blank'')
       else and_then
         (if default_versioning_behavior d = 0 then Ok None
          else if default_versioning_behavior d = 1 then Ok (Some Pinned)
          else if default_versioning_behavior d = 2 then Ok (Some AutoUpgrade)
          else Err (InvalidArgument ''unknown default versioning behavior''))
         (\<lambda>behavior. Ok (WorkerDeploymentBased (deployment_name d) (deployment_build_id d)
            (use_worker_versioning d) behavior)))"

datatype slot_options =
    FixedSize nat
  | ResourceBased nat nat nat
  | Custom "JvmSlots \<times> SlotState"

definition slot :: "u32 option \<Rightarrow> ResourceSlotLimits option \<Rightarrow> bool \<Rightarrow> nat \<Rightarrow> bool \<Rightarrow> nat \<Rightarrow> slot_options KtResult" where
  "slot fixed_slots limits jvm_gate slot_kind is_sticky t =
    (case limits of
       Some l \<Rightarrow>
         if fixed_slots \<noteq> None then Err (InvalidArgument ''a slot supplier cannot be both fixed and resource-based'')
         else if maximum_slots l = 0 \<or> minimum_slots l > maximum_slots l
         then Err (InvalidArgument ''resource slots require minimum <= maximum and maximum > 0'')
         else if jvm_gate
         then and_then (duration_millis (ramp_throttle_millis l)) (\<lambda>_. Ok (Custom (supplier l slot_kind is_sticky t)))
         else and_then (duration_millis (ramp_throttle_millis l))
           (\<lambda>ms. Ok (ResourceBased (unat (minimum_slots l)) (unat (maximum_slots l)) ms))
     | None \<Rightarrow>
         if fixed_slots = Some 0 then Err (InvalidArgument ''fixed slot counts must be positive'')
         else Ok (FixedSize (case fixed_slots of Some n \<Rightarrow> unat n | None \<Rightarrow> 100)))"

definition caches_workflows :: "WorkerOptions \<Rightarrow> bool" where
  "caches_workflows options \<longleftrightarrow> \<not> no_workflows options \<and> max_cached_workflows options > 0"

definition workflow_limit :: "WorkerOptions \<Rightarrow> nat" where
  "workflow_limit options =
    (case workflow_resource_limits options of
       Some l \<Rightarrow> unat (maximum_slots l)
     | None \<Rightarrow> (case max_concurrent_workflow_tasks options of Some n \<Rightarrow> unat n | None \<Rightarrow> 100))"

definition is_jvm :: "WorkerOptions \<Rightarrow> bool" where
  "is_jvm options = (case resource_tuner options of Some rb \<Rightarrow> jvm_resource_based rb | None \<Rightarrow> False)"

definition tuner_gains :: "ResourceBasedTuner \<Rightarrow> f64 list" where
  "tuner_gains rb = [memory_p_gain rb, memory_i_gain rb, memory_d_gain rb, memory_output_threshold rb,
     cpu_p_gain rb, cpu_i_gain rb, cpu_d_gain rb, cpu_output_threshold rb]"

definition resource_config :: "WorkerOptions \<Rightarrow> ResourceBasedTuner option KtResult" where
  "resource_config options = (case resource_tuner options of
     None \<Rightarrow> Ok None
   | Some rb \<Rightarrow>
       if \<not> is_finite (target_memory_usage rb) \<or> \<not> in_unit_interval (target_memory_usage rb) \<or>
          \<not> is_finite (target_cpu_usage rb) \<or> \<not> in_unit_interval (target_cpu_usage rb)
       then Err (InvalidArgument ''resource targets must be between 0 and 1'')
       else if list_ex (\<lambda>v. \<not> is_finite v) (tuner_gains rb)
       then Err (InvalidArgument ''resource PID gains and thresholds must be finite'')
       else Ok (if is_jvm options then None else Some rb))"

record TunerHolderOptions =
  th_resource_config :: "ResourceBasedTuner option"
  th_workflow :: slot_options
  th_activity :: slot_options
  th_local_activity :: slot_options
  th_nexus :: slot_options

definition tuner_options :: "WorkerOptions \<Rightarrow> nat \<Rightarrow> TunerHolderOptions KtResult" where
  "tuner_options options t =
    (if caches_workflows options \<and> workflow_limit options < 2
     then Err (InvalidArgument ''cached workflows require at least 2 workflow slots'')
     else and_then (resource_config options) (\<lambda>rc.
       and_then (slot (max_concurrent_workflow_tasks options) (workflow_resource_limits options)
         (is_jvm options) 0 (caches_workflows options) t) (\<lambda>w.
       and_then (slot (max_concurrent_activities options) (activity_resource_limits options)
         (is_jvm options) 1 False t) (\<lambda>a.
       and_then (slot (max_concurrent_local_activities options) (local_activity_resource_limits options)
         (is_jvm options) 2 False t) (\<lambda>l.
       and_then (slot (max_concurrent_nexus_tasks options) (nexus_resource_limits options)
         (is_jvm options) 3 False t) (\<lambda>n.
       Ok \<lparr>th_resource_config = rc, th_workflow = w, th_activity = a, th_local_activity = l, th_nexus = n\<rparr>))))))"

definition tuner ::
  "(TunerHolderOptions \<Rightarrow> ('h, string) outcome) \<Rightarrow> ('h \<Rightarrow> ('t, string) outcome) \<Rightarrow> WorkerOptions \<Rightarrow> nat \<Rightarrow> 't KtResult"
where
  "tuner build_holder build_tuner_holder options t =
    and_then (tuner_options options t) (\<lambda>th.
    and_then (map_err (\<lambda>e. InvalidArgument (''invalid slot options: '' @ e)) (build_holder th)) (\<lambda>h.
    map_err KtError_from_anyhow (build_tuner_holder h)))"

section \<open>The whole configuration\<close>

record 't WorkerConfig =
  wc_tuner :: 't
  wc_namespace :: string
  wc_task_queue :: string
  wc_max_cached_workflows :: nat
  wc_enable_workflows :: bool
  wc_enable_local_activities :: bool
  wc_enable_remote_activities :: bool
  wc_enable_nexus :: bool
  wc_versioning :: versioning_strategy
  wc_client_identity_override :: "string option"
  wc_workflow_pollers :: "core_poller option"
  wc_activity_pollers :: "core_poller option"
  wc_nexus_pollers :: "core_poller option"
  wc_max_heartbeat_throttle :: nat
  wc_default_heartbeat_throttle :: nat
  wc_max_worker_activities_per_second :: "f64 option"
  wc_max_task_queue_activities_per_second :: "f64 option"
  wc_nonsticky_to_sticky_poll_ratio :: f64
  wc_sticky_timeout :: nat
  wc_graceful_shutdown_period :: "nat option"
  wc_nondeterminism_fails :: bool
  wc_nondeterminism_fails_for :: "string list"
  wc_max_eager_activity_reservations :: nat
  wc_disable_payload_error_limit :: bool

text \<open>
  The default ratio 0.2 is the single-precision number \<open>13421773 / 2 ^ 26\<close>. The two hash
  collections that hold only the error type \<^verbatim>\<open>Nondeterminism\<close> are a flag and a list of names.
\<close>

definition default_ratio :: f64 where
  "default_ratio = Finite 13421773 (- 26)"

definition optional :: "'a option \<Rightarrow> 'a \<Rightarrow> 'a" where
  "optional x d = (case x of Some v \<Rightarrow> v | None \<Rightarrow> d)"

definition worker_config_with_resource_gate ::
  "(TunerHolderOptions \<Rightarrow> ('h, string) outcome) \<Rightarrow> ('h \<Rightarrow> ('t, string) outcome) \<Rightarrow>
   ('t WorkerConfig \<Rightarrow> ('c, string) outcome) \<Rightarrow> WorkerOptions \<Rightarrow> nat \<Rightarrow> 'c KtResult"
where
  "worker_config_with_resource_gate build_holder build_tuner_holder build_config options t =
    (let ratio = optional (nonsticky_to_sticky_poll_ratio options) default_ratio in
     if blank (wo_namespace options) \<or> blank (task_queue options)
     then Err (InvalidArgument ''namespace and task_queue must not be blank'')
     else if \<not> is_finite ratio \<or> \<not> in_unit_interval ratio
     then Err (InvalidArgument ''nonsticky_to_sticky_poll_ratio must be between 0 and 1'')
     else if list_ex blank (nondeterminism_as_workflow_fail_for_types options)
     then Err (InvalidArgument ''nondeterminism workflow type names must not be blank'')
     else
       and_then (tuner build_holder build_tuner_holder options t) (\<lambda>tu.
       and_then (versioning options) (\<lambda>ver.
       and_then (poller (workflow_poller_behavior options)) (\<lambda>wp.
       and_then (poller (activity_poller_behavior options)) (\<lambda>ap.
       and_then (poller (nexus_poller_behavior options)) (\<lambda>np.
       and_then (duration_millis (optional (max_heartbeat_throttle_interval_millis options) 60000)) (\<lambda>mh.
       and_then (duration_millis (optional (default_heartbeat_throttle_interval_millis options) 30000)) (\<lambda>dh.
       and_then (rate (max_activities_per_second options)) (\<lambda>ra.
       and_then (rate (max_task_queue_activities_per_second options)) (\<lambda>rq.
       and_then (duration_millis (optional (sticky_queue_schedule_to_start_timeout_millis options) 10000)) (\<lambda>st.
       and_then (case graceful_shutdown_period_millis options of
           None \<Rightarrow> Ok None | Some v \<Rightarrow> and_then (duration_millis v) (\<lambda>d. Ok (Some d))) (\<lambda>gr.
       map_err (\<lambda>e. InvalidArgument (''invalid worker config: '' @ e)) (build_config
         \<lparr>wc_tuner = tu, wc_namespace = wo_namespace options, wc_task_queue = task_queue options,
          wc_max_cached_workflows = unat (max_cached_workflows options),
          wc_enable_workflows = (\<not> no_workflows options),
          wc_enable_local_activities = (\<not> no_local_activities options),
          wc_enable_remote_activities = (\<not> no_remote_activities options),
          wc_enable_nexus = enable_nexus options, wc_versioning = ver,
          wc_client_identity_override = (if identity options = [] then None else Some (identity options)),
          wc_workflow_pollers = wp, wc_activity_pollers = ap, wc_nexus_pollers = np,
          wc_max_heartbeat_throttle = mh, wc_default_heartbeat_throttle = dh,
          wc_max_worker_activities_per_second = ra, wc_max_task_queue_activities_per_second = rq,
          wc_nonsticky_to_sticky_poll_ratio = ratio, wc_sticky_timeout = st,
          wc_graceful_shutdown_period = gr,
          wc_nondeterminism_fails = nondeterminism_as_workflow_fail options,
          wc_nondeterminism_fails_for = nondeterminism_as_workflow_fail_for_types options,
          wc_max_eager_activity_reservations =
            unat (optional (max_eager_activity_reservations_per_workflow_task options) 3),
          wc_disable_payload_error_limit = disable_payload_error_limit options\<rparr>)))))))))))))"

section \<open>When the options are accepted\<close>

text \<open>
  The checks the bridge makes itself, as predicates on the options. Core's builders may refuse more: the tests
  of the repository expect it of a poller behaviour \<open>SimpleMaximum 0\<close>, and of resource limits without a tuner.
\<close>

definition duration_fits :: "u64 \<Rightarrow> bool" where
  "duration_fits v \<longleftrightarrow> unat v < 2 ^ 63"

definition rate_valid :: "f64 option \<Rightarrow> bool" where
  "rate_valid v \<longleftrightarrow> (\<forall>x. v = Some x \<longrightarrow> is_finite x \<and> \<not> negative x)"

definition deployment_valid :: "WorkerOptions \<Rightarrow> bool" where
  "deployment_valid o' \<longleftrightarrow> (\<forall>d. deployment_options o' = Some d \<longrightarrow>
     \<not> blank (deployment_name d) \<and> \<not> blank (deployment_build_id d) \<and> default_versioning_behavior d \<le> 2)"

definition slots_valid :: "u32 option \<Rightarrow> ResourceSlotLimits option \<Rightarrow> bool" where
  "slots_valid fixed limits \<longleftrightarrow> (case limits of
     None \<Rightarrow> fixed \<noteq> Some 0
   | Some l \<Rightarrow> fixed = None \<and> 0 < maximum_slots l \<and> minimum_slots l \<le> maximum_slots l \<and>
       duration_fits (ramp_throttle_millis l))"

definition tuner_valid :: "WorkerOptions \<Rightarrow> bool" where
  "tuner_valid o' \<longleftrightarrow> (caches_workflows o' \<longrightarrow> 2 \<le> workflow_limit o') \<and>
     (\<forall>rb. resource_tuner o' = Some rb \<longrightarrow> in_unit_interval (target_memory_usage rb) \<and>
        in_unit_interval (target_cpu_usage rb) \<and> list_all is_finite (tuner_gains rb)) \<and>
     slots_valid (max_concurrent_workflow_tasks o') (workflow_resource_limits o') \<and>
     slots_valid (max_concurrent_activities o') (activity_resource_limits o') \<and>
     slots_valid (max_concurrent_local_activities o') (local_activity_resource_limits o') \<and>
     slots_valid (max_concurrent_nexus_tasks o') (nexus_resource_limits o')"

definition own_checks :: "WorkerOptions \<Rightarrow> bool" where
  "own_checks o' \<longleftrightarrow> \<not> blank (wo_namespace o') \<and> \<not> blank (task_queue o') \<and>
     in_unit_interval (optional (nonsticky_to_sticky_poll_ratio o') default_ratio) \<and>
     list_all (\<lambda>s. \<not> blank s) (nondeterminism_as_workflow_fail_for_types o') \<and>
     tuner_valid o' \<and> deployment_valid o' \<and>
     workflow_poller_behavior o' \<noteq> Some None \<and> activity_poller_behavior o' \<noteq> Some None \<and>
     nexus_poller_behavior o' \<noteq> Some None \<and>
     duration_fits (optional (max_heartbeat_throttle_interval_millis o') 60000) \<and>
     duration_fits (optional (default_heartbeat_throttle_interval_millis o') 30000) \<and>
     rate_valid (max_activities_per_second o') \<and> rate_valid (max_task_queue_activities_per_second o') \<and>
     duration_fits (optional (sticky_queue_schedule_to_start_timeout_millis o') 10000) \<and>
     (\<forall>v. graceful_shutdown_period_millis o' = Some v \<longrightarrow> duration_fits v)"

text \<open>What the options mean for Core: the slot options and the configuration its builders are handed.\<close>

definition core_versioning :: "WorkerOptions \<Rightarrow> versioning_strategy" where
  "core_versioning o' = (case deployment_options o' of
     None \<Rightarrow> VersioningNone (build_id o')
   | Some d \<Rightarrow> WorkerDeploymentBased (deployment_name d) (deployment_build_id d) (use_worker_versioning d)
       (map_of [(1, Pinned), (2, AutoUpgrade)] (default_versioning_behavior d)))"

fun core_strategy :: "poller_strategy \<Rightarrow> core_poller" where
  "core_strategy (SimpleMaximum m) = CoreSimpleMaximum (unat m)"
| "core_strategy (Autoscaling lo hi ini) = CoreAutoscaling (unat lo) (unat hi) (unat ini)"

definition core_rate :: "f64 option \<Rightarrow> f64 option" where
  "core_rate v = Option.bind v (\<lambda>x. if positive x then Some x else None)"

definition core_slot :: "WorkerOptions \<Rightarrow> u32 option \<Rightarrow> ResourceSlotLimits option \<Rightarrow> nat \<Rightarrow> bool \<Rightarrow> nat \<Rightarrow> slot_options" where
  "core_slot o' fixed limits k is_sticky t = (case limits of
     None \<Rightarrow> FixedSize (case fixed of None \<Rightarrow> 100 | Some n \<Rightarrow> unat n)
   | Some l \<Rightarrow> if is_jvm o' then Custom (supplier l k is_sticky t)
       else ResourceBased (unat (minimum_slots l)) (unat (maximum_slots l)) (unat (ramp_throttle_millis l)))"

definition core_holder :: "WorkerOptions \<Rightarrow> nat \<Rightarrow> TunerHolderOptions" where
  "core_holder o' t =
    \<lparr>th_resource_config = (if is_jvm o' then None else resource_tuner o'),
     th_workflow = core_slot o' (max_concurrent_workflow_tasks o') (workflow_resource_limits o') 0 (caches_workflows o') t,
     th_activity = core_slot o' (max_concurrent_activities o') (activity_resource_limits o') 1 False t,
     th_local_activity = core_slot o' (max_concurrent_local_activities o') (local_activity_resource_limits o') 2 False t,
     th_nexus = core_slot o' (max_concurrent_nexus_tasks o') (nexus_resource_limits o') 3 False t\<rparr>"

definition core_config :: "'t \<Rightarrow> WorkerOptions \<Rightarrow> 't WorkerConfig" where
  "core_config tu o' =
    \<lparr>wc_tuner = tu, wc_namespace = wo_namespace o', wc_task_queue = task_queue o',
     wc_max_cached_workflows = unat (max_cached_workflows o'),
     wc_enable_workflows = (\<not> no_workflows o'), wc_enable_local_activities = (\<not> no_local_activities o'),
     wc_enable_remote_activities = (\<not> no_remote_activities o'), wc_enable_nexus = enable_nexus o',
     wc_versioning = core_versioning o',
     wc_client_identity_override = (if identity o' = [] then None else Some (identity o')),
     wc_workflow_pollers = map_option (core_strategy \<circ> the) (workflow_poller_behavior o'),
     wc_activity_pollers = map_option (core_strategy \<circ> the) (activity_poller_behavior o'),
     wc_nexus_pollers = map_option (core_strategy \<circ> the) (nexus_poller_behavior o'),
     wc_max_heartbeat_throttle = unat (optional (max_heartbeat_throttle_interval_millis o') 60000),
     wc_default_heartbeat_throttle = unat (optional (default_heartbeat_throttle_interval_millis o') 30000),
     wc_max_worker_activities_per_second = core_rate (max_activities_per_second o'),
     wc_max_task_queue_activities_per_second = core_rate (max_task_queue_activities_per_second o'),
     wc_nonsticky_to_sticky_poll_ratio = optional (nonsticky_to_sticky_poll_ratio o') default_ratio,
     wc_sticky_timeout = unat (optional (sticky_queue_schedule_to_start_timeout_millis o') 10000),
     wc_graceful_shutdown_period = map_option unat (graceful_shutdown_period_millis o'),
     wc_nondeterminism_fails = nondeterminism_as_workflow_fail o',
     wc_nondeterminism_fails_for = nondeterminism_as_workflow_fail_for_types o',
     wc_max_eager_activity_reservations = unat (optional (max_eager_activity_reservations_per_workflow_task o') 3),
     wc_disable_payload_error_limit = disable_payload_error_limit o'\<rparr>"

lemma map_err_Ok_iff: "map_err f m = Ok x \<longleftrightarrow> m = Ok x"
  by (cases m) (simp_all add: map_err_def)

lemma unit_finite: "in_unit_interval x \<Longrightarrow> is_finite x"
  by (cases x) auto

lemma duration_millis_ok: "duration_millis v = Ok d \<longleftrightarrow> duration_fits v \<and> d = unat v"
  by (auto simp: duration_millis_def duration_fits_def)

lemma rate_ok: "rate v = Ok x \<longleftrightarrow> rate_valid v \<and> x = core_rate v"
  by (cases v) (auto simp: rate_def rate_valid_def core_rate_def)

lemma poller_ok: "poller p = Ok x \<longleftrightarrow> p \<noteq> Some None \<and> x = map_option (core_strategy \<circ> the) p"
  by (cases p rule: poller.cases) auto

lemma le_2_iff: "(v :: u32) \<le> 2 \<longleftrightarrow> v = 0 \<or> v = 1 \<or> v = 2"
proof
  assume "v \<le> 2"
  then have "unat v \<le> 2" by (simp add: word_le_nat_alt)
  then have "unat v = 0 \<or> unat v = 1 \<or> unat v = 2" by arith
  then show "v = 0 \<or> v = 1 \<or> v = 2" by (auto simp: word_unat_eq_iff)
qed auto

lemma versioning_ok: "versioning o' = Ok x \<longleftrightarrow> deployment_valid o' \<and> x = core_versioning o'"
  by (auto simp: versioning_def deployment_valid_def core_versioning_def le_2_iff and_then_Ok_iff
      split: option.splits if_splits)

lemma slot_ok:
  "slot fixed limits (is_jvm o') k s t = Ok x \<longleftrightarrow> slots_valid fixed limits \<and> x = core_slot o' fixed limits k s t"
  by (auto simp: slot_def slots_valid_def core_slot_def and_then_Ok_iff duration_millis_ok word_neq_0_conv not_less
      split: option.splits if_splits)

lemma resource_config_ok:
  "resource_config o' = Ok x \<longleftrightarrow>
     (\<forall>rb. resource_tuner o' = Some rb \<longrightarrow> in_unit_interval (target_memory_usage rb) \<and>
        in_unit_interval (target_cpu_usage rb) \<and> list_all is_finite (tuner_gains rb)) \<and>
     x = (if is_jvm o' then None else resource_tuner o')"
  by (auto simp: resource_config_def list_ex_iff list_all_iff dest: unit_finite split: option.splits if_splits)

lemma graceful_ok:
  "(case g of None \<Rightarrow> Ok None | Some v \<Rightarrow> and_then (duration_millis v) (\<lambda>d. Ok (Some d))) = Ok x \<longleftrightarrow>
     (\<forall>v. g = Some v \<longrightarrow> duration_fits v) \<and> x = map_option unat g"
  by (cases g) (auto simp: and_then_Ok_iff duration_millis_ok)

lemma tuner_options_ok: "tuner_options o' t = Ok x \<longleftrightarrow> tuner_valid o' \<and> x = core_holder o' t"
  unfolding tuner_options_def tuner_valid_def core_holder_def
  by (auto simp: and_then_Ok_iff resource_config_ok slot_ok not_less)

lemma tuner_ok:
  "tuner build_holder build_tuner_holder o' t = Ok x \<longleftrightarrow>
     tuner_valid o' \<and> (\<exists>h. build_holder (core_holder o' t) = Ok h \<and> build_tuner_holder h = Ok x)"
  by (auto simp: tuner_def and_then_Ok_iff tuner_options_ok map_err_Ok_iff)

lemma worker_config_Ok_iff:
  "worker_config_with_resource_gate build_holder build_tuner_holder build_config o' t = Ok c \<longleftrightarrow>
     own_checks o' \<and> (\<exists>h tu. build_holder (core_holder o' t) = Ok h \<and> build_tuner_holder h = Ok tu \<and>
       build_config (core_config tu o') = Ok c)"
  unfolding worker_config_with_resource_gate_def own_checks_def core_config_def Let_def
  by (auto simp: and_then_Ok_iff tuner_ok versioning_ok poller_ok duration_millis_ok rate_ok graceful_ok
      map_err_Ok_iff list_ex_iff list_all_iff dest: unit_finite split: if_splits)

lemma worker_config_ok:
  assumes "\<forall>x. \<exists>y. build_holder x = Ok y" and "\<forall>x. \<exists>y. build_tuner_holder x = Ok y"
    and "\<forall>x. \<exists>y. build_config x = Ok y"
  shows "(\<exists>c. worker_config_with_resource_gate build_holder build_tuner_holder build_config o' t = Ok c) \<longleftrightarrow> own_checks o'"
  unfolding worker_config_Ok_iff using assms by meson

text \<open>Every error of the checks is an invalid argument, and none of them panics.\<close>

fun fails_only :: "(KtError \<Rightarrow> bool) \<Rightarrow> (panic_payload \<Rightarrow> bool) \<Rightarrow> 'a KtResult \<Rightarrow> bool" where
  "fails_only P Q (Ok _) = True"
| "fails_only P Q (Err e) = P e"
| "fails_only P Q (Panicked p) = Q p"

lemma fails_only_and_then:
  "fails_only P Q m \<Longrightarrow> (\<And>x. m = Ok x \<Longrightarrow> fails_only P Q (f x)) \<Longrightarrow> fails_only P Q (and_then m f)"
  by (cases m) auto

lemma fails_only_map_err:
  "fails_only P Q (map_err f m) \<longleftrightarrow> (\<forall>e. m = Err e \<longrightarrow> P (f e)) \<and> (\<forall>p. m = Panicked p \<longrightarrow> Q p)"
  by (cases m) (simp_all add: map_err_def)

lemma fails_only_pieces:
  assumes "\<And>m. P (InvalidArgument m)"
  shows "fails_only P Q (duration_millis v)" "fails_only P Q (rate r)" "fails_only P Q (poller p)"
    "fails_only P Q (versioning o')" "fails_only P Q (slot fixed limits jvm k s t)" "fails_only P Q (resource_config o')"
proof -
  show "fails_only P Q (duration_millis v)" for v using assms by (simp add: duration_millis_def)
  then show "fails_only P Q (slot fixed limits jvm k s t)"
    using assms by (auto simp: slot_def intro!: fails_only_and_then split: option.splits)
  show "fails_only P Q (poller p)" using assms by (cases p rule: poller.cases) auto
qed (use assms in \<open>auto simp: rate_def versioning_def resource_config_def intro!: fails_only_and_then split: option.splits\<close>)

lemma fails_only_tuner_options: "(\<And>m. P (InvalidArgument m)) \<Longrightarrow> fails_only P Q (tuner_options o' t)"
  unfolding tuner_options_def by (auto intro!: fails_only_and_then fails_only_pieces)

text \<open>How a configuration can fail: the error of \<open>build_tuner_holder\<close> is the one that is passed on as it is.\<close>

lemma worker_config_fails_only:
  assumes "\<And>m. P (InvalidArgument m)"
    and "\<And>h m. build_holder (core_holder o' t) = Ok h \<Longrightarrow> build_tuner_holder h = Err m \<Longrightarrow> P (Failed m)"
    and "\<And>p. build_holder (core_holder o' t) = Panicked p \<Longrightarrow> Q p"
    and "\<And>h p. build_holder (core_holder o' t) = Ok h \<Longrightarrow> build_tuner_holder h = Panicked p \<Longrightarrow> Q p"
    and "\<And>h tu p. build_holder (core_holder o' t) = Ok h \<Longrightarrow> build_tuner_holder h = Ok tu \<Longrightarrow>
      build_config (core_config tu o') = Panicked p \<Longrightarrow> Q p"
  shows "fails_only P Q (worker_config_with_resource_gate build_holder build_tuner_holder build_config o' t)"
proof -
  have "fails_only P Q (tuner build_holder build_tuner_holder o' t)"
    unfolding tuner_def
    by (intro fails_only_and_then fails_only_tuner_options assms(1))
      (auto simp: fails_only_map_err map_err_Ok_iff tuner_options_ok KtError_from_anyhow_def intro: assms)
  moreover have "fails_only P Q (case g of None \<Rightarrow> Ok None | Some v \<Rightarrow> and_then (duration_millis v) (\<lambda>d. Ok (Some d)))" for g
    using assms(1) by (auto intro!: fails_only_and_then fails_only_pieces split: option.split)
  moreover have "Q p" if "tuner build_holder build_tuner_holder o' t = Ok tu" "build_config (core_config tu o') = Panicked p" for tu p
    using that assms(5) by (auto simp: tuner_ok)
  ultimately show ?thesis
    unfolding worker_config_with_resource_gate_def Let_def
    by (auto simp: assms(1) fails_only_map_err versioning_ok poller_ok duration_millis_ok rate_ok graceful_ok core_config_def
        intro!: fails_only_and_then fails_only_pieces)
qed

text \<open>C35: Worker options are accepted exactly when they pass the bridge's own checks and Core's builders accept what
  they are handed, and Core is handed exactly what the options say. Whatever the options and whatever Core's builders do, which
  may refuse more than the bridge (a poller behaviour \<open>SimpleMaximum 0\<close>, resource limits without a tuner),
  the configuration is built exactly when the names are not blank, the ratio and targets are in range,
  the slot limits are consistent (two workflow slots at least when workflows are cached), every
  duration fits signed milliseconds, the rates are finite and not negative, the pollers have a
  strategy, the deployment is complete, and the three builders succeed on the slot options and the configuration
  that \<open>core_holder\<close> and \<open>core_config\<close> spell out field by field. Otherwise the error is an invalid argument,
  except that an error of \<^verbatim>\<open>build_tuner_holder\<close> is passed on as a failure; and nothing panics but a builder.\<close>

theorem worker_config_accepts_exactly:
  "let r = worker_config_with_resource_gate build_holder build_tuner_holder build_config o' t in
    (\<forall>c. r = Ok c \<longleftrightarrow> own_checks o' \<and> (\<exists>h tu. build_holder (core_holder o' t) = Ok h \<and> build_tuner_holder h = Ok tu \<and>
       build_config (core_config tu o') = Ok c)) \<and>
    (\<forall>e. r = Err e \<longrightarrow> (\<exists>m. e = InvalidArgument m) \<or>
       (\<exists>h m. build_holder (core_holder o' t) = Ok h \<and> build_tuner_holder h = Err m \<and> e = Failed m)) \<and>
    (\<forall>p. r = Panicked p \<longrightarrow> build_holder (core_holder o' t) = Panicked p \<or>
       (\<exists>h. build_holder (core_holder o' t) = Ok h \<and> (build_tuner_holder h = Panicked p \<or>
         (\<exists>tu. build_tuner_holder h = Ok tu \<and> build_config (core_config tu o') = Panicked p))))"
proof -
  let ?r = "worker_config_with_resource_gate build_holder build_tuner_holder build_config o' t"
  let ?P = "\<lambda>e. (\<exists>m. e = InvalidArgument m) \<or>
    (\<exists>h m. build_holder (core_holder o' t) = Ok h \<and> build_tuner_holder h = Err m \<and> e = Failed m)"
  let ?Q = "\<lambda>p. build_holder (core_holder o' t) = Panicked p \<or>
    (\<exists>h. build_holder (core_holder o' t) = Ok h \<and> (build_tuner_holder h = Panicked p \<or>
      (\<exists>tu. build_tuner_holder h = Ok tu \<and> build_config (core_config tu o') = Panicked p)))"
  have "fails_only ?P ?Q ?r" by (rule worker_config_fails_only) blast+
  then have "?r = Err e \<Longrightarrow> ?P e" "?r = Panicked p \<Longrightarrow> ?Q p" for e p by auto
  then show ?thesis unfolding Let_def by (intro conjI allI impI worker_config_Ok_iff)
qed

definition demo_options :: WorkerOptions where
  "demo_options = \<lparr>wo_namespace = ''default'', task_queue = ''tasks'', identity = [], max_cached_workflows = 10,
     max_concurrent_workflow_tasks = None, max_concurrent_activities = None, max_concurrent_local_activities = None,
     no_remote_activities = False, build_id = [],
     resource_tuner = Some \<lparr>jvm_resource_based = True, target_memory_usage = Finite 1 (- 1), target_cpu_usage = Finite 1 0,
       memory_p_gain = Finite 5 0, memory_i_gain = Finite 0 0, memory_d_gain = Finite 1 0, memory_output_threshold = Finite 1 (- 2),
       cpu_p_gain = Finite 5 0, cpu_i_gain = Finite 0 0, cpu_d_gain = Finite 1 0, cpu_output_threshold = Finite 1 (- 4)\<rparr>,
     workflow_resource_limits = Some \<lparr>minimum_slots = 1, maximum_slots = 4, ramp_throttle_millis = 0\<rparr>,
     activity_resource_limits = None, local_activity_resource_limits = None, no_workflows = False,
     no_local_activities = False, deployment_options = None, workflow_poller_behavior = None,
     activity_poller_behavior = None, nexus_poller_behavior = Some (Some (SimpleMaximum 2)),
     max_heartbeat_throttle_interval_millis = None, default_heartbeat_throttle_interval_millis = None,
     max_activities_per_second = Some (Finite 0 0), max_task_queue_activities_per_second = None,
     nonsticky_to_sticky_poll_ratio = None, sticky_queue_schedule_to_start_timeout_millis = None,
     graceful_shutdown_period_millis = Some 0, nondeterminism_as_workflow_fail = False,
     nondeterminism_as_workflow_fail_for_types = [], max_eager_activity_reservations_per_workflow_task = None,
     disable_payload_error_limit = False, enable_nexus = True, max_concurrent_nexus_tasks = Some 5,
     nexus_resource_limits = None\<rparr>"

lemma demo_options_valid: "own_checks demo_options"
  by (simp add: own_checks_def demo_options_def blank_def optional_def default_ratio_def tuner_valid_def
      tuner_gains_def caches_workflows_def workflow_limit_def slots_valid_def duration_fits_def
      deployment_valid_def rate_valid_def)

text \<open>A builder that refuses a maximum of no pollers, as Core's does.\<close>

definition demo_build_config :: "'t WorkerConfig \<Rightarrow> ('t WorkerConfig, string) outcome" where
  "demo_build_config c = (if wc_activity_pollers c = Some (CoreSimpleMaximum 0) then Err ''no pollers'' else Ok c)"

theorem worker_config_accepts_exactly_witness:
  "worker_config_with_resource_gate (\<lambda>h. Ok h) (\<lambda>h. Ok h) demo_build_config demo_options 0 =
     Ok (core_config (core_holder demo_options 0) demo_options) \<and>
   (\<exists>m. worker_config_with_resource_gate (\<lambda>h. Ok h) (\<lambda>h. Ok h) demo_build_config
     (demo_options\<lparr>activity_poller_behavior := Some (Some (SimpleMaximum 0))\<rparr>) 0 = Err (InvalidArgument m))"
proof
  show "worker_config_with_resource_gate (\<lambda>h. Ok h) (\<lambda>h. Ok h) demo_build_config demo_options 0 =
      Ok (core_config (core_holder demo_options 0) demo_options)"
    using worker_config_accepts_exactly [of "\<lambda>h. Ok h" "\<lambda>h. Ok h" demo_build_config demo_options 0] demo_options_valid
    by (simp add: Let_def demo_build_config_def core_config_def demo_options_def)
  let ?o = "demo_options\<lparr>activity_poller_behavior := Some (Some (SimpleMaximum 0))\<rparr>"
  let ?r = "worker_config_with_resource_gate (\<lambda>h. Ok h) (\<lambda>h. Ok h) demo_build_config ?o 0"
  have w: "\<forall>c. ?r \<noteq> Ok c" "\<forall>p. ?r \<noteq> Panicked p" "\<forall>e. ?r = Err e \<longrightarrow> (\<exists>m. e = InvalidArgument m)"
    using worker_config_accepts_exactly [of "\<lambda>h. Ok h" "\<lambda>h. Ok h" demo_build_config ?o 0]
    by (simp_all add: Let_def demo_build_config_def core_config_def)
  then show "\<exists>m. ?r = Err (InvalidArgument m)" by (cases ?r) auto
qed

text \<open>C36: The configuration check establishes what the slot supplier needs. For any accepted options,
  a workflow supplier that the JVM directs has consistent limits and starts empty, and if workflows
  are cached then in every reachable state a queue without a permit (the sticky one or the normal
  one) gets one at its first try.\<close>

theorem accepted_worker_never_starves:
  assumes "tuner_options o' t = Ok th" and "th_workflow th = Custom (sl, st)"
  shows "skind sl = 0 \<and> minimum sl \<le> maximum sl \<and> 0 < maximum sl \<and> issued st = [0, 0] \<and>
    (caches_workflows o' \<and> runs (slot_init sl) (slot_step sl) w \<and> held w (if ctx then 1 else 0) = 0 \<longrightarrow>
      try_reserve_slot sl ctx (now w) (gate w, sstate w) \<noteq> None)"
proof -
  from assms(1) have lim: "caches_workflows o' \<longrightarrow> 2 \<le> workflow_limit o'"
    and w: "slot (max_concurrent_workflow_tasks o') (workflow_resource_limits o') (is_jvm o') 0
      (caches_workflows o') t = Ok (th_workflow th)"
    by (auto simp: tuner_options_def and_then_Ok_iff split: if_splits)
  from w assms(2) obtain l where l: "workflow_resource_limits o' = Some l" "0 < maximum_slots l"
    "minimum_slots l \<le> maximum_slots l" "(sl, st) = supplier l 0 (caches_workflows o') t"
    by (auto simp: slot_def and_then_Ok_iff word_neq_0_conv not_less split: option.splits if_splits)
  then have sl: "minimum sl = unat (minimum_slots l)" "maximum sl = unat (maximum_slots l)" "skind sl = 0"
    "sticky sl = caches_workflows o'" "issued st = [0, 0]" by (simp_all add: supplier_def)
  have "try_reserve_slot sl ctx (now w) (gate w, sstate w) \<noteq> None"
    if "caches_workflows o'" "runs (slot_init sl) (slot_step sl) w" "held w (if ctx then 1 else 0) = 0"
    using lim that sl l(1) by (intro sticky_try_succeeds) (simp_all add: workflow_limit_def)
  then show ?thesis using sl l by (auto simp: word_le_nat_alt word_less_nat_alt)
qed

theorem accepted_worker_never_starves_witness:
  "\<exists>th sl st. tuner_options demo_options 0 = Ok th \<and> th_workflow th = Custom (sl, st) \<and> 0 < maximum sl"
proof -
  have "tuner_valid demo_options" using demo_options_valid by (simp add: own_checks_def)
  then obtain th where th: "tuner_options demo_options 0 = Ok th" using tuner_options_ok by blast
  then obtain sl st where "th_workflow th = Custom (sl, st)"
    by (auto simp: tuner_options_def and_then_Ok_iff slot_def demo_options_def is_jvm_def duration_millis_ok
        supplier_def split: if_splits)
  with accepted_worker_never_starves [OF th this] th show ?thesis by blast
qed

end
