(* ===== verification/Kt_Rpc.thy ===== *)
theory Kt_Rpc
  imports Kt_Error
begin

text \<open>
  gRPC dispatch (\<^verbatim>\<open>rpc.rs\<close>): the services, the method tables, deadlines, and what a call reports.

  The generated clients and the protobuf codec are not under this repository. \<open>decode\<close> decodes a
  request of a named type or gives the codec's error text; \<open>invoke\<close> is the call of a client method:
  when it resolves, if ever, and with what. \<open>encode_failure\<close> encodes \<^verbatim>\<open>RpcFailure\<close>, and \<open>code_name\<close> is
  tonic's debug name of a status code.
\<close>

section \<open>Services and outcomes\<close>

datatype Service = Workflow | Operator | Test

definition Service_from_u32 :: "u32 \<Rightarrow> Service KtResult" where
  "Service_from_u32 v =
    (if v = 0 then Ok Workflow else if v = 1 then Ok Operator else if v = 2 then Ok Test
     else Err (InvalidArgument (''unknown service '' @ decimal (unat v))))"

record RpcOutcome =
  ro_payload :: "u8 list"
  ro_status_code :: i32
  ro_message :: string

section \<open>Deadlines\<close>

text \<open>
  A future resolves after some milliseconds with a response or a status, or never (\<open>None\<close>). The
  result of awaiting it under a deadline is \<open>None\<close> when the await never ends.
\<close>

type_synonym 'a future = "(nat \<times> ('a, tonic_status) outcome) option"

text \<open>\<^verbatim>\<open>Debug for Duration\<close> of a whole number of milliseconds.\<close>

fun digits3 :: "nat \<Rightarrow> string" where
  "digits3 n = (if n = 0 then [] else if n mod 100 = 0 then decimal (n div 100)
     else if n mod 10 = 0 then decimal (n div 100) @ decimal (n div 10 mod 10)
     else decimal (n div 100) @ decimal (n div 10 mod 10) @ decimal (n mod 10))"

definition show_duration :: "nat \<Rightarrow> string" where
  "show_duration ms =
    (if ms = 0 then ''0ns''
     else if ms < 1000 then decimal ms @ ''ms''
     else decimal (ms div 1000) @ (if ms mod 1000 = 0 then [] else ''.'' @ digits3 (ms mod 1000)) @ ''s'')"

definition deadline_status :: "nat \<Rightarrow> tonic_status" where
  "deadline_status ms = \<lparr>ts_code = GRPC_DEADLINE_EXCEEDED,
     ts_message = ''client deadline of '' @ show_duration ms @ '' elapsed'', ts_details = [], ts_source = []\<rparr>"

fun with_deadline :: "nat option \<Rightarrow> 'a future \<Rightarrow> ('a, tonic_status) outcome option" where
  "with_deadline None call_future = map_option snd call_future"
| "with_deadline (Some t) call_future =
     (case call_future of
        Some (done_at, result) \<Rightarrow> Some (if done_at \<le> t then result else Err (deadline_status t))
      | None \<Rightarrow> Some (Err (deadline_status t)))"

fun join :: "string \<Rightarrow> string list \<Rightarrow> string" where
  "join sep [] = []"
| "join sep [s] = s"
| "join sep (s # ss) = s @ sep @ join sep ss"

definition status_message :: "(i32 \<Rightarrow> string) \<Rightarrow> tonic_status \<Rightarrow> string" where
  "status_message code_name st =
    (if ts_message st \<noteq> [] then ts_message st
     else if ts_source st = [] then code_name (ts_code st) @ '' with no message''
     else code_name (ts_code st) @ '': '' @ join '': '' (map cause_text (ts_source st)))"

text \<open>What the macro's match makes of a finished call; a panic of the client unwinds.\<close>

definition outcome_of ::
  "(i32 \<Rightarrow> string) \<Rightarrow> (string \<Rightarrow> u8 list \<Rightarrow> u8 list) \<Rightarrow> (u8 list, tonic_status) outcome \<Rightarrow> RpcOutcome KtResult"
where
  "outcome_of code_name encode_failure r = (case r of
      Ok response \<Rightarrow> Ok \<lparr>ro_payload = response, ro_status_code = 0, ro_message = []\<rparr>
    | Err st \<Rightarrow> Ok \<lparr>ro_payload = encode_failure (status_message code_name st) (ts_details st),
                   ro_status_code = grpc_status_code st, ro_message = status_message code_name st\<rparr>
    | Panicked p \<Rightarrow> Panicked p)"

section \<open>Dispatch\<close>

text \<open>An arm of the table: the RPC's name, the client method and the request type.\<close>

type_synonym arm = "string \<times> string \<times> string"

record 'req backend =
  decode :: "string \<Rightarrow> u8 list \<Rightarrow> ('req, string) outcome"
  invoke :: "string \<Rightarrow> 'req \<Rightarrow> nat option \<Rightarrow> u8 list future"
  invoke_unit :: "string \<Rightarrow> nat option \<Rightarrow> u8 list future"
  code_name :: "i32 \<Rightarrow> string"
  encode_failure :: "string \<Rightarrow> u8 list \<Rightarrow> u8 list"

fun find_arm :: "arm list \<Rightarrow> string \<Rightarrow> (string \<times> string) option" where
  "find_arm [] rpc = None"
| "find_arm ((n, m, r) # arms) rpc = (if rpc = n then Some (m, r) else find_arm arms rpc)"

definition dispatch ::
  "'req backend \<Rightarrow> arm list \<Rightarrow> string \<Rightarrow> u8 list \<Rightarrow> nat option \<Rightarrow> RpcOutcome KtResult option"
where
  "dispatch be arms rpc bytes timeout =
    (case find_arm arms rpc of
       None \<Rightarrow> Some (Err (InvalidArgument (''unknown rpc '' @ rpc)))
     | Some (m, r) \<Rightarrow>
         (case decode be r bytes of
            Err e \<Rightarrow> Some (Err (InvalidArgument (rpc @ '' request: '' @ e)))
          | Panicked p \<Rightarrow> Some (Panicked p)
          | Ok req \<Rightarrow> map_option (outcome_of (code_name be) (encode_failure be))
              (with_deadline timeout (invoke be m req timeout))))"

definition workflow_arms :: "arm list" where
  "workflow_arms = [
    (''RegisterNamespace'', ''register_namespace'', ''RegisterNamespaceRequest''),
    (''DescribeNamespace'', ''describe_namespace'', ''DescribeNamespaceRequest''),
    (''ListNamespaces'', ''list_namespaces'', ''ListNamespacesRequest''),
    (''UpdateNamespace'', ''update_namespace'', ''UpdateNamespaceRequest''),
    (''DeprecateNamespace'', ''deprecate_namespace'', ''DeprecateNamespaceRequest''),
    (''StartWorkflowExecution'', ''start_workflow_execution'', ''StartWorkflowExecutionRequest''),
    (''GetWorkflowExecutionHistory'', ''get_workflow_execution_history'', ''GetWorkflowExecutionHistoryRequest''),
    (''GetWorkflowExecutionHistoryReverse'', ''get_workflow_execution_history_reverse'', ''GetWorkflowExecutionHistoryReverseRequest''),
    (''PollWorkflowTaskQueue'', ''poll_workflow_task_queue'', ''PollWorkflowTaskQueueRequest''),
    (''RespondWorkflowTaskCompleted'', ''respond_workflow_task_completed'', ''RespondWorkflowTaskCompletedRequest''),
    (''RespondWorkflowTaskFailed'', ''respond_workflow_task_failed'', ''RespondWorkflowTaskFailedRequest''),
    (''PollActivityTaskQueue'', ''poll_activity_task_queue'', ''PollActivityTaskQueueRequest''),
    (''RecordActivityTaskHeartbeat'', ''record_activity_task_heartbeat'', ''RecordActivityTaskHeartbeatRequest''),
    (''RecordActivityTaskHeartbeatById'', ''record_activity_task_heartbeat_by_id'', ''RecordActivityTaskHeartbeatByIdRequest''),
    (''RespondActivityTaskCompleted'', ''respond_activity_task_completed'', ''RespondActivityTaskCompletedRequest''),
    (''RespondActivityTaskCompletedById'', ''respond_activity_task_completed_by_id'', ''RespondActivityTaskCompletedByIdRequest''),
    (''RespondActivityTaskFailed'', ''respond_activity_task_failed'', ''RespondActivityTaskFailedRequest''),
    (''RespondActivityTaskFailedById'', ''respond_activity_task_failed_by_id'', ''RespondActivityTaskFailedByIdRequest''),
    (''RespondActivityTaskCanceled'', ''respond_activity_task_canceled'', ''RespondActivityTaskCanceledRequest''),
    (''RespondActivityTaskCanceledById'', ''respond_activity_task_canceled_by_id'', ''RespondActivityTaskCanceledByIdRequest''),
    (''RequestCancelWorkflowExecution'', ''request_cancel_workflow_execution'', ''RequestCancelWorkflowExecutionRequest''),
    (''SignalWorkflowExecution'', ''signal_workflow_execution'', ''SignalWorkflowExecutionRequest''),
    (''SignalWithStartWorkflowExecution'', ''signal_with_start_workflow_execution'', ''SignalWithStartWorkflowExecutionRequest''),
    (''ResetWorkflowExecution'', ''reset_workflow_execution'', ''ResetWorkflowExecutionRequest''),
    (''TerminateWorkflowExecution'', ''terminate_workflow_execution'', ''TerminateWorkflowExecutionRequest''),
    (''DeleteWorkflowExecution'', ''delete_workflow_execution'', ''DeleteWorkflowExecutionRequest''),
    (''ListOpenWorkflowExecutions'', ''list_open_workflow_executions'', ''ListOpenWorkflowExecutionsRequest''),
    (''ListClosedWorkflowExecutions'', ''list_closed_workflow_executions'', ''ListClosedWorkflowExecutionsRequest''),
    (''ListWorkflowExecutions'', ''list_workflow_executions'', ''ListWorkflowExecutionsRequest''),
    (''ListArchivedWorkflowExecutions'', ''list_archived_workflow_executions'', ''ListArchivedWorkflowExecutionsRequest''),
    (''ScanWorkflowExecutions'', ''scan_workflow_executions'', ''ScanWorkflowExecutionsRequest''),
    (''CountWorkflowExecutions'', ''count_workflow_executions'', ''CountWorkflowExecutionsRequest''),
    (''CreateWorkflowRule'', ''create_workflow_rule'', ''CreateWorkflowRuleRequest''),
    (''DescribeWorkflowRule'', ''describe_workflow_rule'', ''DescribeWorkflowRuleRequest''),
    (''DeleteWorkflowRule'', ''delete_workflow_rule'', ''DeleteWorkflowRuleRequest''),
    (''ListWorkflowRules'', ''list_workflow_rules'', ''ListWorkflowRulesRequest''),
    (''TriggerWorkflowRule'', ''trigger_workflow_rule'', ''TriggerWorkflowRuleRequest''),
    (''GetSearchAttributes'', ''get_search_attributes'', ''GetSearchAttributesRequest''),
    (''RespondQueryTaskCompleted'', ''respond_query_task_completed'', ''RespondQueryTaskCompletedRequest''),
    (''ResetStickyTaskQueue'', ''reset_sticky_task_queue'', ''ResetStickyTaskQueueRequest''),
    (''QueryWorkflow'', ''query_workflow'', ''QueryWorkflowRequest''),
    (''DescribeWorkflowExecution'', ''describe_workflow_execution'', ''DescribeWorkflowExecutionRequest''),
    (''DescribeTaskQueue'', ''describe_task_queue'', ''DescribeTaskQueueRequest''),
    (''GetClusterInfo'', ''get_cluster_info'', ''GetClusterInfoRequest''),
    (''GetSystemInfo'', ''get_system_info'', ''GetSystemInfoRequest''),
    (''ListTaskQueuePartitions'', ''list_task_queue_partitions'', ''ListTaskQueuePartitionsRequest''),
    (''CreateSchedule'', ''create_schedule'', ''CreateScheduleRequest''),
    (''DescribeSchedule'', ''describe_schedule'', ''DescribeScheduleRequest''),
    (''UpdateSchedule'', ''update_schedule'', ''UpdateScheduleRequest''),
    (''PatchSchedule'', ''patch_schedule'', ''PatchScheduleRequest''),
    (''ListScheduleMatchingTimes'', ''list_schedule_matching_times'', ''ListScheduleMatchingTimesRequest''),
    (''DeleteSchedule'', ''delete_schedule'', ''DeleteScheduleRequest''),
    (''ListSchedules'', ''list_schedules'', ''ListSchedulesRequest''),
    (''CountSchedules'', ''count_schedules'', ''CountSchedulesRequest''),
    (''UpdateWorkerBuildIdCompatibility'', ''update_worker_build_id_compatibility'', ''UpdateWorkerBuildIdCompatibilityRequest''),
    (''GetWorkerBuildIdCompatibility'', ''get_worker_build_id_compatibility'', ''GetWorkerBuildIdCompatibilityRequest''),
    (''GetWorkerTaskReachability'', ''get_worker_task_reachability'', ''GetWorkerTaskReachabilityRequest''),
    (''UpdateWorkflowExecution'', ''update_workflow_execution'', ''UpdateWorkflowExecutionRequest''),
    (''PollWorkflowExecutionUpdate'', ''poll_workflow_execution_update'', ''PollWorkflowExecutionUpdateRequest''),
    (''StartBatchOperation'', ''start_batch_operation'', ''StartBatchOperationRequest''),
    (''StopBatchOperation'', ''stop_batch_operation'', ''StopBatchOperationRequest''),
    (''DescribeBatchOperation'', ''describe_batch_operation'', ''DescribeBatchOperationRequest''),
    (''DescribeDeployment'', ''describe_deployment'', ''DescribeDeploymentRequest''),
    (''ListBatchOperations'', ''list_batch_operations'', ''ListBatchOperationsRequest''),
    (''ListDeployments'', ''list_deployments'', ''ListDeploymentsRequest''),
    (''ExecuteMultiOperation'', ''execute_multi_operation'', ''ExecuteMultiOperationRequest''),
    (''GetCurrentDeployment'', ''get_current_deployment'', ''GetCurrentDeploymentRequest''),
    (''GetDeploymentReachability'', ''get_deployment_reachability'', ''GetDeploymentReachabilityRequest''),
    (''GetWorkerVersioningRules'', ''get_worker_versioning_rules'', ''GetWorkerVersioningRulesRequest''),
    (''UpdateWorkerVersioningRules'', ''update_worker_versioning_rules'', ''UpdateWorkerVersioningRulesRequest''),
    (''PollNexusTaskQueue'', ''poll_nexus_task_queue'', ''PollNexusTaskQueueRequest''),
    (''RespondNexusTaskCompleted'', ''respond_nexus_task_completed'', ''RespondNexusTaskCompletedRequest''),
    (''RespondNexusTaskFailed'', ''respond_nexus_task_failed'', ''RespondNexusTaskFailedRequest''),
    (''SetCurrentDeployment'', ''set_current_deployment'', ''SetCurrentDeploymentRequest''),
    (''ShutdownWorker'', ''shutdown_worker'', ''ShutdownWorkerRequest''),
    (''UpdateActivityOptions'', ''update_activity_options'', ''UpdateActivityOptionsRequest''),
    (''PauseActivity'', ''pause_activity'', ''PauseActivityRequest''),
    (''UnpauseActivity'', ''unpause_activity'', ''UnpauseActivityRequest''),
    (''UpdateWorkflowExecutionOptions'', ''update_workflow_execution_options'', ''UpdateWorkflowExecutionOptionsRequest''),
    (''ResetActivity'', ''reset_activity'', ''ResetActivityRequest''),
    (''DeleteWorkerDeployment'', ''delete_worker_deployment'', ''DeleteWorkerDeploymentRequest''),
    (''DeleteWorkerDeploymentVersion'', ''delete_worker_deployment_version'', ''DeleteWorkerDeploymentVersionRequest''),
    (''DescribeWorkerDeployment'', ''describe_worker_deployment'', ''DescribeWorkerDeploymentRequest''),
    (''DescribeWorkerDeploymentVersion'', ''describe_worker_deployment_version'', ''DescribeWorkerDeploymentVersionRequest''),
    (''ListWorkerDeployments'', ''list_worker_deployments'', ''ListWorkerDeploymentsRequest''),
    (''SetWorkerDeploymentCurrentVersion'', ''set_worker_deployment_current_version'', ''SetWorkerDeploymentCurrentVersionRequest''),
    (''SetWorkerDeploymentRampingVersion'', ''set_worker_deployment_ramping_version'', ''SetWorkerDeploymentRampingVersionRequest''),
    (''UpdateWorkerDeploymentVersionMetadata'', ''update_worker_deployment_version_metadata'', ''UpdateWorkerDeploymentVersionMetadataRequest''),
    (''ListWorkers'', ''list_workers'', ''ListWorkersRequest''),
    (''CountWorkers'', ''count_workers'', ''CountWorkersRequest''),
    (''RecordWorkerHeartbeat'', ''record_worker_heartbeat'', ''RecordWorkerHeartbeatRequest''),
    (''UpdateTaskQueueConfig'', ''update_task_queue_config'', ''UpdateTaskQueueConfigRequest''),
    (''FetchWorkerConfig'', ''fetch_worker_config'', ''FetchWorkerConfigRequest''),
    (''UpdateWorkerConfig'', ''update_worker_config'', ''UpdateWorkerConfigRequest''),
    (''DescribeWorker'', ''describe_worker'', ''DescribeWorkerRequest''),
    (''SetWorkerDeploymentManager'', ''set_worker_deployment_manager'', ''SetWorkerDeploymentManagerRequest''),
    (''PauseWorkflowExecution'', ''pause_workflow_execution'', ''PauseWorkflowExecutionRequest''),
    (''UnpauseWorkflowExecution'', ''unpause_workflow_execution'', ''UnpauseWorkflowExecutionRequest''),
    (''StartActivityExecution'', ''start_activity_execution'', ''StartActivityExecutionRequest''),
    (''DescribeActivityExecution'', ''describe_activity_execution'', ''DescribeActivityExecutionRequest''),
    (''PollActivityExecution'', ''poll_activity_execution'', ''PollActivityExecutionRequest''),
    (''ListActivityExecutions'', ''list_activity_executions'', ''ListActivityExecutionsRequest''),
    (''CountActivityExecutions'', ''count_activity_executions'', ''CountActivityExecutionsRequest''),
    (''RequestCancelActivityExecution'', ''request_cancel_activity_execution'', ''RequestCancelActivityExecutionRequest''),
    (''TerminateActivityExecution'', ''terminate_activity_execution'', ''TerminateActivityExecutionRequest''),
    (''DeleteActivityExecution'', ''delete_activity_execution'', ''DeleteActivityExecutionRequest''),
    (''PauseActivityExecution'', ''pause_activity_execution'', ''PauseActivityExecutionRequest''),
    (''UnpauseActivityExecution'', ''unpause_activity_execution'', ''UnpauseActivityExecutionRequest''),
    (''ResetActivityExecution'', ''reset_activity_execution'', ''ResetActivityExecutionRequest''),
    (''UpdateActivityExecutionOptions'', ''update_activity_execution_options'', ''UpdateActivityExecutionOptionsRequest''),
    (''CountNexusOperationExecutions'', ''count_nexus_operation_executions'', ''CountNexusOperationExecutionsRequest''),
    (''CreateWorkerDeployment'', ''create_worker_deployment'', ''CreateWorkerDeploymentRequest''),
    (''CreateWorkerDeploymentVersion'', ''create_worker_deployment_version'', ''CreateWorkerDeploymentVersionRequest''),
    (''DeleteNexusOperationExecution'', ''delete_nexus_operation_execution'', ''DeleteNexusOperationExecutionRequest''),
    (''DescribeNexusOperationExecution'', ''describe_nexus_operation_execution'', ''DescribeNexusOperationExecutionRequest''),
    (''ListNexusOperationExecutions'', ''list_nexus_operation_executions'', ''ListNexusOperationExecutionsRequest''),
    (''PollNexusOperationExecution'', ''poll_nexus_operation_execution'', ''PollNexusOperationExecutionRequest''),
    (''PollWorkflowExecutionTimeSkipping'', ''poll_workflow_execution_time_skipping'', ''PollWorkflowExecutionTimeSkippingRequest''),
    (''RequestCancelNexusOperationExecution'', ''request_cancel_nexus_operation_execution'', ''RequestCancelNexusOperationExecutionRequest''),
    (''StartNexusOperationExecution'', ''start_nexus_operation_execution'', ''StartNexusOperationExecutionRequest''),
    (''TerminateNexusOperationExecution'', ''terminate_nexus_operation_execution'', ''TerminateNexusOperationExecutionRequest''),
    (''UpdateWorkerDeploymentVersionComputeConfig'', ''update_worker_deployment_version_compute_config'', ''UpdateWorkerDeploymentVersionComputeConfigRequest''),
    (''ValidateWorkerDeploymentVersionComputeConfig'', ''validate_worker_deployment_version_compute_config'', ''ValidateWorkerDeploymentVersionComputeConfigRequest'')]"

definition operator_arms :: "arm list" where
  "operator_arms = [
    (''AddSearchAttributes'', ''add_search_attributes'', ''AddSearchAttributesRequest''),
    (''RemoveSearchAttributes'', ''remove_search_attributes'', ''RemoveSearchAttributesRequest''),
    (''ListSearchAttributes'', ''list_search_attributes'', ''ListSearchAttributesRequest''),
    (''AddOrUpdateRemoteCluster'', ''add_or_update_remote_cluster'', ''AddOrUpdateRemoteClusterRequest''),
    (''RemoveRemoteCluster'', ''remove_remote_cluster'', ''RemoveRemoteClusterRequest''),
    (''ListClusters'', ''list_clusters'', ''ListClustersRequest''),
    (''GetNexusEndpoint'', ''get_nexus_endpoint'', ''GetNexusEndpointRequest''),
    (''CreateNexusEndpoint'', ''create_nexus_endpoint'', ''CreateNexusEndpointRequest''),
    (''UpdateNexusEndpoint'', ''update_nexus_endpoint'', ''UpdateNexusEndpointRequest''),
    (''DeleteNexusEndpoint'', ''delete_nexus_endpoint'', ''DeleteNexusEndpointRequest''),
    (''ListNexusEndpoints'', ''list_nexus_endpoints'', ''ListNexusEndpointsRequest'')]"

definition test_arms :: "arm list" where
  "test_arms = [
    (''LockTimeSkipping'', ''lock_time_skipping'', ''LockTimeSkippingRequest''),
    (''UnlockTimeSkipping'', ''unlock_time_skipping'', ''UnlockTimeSkippingRequest''),
    (''Sleep'', ''sleep'', ''SleepRequest''),
    (''SleepUntil'', ''sleep_until'', ''SleepUntilRequest''),
    (''UnlockTimeSkippingWithSleep'', ''unlock_time_skipping_with_sleep'', ''SleepRequest'')]"

definition call_workflow_service ::
  "'req backend \<Rightarrow> string \<Rightarrow> u8 list \<Rightarrow> nat option \<Rightarrow> RpcOutcome KtResult option" where
  "call_workflow_service be rpc bytes timeout = dispatch be workflow_arms rpc bytes timeout"

definition call_operator_service ::
  "'req backend \<Rightarrow> string \<Rightarrow> u8 list \<Rightarrow> nat option \<Rightarrow> RpcOutcome KtResult option" where
  "call_operator_service be rpc bytes timeout = dispatch be operator_arms rpc bytes timeout"

definition call_test_service_unit ::
  "'req backend \<Rightarrow> string \<Rightarrow> nat option \<Rightarrow> RpcOutcome option KtResult option" where
  "call_test_service_unit be rpc timeout =
    (if rpc = ''GetCurrentTime''
     then map_option (\<lambda>r. and_then (outcome_of (code_name be) (encode_failure be) r) (\<lambda>o'. Ok (Some o')))
       (with_deadline timeout (invoke_unit be ''get_current_time'' timeout))
     else Some (Ok None))"

definition call_test_service ::
  "'req backend \<Rightarrow> string \<Rightarrow> u8 list \<Rightarrow> nat option \<Rightarrow> RpcOutcome KtResult option" where
  "call_test_service be rpc bytes timeout =
    (case call_test_service_unit be rpc timeout of
       None \<Rightarrow> None
     | Some (Ok (Some o')) \<Rightarrow> Some (Ok o')
     | Some (Ok None) \<Rightarrow> dispatch be test_arms rpc bytes timeout
     | Some (Err e) \<Rightarrow> Some (Err e)
     | Some (Panicked p) \<Rightarrow> Some (Panicked p))"

definition call :: "'req backend \<Rightarrow> Service \<Rightarrow> string \<Rightarrow> u8 list \<Rightarrow> nat option \<Rightarrow> RpcOutcome KtResult option" where
  "call be service rpc bytes timeout =
    (case service of
       Workflow \<Rightarrow> call_workflow_service be rpc bytes timeout
     | Operator \<Rightarrow> call_operator_service be rpc bytes timeout
     | Test \<Rightarrow> call_test_service be rpc bytes timeout)"

section \<open>The tables\<close>

text \<open>The client method that the generator derives from an RPC's name.\<close>

fun snake_tail :: "string \<Rightarrow> string" where
  "snake_tail [] = []"
| "snake_tail (c # cs) =
     (let n = of_char c :: nat
      in if 65 \<le> n \<and> n \<le> 90 then CHR ''_'' # char_of (n + 32) # snake_tail cs else c # snake_tail cs)"

definition snake_case :: "string \<Rightarrow> string" where
  "snake_case s = (case snake_tail s of CHR ''_'' # t \<Rightarrow> t | t \<Rightarrow> t)"

text \<open>The type of its request: of the same name, but for one RPC.\<close>

definition request_type :: "string \<Rightarrow> string" where
  "request_type rpc = (if rpc = ''UnlockTimeSkippingWithSleep'' then ''SleepRequest'' else rpc @ ''Request'')"

definition arm_ok :: "arm \<Rightarrow> bool" where
  "arm_ok a = (case a of (n, m, r) \<Rightarrow> m = snake_case n \<and> r = request_type n)"

definition plain_arm :: "arm \<Rightarrow> bool" where
  "plain_arm a = (case a of (n, m, r) \<Rightarrow> m = snake_case n \<and> r = n @ ''Request'')"

lemmas arm_eval = plain_arm_def snake_case_def char_of_def bit_0

lemma plain_arms_ok:
  "list_all plain_arm arms \<Longrightarrow> ''UnlockTimeSkippingWithSleep'' \<notin> set (map fst arms) \<Longrightarrow> list_all arm_ok arms"
  by (induction arms) (auto simp: plain_arm_def arm_ok_def request_type_def)

lemma workflow_names_distinct: "distinct (map fst workflow_arms)"
  by (simp add: workflow_arms_def)

lemma workflow_arms_plain: "list_all plain_arm workflow_arms"
  by (simp add: workflow_arms_def arm_eval)

lemma workflow_arms_ok: "list_all arm_ok workflow_arms"
  by (rule plain_arms_ok [OF workflow_arms_plain]) (simp add: workflow_arms_def)

lemma operator_arms_ok: "list_all arm_ok operator_arms \<and> distinct (map fst operator_arms)"
proof
  show "list_all arm_ok operator_arms" by (rule plain_arms_ok) (simp_all add: operator_arms_def arm_eval)
qed (simp add: operator_arms_def)

lemma test_arms_ok: "list_all arm_ok test_arms \<and> distinct (''GetCurrentTime'' # map fst test_arms)"
  by (simp add: test_arms_def arm_eval arm_ok_def request_type_def)

definition arms_of :: "Service \<Rightarrow> arm list" where
  "arms_of service = (case service of Workflow \<Rightarrow> workflow_arms | Operator \<Rightarrow> operator_arms | Test \<Rightarrow> test_arms)"

lemma arms_distinct: "distinct (map fst (arms_of service))"
  using workflow_names_distinct operator_arms_ok test_arms_ok by (cases service) (auto simp: arms_of_def)

lemma find_arm_iff: "distinct (map fst arms) \<Longrightarrow> find_arm arms n = Some (m, r) \<longleftrightarrow> (n, m, r) \<in> set arms"
  by (induction arms n rule: find_arm.induct) (auto simp: rev_image_eqI)

lemma find_arm_None: "find_arm arms n = None \<longleftrightarrow> n \<notin> fst ` set arms"
  by (induction arms n rule: find_arm.induct) auto

text \<open>No name occurs twice in a service, so no arm is unreachable, and each calls the method its name means.\<close>

lemma arms_select:
  assumes "rpc \<in> fst ` set (arms_of service)"
  shows "find_arm (arms_of service) rpc = Some (snake_case rpc, request_type rpc)"
proof -
  obtain m r where a: "(rpc, m, r) \<in> set (arms_of service)" using assms by auto
  have "list_all arm_ok (arms_of service)"
    using workflow_arms_ok operator_arms_ok test_arms_ok by (cases service) (simp_all add: arms_of_def)
  with a have "m = snake_case rpc" "r = request_type rpc" by (auto simp: list_all_iff arm_ok_def)
  with a show ?thesis using find_arm_iff [OF arms_distinct] by blast
qed

lemma call_dispatches:
  assumes "service = Test \<Longrightarrow> rpc \<noteq> ''GetCurrentTime''"
  shows "call be service rpc body timeout = dispatch be (arms_of service) rpc body timeout"
  using assms by (cases service) (simp_all add: call_def call_workflow_service_def call_operator_service_def
      call_test_service_def call_test_service_unit_def arms_of_def)

section \<open>What a call promises\<close>

text \<open>The future a call awaits: that of the client method the name means, applied to the decoded request.\<close>

inductive sent :: "'req backend \<Rightarrow> Service \<Rightarrow> string \<Rightarrow> u8 list \<Rightarrow> nat option \<Rightarrow> u8 list future \<Rightarrow> bool" where
  sent_request:
    "rpc \<in> fst ` set (arms_of service) \<Longrightarrow> decode be (request_type rpc) body = Ok req \<Longrightarrow>
     sent be service rpc body timeout (invoke be (snake_case rpc) req timeout)"
| sent_unit:
    "sent be Test ''GetCurrentTime'' body timeout (invoke_unit be (snake_case ''GetCurrentTime'') timeout)"

lemma arms_not_unit: "rpc \<in> fst ` set (arms_of service) \<Longrightarrow> service = Test \<Longrightarrow> rpc \<noteq> ''GetCurrentTime''"
  using test_arms_ok by (metis Service.simps(9) arms_of_def distinct.simps(2) set_map)

lemma call_sent:
  assumes "sent be service rpc body timeout F"
  shows "call be service rpc body timeout =
    map_option (outcome_of (code_name be) (encode_failure be)) (with_deadline timeout F)"
  using assms
proof cases
  case (sent_request req)
  have "call be service rpc body timeout = dispatch be (arms_of service) rpc body timeout"
    by (rule call_dispatches) (rule arms_not_unit [OF sent_request(2)])
  then show ?thesis using sent_request by (simp add: dispatch_def arms_select)
next
  case sent_unit
  have "snake_case ''GetCurrentTime'' = ''get_current_time''" by (simp add: arm_eval)
  then show ?thesis
    using sent_unit
    by (auto simp: call_def call_test_service_def call_test_service_unit_def outcome_of_def
        split: option.splits outcome.splits)
qed

lemma join_infix: "s \<in> set ss \<Longrightarrow> \<exists>a b. join sep ss = a @ s @ b"
proof (induction sep ss rule: join.induct)
  case (3 sep s' s'' ss)
  show ?case
  proof (cases "s = s'")
    case True
    then show ?thesis by (intro exI [of _ "[]"] exI [of _ "sep @ join sep (s'' # ss)"]) simp
  next
    case False
    with 3 obtain a b where "join sep (s'' # ss) = a @ s @ b" by auto
    then show ?thesis by (intro exI [of _ "s' @ sep @ a"] exI [of _ b]) simp
  qed
next
  case (2 sep s')
  then show ?case by (intro exI [of _ "[]"]) simp
qed simp

text \<open>A message says something: the status' own text, or else its code's name and every cause.\<close>

lemma status_message_tells:
  "status_message cn st \<noteq> [] \<and> (ts_message st \<noteq> [] \<longrightarrow> status_message cn st = ts_message st) \<and>
   (ts_message st = [] \<longrightarrow> (\<exists>rest. rest \<noteq> [] \<and> status_message cn st = cn (ts_code st) @ rest \<and>
      (\<forall>c \<in> set (ts_source st). \<exists>a b. rest = a @ cause_text c @ b)))"
proof -
  have "\<exists>a b. '': '' @ join '': '' (map cause_text (ts_source st)) = a @ cause_text c @ b" if "c \<in> set (ts_source st)" for c
  proof -
    obtain a b where "join '': '' (map cause_text (ts_source st)) = a @ cause_text c @ b"
      using join_infix [of "cause_text c" "map cause_text (ts_source st)" "'': ''"] \<open>c \<in> set (ts_source st)\<close> by auto
    then show ?thesis by (intro exI [of _ "'': '' @ a"] exI [of _ b]) simp
  qed
  then show ?thesis by (auto simp: status_message_def)
qed

text \<open>The cases of a call, one by one.\<close>

lemma call_response:
  assumes "sent be service rpc body timeout F" and "F = Some (d, Ok response)" and "\<forall>t. timeout = Some t \<longrightarrow> d \<le> t"
  shows "call be service rpc body timeout = Some (Ok \<lparr>ro_payload = response, ro_status_code = 0, ro_message = []\<rparr>)"
  unfolding call_sent [OF assms(1)] using assms(2,3) by (cases timeout) (simp_all add: outcome_of_def)

lemma call_status:
  assumes "sent be service rpc body timeout F" and "F = Some (d, Err st)" and "\<forall>t. timeout = Some t \<longrightarrow> d \<le> t"
  shows "\<exists>msg. call be service rpc body timeout = Some (Ok \<lparr>ro_payload = encode_failure be msg (ts_details st),
        ro_status_code = (if ts_code st = GRPC_CANCELLED \<and> (\<exists>c \<in> set (ts_source st). is_timeout_expired c)
          then GRPC_DEADLINE_EXCEEDED else ts_code st), ro_message = msg\<rparr>) \<and>
      msg \<noteq> [] \<and> (ts_message st \<noteq> [] \<longrightarrow> msg = ts_message st) \<and>
      (ts_message st = [] \<longrightarrow> (\<exists>rest. rest \<noteq> [] \<and> msg = code_name be (ts_code st) @ rest \<and>
         (\<forall>c \<in> set (ts_source st). \<exists>a b. rest = a @ cause_text c @ b)))"
proof -
  have "with_deadline timeout F = Some (Err st)" using assms(2,3) by (cases timeout) auto
  then have "call be service rpc body timeout = Some (Ok \<lparr>ro_payload = encode_failure be (status_message (code_name be) st) (ts_details st),
      ro_status_code = (if ts_code st = GRPC_CANCELLED \<and> (\<exists>c \<in> set (ts_source st). is_timeout_expired c)
        then GRPC_DEADLINE_EXCEEDED else ts_code st), ro_message = status_message (code_name be) st\<rparr>)"
    by (auto simp: call_sent [OF assms(1)] outcome_of_def grpc_status_code_def timeout_in_chain_iff)
  with status_message_tells [of "code_name be" st] show ?thesis by blast
qed

lemma call_late:
  assumes "sent be service rpc body timeout F" and "timeout = Some t" and "\<forall>d res. F = Some (d, res) \<longrightarrow> t < d"
  shows "\<exists>msg. call be service rpc body timeout = Some (Ok \<lparr>ro_payload = encode_failure be msg [],
        ro_status_code = GRPC_DEADLINE_EXCEEDED, ro_message = msg\<rparr>) \<and>
      msg = ''client deadline of '' @ show_duration t @ '' elapsed''"
proof -
  have "with_deadline timeout F = Some (Err (deadline_status t))" using assms(2,3) by (cases F) auto
  then show ?thesis
    by (simp add: call_sent [OF assms(1)] outcome_of_def status_message_def deadline_status_def grpc_status_code_def)
qed

lemma call_undecodable:
  assumes "rpc \<in> fst ` set (arms_of service)" and "decode be (request_type rpc) body = Err e"
  shows "call be service rpc body timeout = Some (Err (InvalidArgument (rpc @ '' request: '' @ e)))"
proof -
  have "call be service rpc body timeout = dispatch be (arms_of service) rpc body timeout"
    by (rule call_dispatches) (rule arms_not_unit [OF assms(1)])
  then show ?thesis using assms by (simp add: dispatch_def arms_select)
qed

lemma call_unknown:
  assumes "rpc \<notin> fst ` set (arms_of service)" and "\<not> (service = Test \<and> rpc = ''GetCurrentTime'')"
  shows "call be service rpc body timeout = Some (Err (InvalidArgument (''unknown rpc '' @ rpc)))"
proof -
  have "call be service rpc body timeout = dispatch be (arms_of service) rpc body timeout"
    by (rule call_dispatches) (use assms(2) in blast)
  moreover have "find_arm (arms_of service) rpc = None" using assms(1) by (simp add: find_arm_None)
  ultimately show ?thesis by (simp add: dispatch_def)
qed

text \<open>C37: A call reaches exactly the method its name means, and its answer comes back as it is. For every RPC a service
  has, a request that decodes as the type that goes with the name is sent by the client method whose name is the
  RPC's in snake case, with the caller's timeout; \<open>GetCurrentTime\<close> of the test service is sent without a request.
  A response in time comes back as status 0 with its bytes and no message. A status in time
  comes back with its own code, except that a cancellation behind which there is a local timeout is
  \<open>DEADLINE_EXCEEDED\<close>, with its details, and with a message that is not empty: its own text, or its code's name
  and every cause. With a timeout, a client that has not answered by then is reported as
  \<open>DEADLINE_EXCEEDED\<close>, whatever it would answer later; without one the call waits for it. A request that does not
  decode and a name the service does not have are invalid arguments, and no call is made.\<close>

theorem call_dispatch_exact:
  "(sent be service rpc body timeout F \<longrightarrow>
     (\<forall>d response. F = Some (d, Ok response) \<and> (\<forall>t. timeout = Some t \<longrightarrow> d \<le> t) \<longrightarrow>
        call be service rpc body timeout = Some (Ok \<lparr>ro_payload = response, ro_status_code = 0, ro_message = []\<rparr>)) \<and>
     (\<forall>d st. F = Some (d, Err st) \<and> (\<forall>t. timeout = Some t \<longrightarrow> d \<le> t) \<longrightarrow>
        (\<exists>msg. call be service rpc body timeout = Some (Ok \<lparr>ro_payload = encode_failure be msg (ts_details st),
            ro_status_code = (if ts_code st = GRPC_CANCELLED \<and> (\<exists>c \<in> set (ts_source st). is_timeout_expired c)
              then GRPC_DEADLINE_EXCEEDED else ts_code st), ro_message = msg\<rparr>) \<and>
          msg \<noteq> [] \<and> (ts_message st \<noteq> [] \<longrightarrow> msg = ts_message st) \<and>
          (ts_message st = [] \<longrightarrow> (\<exists>rest. rest \<noteq> [] \<and> msg = code_name be (ts_code st) @ rest \<and>
             (\<forall>c \<in> set (ts_source st). \<exists>a b. rest = a @ cause_text c @ b))))) \<and>
     (\<forall>t. timeout = Some t \<and> (\<forall>d res. F = Some (d, res) \<longrightarrow> t < d) \<longrightarrow>
        (\<exists>msg. call be service rpc body timeout = Some (Ok \<lparr>ro_payload = encode_failure be msg [],
            ro_status_code = GRPC_DEADLINE_EXCEEDED, ro_message = msg\<rparr>) \<and>
          msg = ''client deadline of '' @ show_duration t @ '' elapsed'')) \<and>
     (timeout = None \<and> F = None \<longrightarrow> call be service rpc body timeout = None)) \<and>
   (rpc \<in> fst ` set (arms_of service) \<and> decode be (request_type rpc) body = Err e \<longrightarrow>
      call be service rpc body timeout = Some (Err (InvalidArgument (rpc @ '' request: '' @ e)))) \<and>
   (rpc \<notin> fst ` set (arms_of service) \<and> \<not> (service = Test \<and> rpc = ''GetCurrentTime'') \<longrightarrow>
      call be service rpc body timeout = Some (Err (InvalidArgument (''unknown rpc '' @ rpc))))"
proof (intro conjI impI allI)
  assume s: "sent be service rpc body timeout F"
  show "call be service rpc body timeout = None" if "timeout = None \<and> F = None"
    unfolding call_sent [OF s] using that by simp
qed (elim conjE, (rule call_response call_status call_late call_undecodable call_unknown; assumption))+

definition demo_backend :: "u8 list backend" where
  "demo_backend = \<lparr>decode = (\<lambda>_ b. Ok b), invoke = (\<lambda>_ b _. Some (10, Ok b)),
     invoke_unit = (\<lambda>_ _. Some (10, Err \<lparr>ts_code = GRPC_CANCELLED, ts_message = ''gone'', ts_details = [7],
       ts_source = [\<lparr>is_timeout_expired = True, cause_text = ''timeout''\<rparr>]\<rparr>)),
     code_name = (\<lambda>_. ''Unknown''), encode_failure = (\<lambda>m d. d)\<rparr>"

theorem call_dispatch_exact_witness:
  "call demo_backend Operator ''ListClusters'' [1, 2] (Some 20) =
     Some (Ok \<lparr>ro_payload = [1, 2], ro_status_code = 0, ro_message = []\<rparr>) \<and>
   call demo_backend Test ''GetCurrentTime'' [] None =
     Some (Ok \<lparr>ro_payload = [7], ro_status_code = GRPC_DEADLINE_EXCEEDED, ro_message = ''gone''\<rparr>) \<and>
   call demo_backend Operator ''DropTables'' [1, 2] None = Some (Err (InvalidArgument ''unknown rpc DropTables''))"
proof (intro conjI)
  have "''ListClusters'' \<in> fst ` set (arms_of Operator)" by (simp add: arms_of_def operator_arms_def)
  from sent_request [OF this, of demo_backend "[1, 2]" "[1, 2]" "Some 20"]
  have "sent demo_backend Operator ''ListClusters'' [1, 2] (Some 20) (Some (10, Ok [1, 2]))" by (simp add: demo_backend_def)
  with call_dispatch_exact [where be = demo_backend and service = Operator and rpc = "''ListClusters''" and
      body = "[1, 2]" and timeout = "Some 20" and F = "Some (10, Ok [1, 2])"]
  show "call demo_backend Operator ''ListClusters'' [1, 2] (Some 20) =
      Some (Ok \<lparr>ro_payload = [1, 2], ro_status_code = 0, ro_message = []\<rparr>)" by simp
  let ?st = "\<lparr>ts_code = GRPC_CANCELLED, ts_message = ''gone'', ts_details = [7],
     ts_source = [\<lparr>is_timeout_expired = True, cause_text = ''timeout''\<rparr>]\<rparr>"
  have "sent demo_backend Test ''GetCurrentTime'' [] None (Some (10, Err ?st))"
    using sent_unit [of demo_backend "[]" None] by (simp add: demo_backend_def)
  with call_dispatch_exact [where be = demo_backend and service = Test and rpc = "''GetCurrentTime''" and
      body = "[]" and timeout = None and F = "Some (10, Err ?st)"]
  show "call demo_backend Test ''GetCurrentTime'' [] None =
      Some (Ok \<lparr>ro_payload = [7], ro_status_code = GRPC_DEADLINE_EXCEEDED, ro_message = ''gone''\<rparr>)"
    by simp (simp add: demo_backend_def)
  have "''DropTables'' \<notin> fst ` set (arms_of Operator)" by (simp add: arms_of_def operator_arms_def)
  with call_dispatch_exact [where be = demo_backend and service = Operator and rpc = "''DropTables''" and body = "[1, 2]" and timeout = None]
  show "call demo_backend Operator ''DropTables'' [1, 2] None = Some (Err (InvalidArgument ''unknown rpc DropTables''))"
    by simp
qed

text \<open>A deadline bounds every call. With a timeout the call returns whatever the client does: if
  the client has not answered by then, even if it never will, the outcome is the gRPC status
  \<open>DEADLINE_EXCEEDED\<close>, and if it has answered by then the answer is not replaced.\<close>

theorem deadline_bounds_call:
  "call be service rpc body (Some t) \<noteq> None \<and>
   with_deadline (Some t) None = Some (Err (deadline_status t)) \<and>
   with_deadline (Some t) (Some (d, res)) = Some (if d \<le> t then res else Err (deadline_status t)) \<and>
   (\<exists>o'. outcome_of cn ef (Err (deadline_status t)) = Ok o' \<and> ro_status_code o' = GRPC_DEADLINE_EXCEEDED)"
proof -
  have some: "with_deadline (Some t) f \<noteq> None" for f :: "'x future"
    by (cases f) (auto split: prod.splits)
  then have "dispatch be arms rpc body (Some t) \<noteq> None" for arms
    by (auto simp: dispatch_def split: option.splits prod.splits outcome.splits)
  moreover have "call_test_service_unit be rpc (Some t) \<noteq> None"
    using some by (auto simp: call_test_service_unit_def)
  ultimately have "call be service rpc body (Some t) \<noteq> None"
    by (auto simp: call_def call_workflow_service_def call_operator_service_def call_test_service_def
        split: Service.splits option.splits outcome.splits)
  then show ?thesis
    by (simp add: outcome_of_def deadline_status_def grpc_status_code_def GRPC_CANCELLED_def GRPC_DEADLINE_EXCEEDED_def)
qed

end
