(* ===== verification/Kt_Client.thy ===== *)
theory Kt_Client
  imports Kt_Queue
begin

text \<open>
  Client connections (\<^verbatim>\<open>client.rs\<close>): the translation of \<^verbatim>\<open>ClientOptions\<close> and the completion of a
  failed connect.

  URL parsing, the host name, the process id, the crate version and the encoder of \<^verbatim>\<open>RpcFailure\<close> are
  not under this repository and are arguments.
\<close>

record ClientOptions =
  target_url :: string
  co_namespace :: string
  co_identity :: string
  client_name :: string
  client_version :: string
  api_key :: string
  connect_timeout_millis :: u64
  no_compression :: bool
  tls :: bool
  server_root_ca_cert :: "u8 list"
  tls_domain :: string
  client_cert :: "u8 list"
  client_private_key :: "u8 list"

record TlsOptions =
  tls_server_root_ca_cert :: "u8 list option"
  tls_domain_override :: "string option"
  tls_client :: "(u8 list \<times> u8 list) option"

datatype GrpcCompression = NoCompression | Gzip

record 'url ConnectionOptions =
  cn_target :: 'url
  cn_tls :: "TlsOptions option"
  cn_client_name :: string
  cn_client_version :: string
  cn_identity :: string
  cn_compression :: GrpcCompression
  cn_api_key :: "string option"
  cn_connect_timeout :: "nat option"

definition non_empty :: "'a list \<Rightarrow> 'a list option" where
  "non_empty v = (if v \<noteq> [] then Some v else None)"

definition default_identity :: "string \<Rightarrow> nat \<Rightarrow> string \<Rightarrow> string" where
  "default_identity hostname pid configured =
    (if configured \<noteq> [] then configured
     else let host = (if hostname = [] then ''unknown-host'' else hostname)
          in decimal pid @ ''@'' @ host)"

definition wants_tls :: "ClientOptions \<Rightarrow> bool" where
  "wants_tls config \<longleftrightarrow> tls config \<or> server_root_ca_cert config \<noteq> [] \<or> client_cert config \<noteq> [] \<or>
     client_private_key config \<noteq> [] \<or> tls_domain config \<noteq> []"

definition tls_options :: "ClientOptions \<Rightarrow> TlsOptions option" where
  "tls_options config =
    (if wants_tls config
     then let client_tls = (if client_cert config \<noteq> [] \<or> client_private_key config \<noteq> []
                            then Some (client_cert config, client_private_key config) else None)
          in Some \<lparr>tls_server_root_ca_cert = non_empty (server_root_ca_cert config),
                   tls_domain_override = non_empty (tls_domain config), tls_client = client_tls\<rparr>
     else None)"

record 'url platform =
  parse_url :: "string \<Rightarrow> ('url, string) outcome"
  gethostname :: string
  process_id :: nat
  pkg_version :: string

definition connection_options :: "'url platform \<Rightarrow> ClientOptions \<Rightarrow> 'url ConnectionOptions KtResult" where
  "connection_options env config =
    (if target_url config = [] then Err (InvalidArgument ''target_url is empty'')
     else case parse_url env (target_url config) of
       Err e \<Rightarrow> Err (InvalidArgument (''target_url is not a URL: '' @ e))
     | Panicked p \<Rightarrow> Panicked p
     | Ok target \<Rightarrow>
         Ok \<lparr>cn_target = target, cn_tls = tls_options config,
             cn_client_name = (if client_name config = [] then ''temporal-kotlin'' else client_name config),
             cn_client_version = (if client_version config = [] then pkg_version env else client_version config),
             cn_identity = default_identity (gethostname env) (process_id env) (co_identity config),
             cn_compression = (if no_compression config then NoCompression else Gzip),
             cn_api_key = non_empty (api_key config),
             cn_connect_timeout = (if 0 < connect_timeout_millis config
               then Some (unat (connect_timeout_millis config)) else None)\<rparr>)"

datatype ClientConnectError =
    SystemInfoCallError tonic_status
  | OtherConnectError string

fun connect_failure :: "(string \<Rightarrow> u8 list \<Rightarrow> u8 list) \<Rightarrow> u64 \<Rightarrow> ClientConnectError \<Rightarrow> Pending" where
  "connect_failure encode_failure r (SystemInfoCallError st) =
     Pending_payload (encode_failure (ts_message st) (ts_details st))
       (Pending_kind ClientConnected (Pending_error r (grpc_status_code st) (ts_message st)))"
| "connect_failure encode_failure r (OtherConnectError text) = Pending_error r KT_ERR_FAILED text"

text \<open>\<^verbatim>\<open>connect\<close>: the entry made of the connection and the namespace, or the client's error.\<close>

definition connect ::
  "('url ConnectionOptions \<Rightarrow> ('conn, ClientConnectError) outcome) \<Rightarrow> 'url ConnectionOptions \<Rightarrow> string \<Rightarrow>
   ('conn \<times> string, ClientConnectError) outcome" where
  "connect dial options ns = and_then (dial options) (\<lambda>connection. Ok (connection, ns))"

section \<open>What the translation promises\<close>

lemma decimal_nonempty [simp]: "decimal n \<noteq> []"
  by (subst decimal.simps) simp

text \<open>Connection options are complete. For every configuration with a target that parses, the
  options are built; TLS is on exactly when the flag or any TLS field is set, so a certificate, key,
  authority or domain alone turns it on; both halves of the client's pair are passed on whenever
  either is given; and the identity, which Core insists on, is never empty. A missing or malformed
  target is an invalid argument.\<close>

theorem connection_options_complete:
  assumes "\<forall>s. \<not> panics (parse_url env s)"
  shows "(\<exists>co. connection_options env config = Ok co \<and>
           parse_url env (target_url config) = Ok (cn_target co) \<and> cn_identity co \<noteq> [] \<and>
           (cn_tls co \<noteq> None \<longleftrightarrow> wants_tls config) \<and>
           (client_cert config \<noteq> [] \<or> client_private_key config \<noteq> [] \<longrightarrow>
              (\<exists>t. cn_tls co = Some t \<and> tls_client t = Some (client_cert config, client_private_key config))) \<and>
           (cn_connect_timeout co = None \<longleftrightarrow> connect_timeout_millis config = 0)) \<or>
         (\<exists>m. connection_options env config = Err (InvalidArgument m))"
proof (cases "target_url config = [] \<or> \<not> is_ok (parse_url env (target_url config))")
  case True
  then show ?thesis
    using assms [THEN spec, of "target_url config"]
    by (cases "parse_url env (target_url config)") (auto simp: connection_options_def)
next
  case False
  then obtain u where "target_url config \<noteq> []" "parse_url env (target_url config) = Ok u"
    by (auto simp: is_ok_iff)
  then show ?thesis
    by (auto simp: connection_options_def tls_options_def wants_tls_def default_identity_def Let_def word_gt_0)
qed

definition demo_platform :: "string platform" where
  "demo_platform = \<lparr>parse_url = (\<lambda>s. Ok s), gethostname = [], process_id = 42, pkg_version = ''0.1.0''\<rparr>"

definition demo_client :: ClientOptions where
  "demo_client = \<lparr>target_url = ''https://t'', co_namespace = ''default'', co_identity = [], client_name = [],
     client_version = [], api_key = [], connect_timeout_millis = 0, no_compression = False, tls = False,
     server_root_ca_cert = [], tls_domain = [], client_cert = [1], client_private_key = [2]\<rparr>"

theorem connection_options_complete_witness:
  "\<exists>co t. connection_options demo_platform demo_client = Ok co \<and> cn_tls co = Some t \<and> tls_client t = Some ([1], [2])"
  using connection_options_complete [of demo_platform demo_client]
  by (auto simp: demo_platform_def demo_client_def connection_options_def)

end
