(* ===== verification/Kt_Ephemeral.thy ===== *)
theory Kt_Ephemeral
  imports Kt_Error
begin

text \<open>
  Development and test servers (\<^verbatim>\<open>ephemeral.rs\<close>): the translation of the options, and the life of the
  child process an \<open>EphemeralEntry\<close> owns.

  Spawning the child, its shutdown and opening the log file are not under this repository:
  \<open>start_server\<close> and \<open>open_file\<close> are arguments, and in the life cycle the child's shutdown ends when
  \<open>eph_shutdown_done\<close> or \<open>eph_drop_done\<close> happens, with whatever result it has: the code lets go of the
  child after an error too, and only logs or returns that it could not be reaped. The tracker token is the one of the runtime (\<open>tracker\<close> in the theory of
  the runtime): \<open>free_runtime\<close> waits until it is released.
\<close>

section \<open>Options\<close>

record EphemeralServerOptions =
  existing_path :: string
  download_version :: string
  download_dest_dir :: string
  sdk_name :: string
  sdk_version :: string
  eo_namespace :: string
  ip :: string
  eo_port :: u32
  ui :: bool
  extra_args :: "string list"
  test_server :: bool
  log_file :: string
  download_ttl_seconds :: "u64 option"

datatype exe_version =
    SDKDefault string string
  | Fixed string

datatype ephemeral_exe =
    ExistingPath string
  | CachedDownload exe_version "string option" "nat option"

definition exe :: "EphemeralServerOptions \<Rightarrow> ephemeral_exe" where
  "exe options =
    (if existing_path options \<noteq> [] then ExistingPath (existing_path options)
     else let version =
            (if download_version options = [] \<or> download_version options = ''default''
             then SDKDefault (if sdk_name options = [] then ''sdk-kotlin'' else sdk_name options)
                    (if sdk_version options = [] then ''0.1.0'' else sdk_version options)
             else Fixed (download_version options));
          ttl = (case download_ttl_seconds options of Some s \<Rightarrow> unat s | None \<Rightarrow> 60 * 60 * 24)
        in CachedDownload version
             (if download_dest_dir options \<noteq> [] then Some (download_dest_dir options) else None)
             (if 0 < ttl then Some ttl else None))"

definition port :: "EphemeralServerOptions \<Rightarrow> u16 option KtResult" where
  "port options =
    (if unat (eo_port options) \<ge> 2 ^ 16 then Err (InvalidArgument ''port must be between 0 and 65535'')
     else Ok (if eo_port options > 0 then Some (ucast (eo_port options)) else None))"

datatype stdio = NullDevice | LogFile nat

text \<open>Opening the log file for appending may fail; the two handles are opened one after the other, and
  \<open>open_file i path\<close> is the result of the \<open>i\<close>-th attempt.\<close>

definition redirect ::
  "(nat \<Rightarrow> string \<Rightarrow> (nat, string) outcome) \<Rightarrow> EphemeralServerOptions \<Rightarrow> (stdio \<times> stdio, string) outcome" where
  "redirect open_file options =
    (if log_file options = [] then Ok (NullDevice, NullDevice)
     else let open_log = (\<lambda>i. case open_file i (log_file options) of
                Err e \<Rightarrow> Err (''could not open '' @ log_file options @ '': '' @ e) | r \<Rightarrow> r)
          in and_then (open_log 0) (\<lambda>a. and_then (open_log 1) (\<lambda>b. Ok (LogFile a, LogFile b))))"

datatype server_config =
    TestServer ephemeral_exe "u16 option" "string list"
  | DevServer ephemeral_exe string string "u16 option" bool "string list"

definition server_config_of :: "EphemeralServerOptions \<Rightarrow> u16 option \<Rightarrow> server_config" where
  "server_config_of options p =
    (if test_server options then TestServer (exe options) p (extra_args options)
     else DevServer (exe options) (if eo_namespace options = [] then ''default'' else eo_namespace options)
       (if ip options = [] then ''127.0.0.1'' else ip options) p (ui options) (extra_args options))"

record running_server =
  child_pid :: "u32 option"
  server_target :: string
  server_has_test_service :: bool

record EphemeralServerInfo =
  info_target :: string
  info_pid :: u32
  info_has_test_service :: bool

definition ephemeral_start ::
  "(nat \<Rightarrow> string \<Rightarrow> (nat, string) outcome) \<Rightarrow>
   (server_config \<Rightarrow> stdio \<Rightarrow> stdio \<Rightarrow> (running_server, string) outcome) \<Rightarrow>
   EphemeralServerOptions \<Rightarrow> (EphemeralServerInfo, string) outcome"
where
  "ephemeral_start open_file start_server options =
    (case port options of
       Err e \<Rightarrow> Err (KtError_to_string e)
     | Panicked p \<Rightarrow> Panicked p
     | Ok p \<Rightarrow>
         and_then (redirect open_file options) (\<lambda>(out, err).
         and_then (start_server (server_config_of options p) out err) (\<lambda>server.
         Ok \<lparr>info_target = server_target server,
             info_pid = (case child_pid server of Some n \<Rightarrow> n | None \<Rightarrow> 0),
             info_has_test_service = server_has_test_service server\<rparr>)))"

definition decode_options ::
  "(u8 list \<Rightarrow> (EphemeralServerOptions, string) outcome) \<Rightarrow> u8 list \<Rightarrow> EphemeralServerOptions KtResult" where
  "decode_options decode_message b =
    (case decode_message b of
       Err e \<Rightarrow> Err (KtError_from_decode e)
     | Panicked p \<Rightarrow> Panicked p
     | Ok options \<Rightarrow> and_then (port options) (\<lambda>_. Ok options))"

section \<open>The child's life\<close>

text \<open>
  \<open>has_server\<close> is the \<^verbatim>\<open>Some\<close> of the entry's mutex, with the tracker token beside the child;
  \<open>reaper\<close> is the task that \<^verbatim>\<open>Drop\<close> spawns with both; \<open>shutdown_results\<close> lists what the shutdowns of the
  child returned that ran to their end, errors included. A call holds a reference to the entry from its start.
\<close>

datatype eph_pc = WaitLock | InShutdown

record EphemeralEntry =
  has_server :: bool
  reaper :: bool
  shutdown_results :: "(unit, string) outcome list"
  ecalls :: "nat \<rightharpoonup> eph_pc"
  handle_refs :: nat
  dropped_entry :: bool

definition EphemeralEntry_new :: EphemeralEntry where
  "EphemeralEntry_new = \<lparr>has_server = True, reaper = False, shutdown_results = [], ecalls = Map.empty,
     handle_refs = 1, dropped_entry = False\<rparr>"

definition token_held :: "EphemeralEntry \<Rightarrow> bool" where
  "token_held e \<longleftrightarrow> has_server e \<or> reaper e"

text \<open>
  What the calls of \<^verbatim>\<open>shutdown\<close> and the final drop do by themselves. A call takes the child out of the entry
  whether its shutdown succeeded or failed; one that panics leaves it there, as a cancelled one does
  (\<open>eph_cancelled\<close> below). The task of \<^verbatim>\<open>Drop\<close> owns the child, so it is gone whatever the result.
\<close>

inductive eph_progress :: "EphemeralEntry \<Rightarrow> EphemeralEntry \<Rightarrow> bool" where
  eph_locked:
    "ecalls e t = Some WaitLock \<Longrightarrow> \<forall>u. ecalls e u \<noteq> Some InShutdown \<Longrightarrow>
     eph_progress e (e\<lparr>ecalls := (ecalls e)(t := if has_server e then Some InShutdown else None)\<rparr>)"
| eph_shutdown_done:
    "ecalls e t = Some InShutdown \<Longrightarrow> \<not> panics r \<Longrightarrow>
     eph_progress e (e\<lparr>ecalls := (ecalls e)(t := None), has_server := False, shutdown_results := shutdown_results e @ [r]\<rparr>)"
| eph_drop:
    "handle_refs e = 0 \<Longrightarrow> ecalls e = Map.empty \<Longrightarrow> \<not> dropped_entry e \<Longrightarrow>
     eph_progress e (e\<lparr>dropped_entry := True, has_server := False, reaper := has_server e\<rparr>)"
| eph_drop_done:
    "reaper e \<Longrightarrow> eph_progress e (e\<lparr>reaper := False, shutdown_results := shutdown_results e @ [r]\<rparr>)"

text \<open>
  Everything that can happen to an entry: new calls, which need a reference, references taken and
  dropped, and calls that end early, cancelled while they wait or by a panic of the child's shutdown.
\<close>

inductive eph_step :: "EphemeralEntry \<Rightarrow> EphemeralEntry \<Rightarrow> bool" where
  eph_shutdown_called:
    "ecalls e t = None \<Longrightarrow> 0 < handle_refs e \<Longrightarrow> eph_step e (e\<lparr>ecalls := (ecalls e)(t \<mapsto> WaitLock)\<rparr>)"
| eph_handle_taken: "0 < handle_refs e \<Longrightarrow> eph_step e (e\<lparr>handle_refs := handle_refs e + 1\<rparr>)"
| eph_handle_dropped: "0 < handle_refs e \<Longrightarrow> eph_step e (e\<lparr>handle_refs := handle_refs e - 1\<rparr>)"
| eph_cancelled: "ecalls e t = Some pc \<Longrightarrow> eph_step e (e\<lparr>ecalls := (ecalls e)(t := None)\<rparr>)"
| eph_own: "eph_progress e e' \<Longrightarrow> eph_step e e'"

definition eph_init :: "EphemeralEntry \<Rightarrow> bool" where
  "eph_init e \<longleftrightarrow> e = EphemeralEntry_new"

definition eph_token_ok :: "EphemeralEntry \<Rightarrow> bool" where
  "eph_token_ok e \<longleftrightarrow> length (shutdown_results e) = (if token_held e then 0 else 1) \<and> \<not> (has_server e \<and> reaper e) \<and>
     (dropped_entry e \<longrightarrow> \<not> has_server e \<and> handle_refs e = 0 \<and> ecalls e = Map.empty) \<and>
     (reaper e \<longrightarrow> dropped_entry e)"

definition eph_lock_ok :: "EphemeralEntry \<Rightarrow> bool" where
  "eph_lock_ok e \<longleftrightarrow> (\<forall>t. ecalls e t = Some InShutdown \<longrightarrow> has_server e) \<and>
     (\<forall>t u. ecalls e t = Some InShutdown \<longrightarrow> ecalls e u = Some InShutdown \<longrightarrow> t = u)"

definition eph_inv :: "EphemeralEntry \<Rightarrow> bool" where
  "eph_inv e \<longleftrightarrow> eph_token_ok e \<and> eph_lock_ok e"

lemma eph_lock_ok_progress: "eph_progress e e' \<Longrightarrow> eph_lock_ok e \<Longrightarrow> eph_lock_ok e'"
proof (induction rule: eph_progress.induct)
  case (eph_shutdown_done e t r)
  then have "u \<noteq> t \<Longrightarrow> ecalls e u \<noteq> Some InShutdown" for u unfolding eph_lock_ok_def by blast
  then show ?case by (simp add: eph_lock_ok_def)
next
  case (eph_locked e t)
  then show ?case by (simp add: eph_lock_ok_def)
qed (auto simp: eph_lock_ok_def)

lemma eph_lock_ok_step: "eph_step e e' \<Longrightarrow> eph_lock_ok e \<Longrightarrow> eph_lock_ok e'"
proof (induction rule: eph_step.induct)
  case (eph_own e e')
  then show ?case by (rule eph_lock_ok_progress)
qed (auto simp: eph_lock_ok_def)

lemma eph_token_ok_progress:
  "eph_progress e e' \<Longrightarrow> eph_lock_ok e \<Longrightarrow> eph_token_ok e \<Longrightarrow> eph_token_ok e'"
proof (induction rule: eph_progress.induct)
  case (eph_shutdown_done e t r)
  then have "has_server e" by (auto simp: eph_lock_ok_def)
  with eph_shutdown_done.prems(2) show ?case by (simp add: eph_token_ok_def token_held_def)
next
  case (eph_locked e t)
  then show ?case by (cases "dropped_entry e") (simp_all add: eph_token_ok_def token_held_def)
qed (auto simp: eph_token_ok_def token_held_def)

lemma eph_token_ok_step: "eph_step e e' \<Longrightarrow> eph_lock_ok e \<Longrightarrow> eph_token_ok e \<Longrightarrow> eph_token_ok e'"
proof (induction rule: eph_step.induct)
  case (eph_cancelled e t pc)
  then show ?case by (cases "dropped_entry e") (simp_all add: eph_token_ok_def token_held_def)
next
  case (eph_own e e')
  then show ?case by (blast intro: eph_token_ok_progress)
qed (auto simp: eph_token_ok_def token_held_def)

interpretation eph: invariant_system eph_init eph_step eph_inv
proof unfold_locales
  show "eph_inv e" if "eph_init e" for e
    using that by (simp add: eph_init_def EphemeralEntry_new_def eph_inv_def eph_token_ok_def eph_lock_ok_def token_held_def)
  show "eph_inv e'" if "eph_inv e" "eph_step e e'" for e e'
    using that eph_lock_ok_step eph_token_ok_step unfolding eph_inv_def by blast
qed

lemma eph_ends:
  assumes tok: "eph_token_ok e" and h: "handle_refs e = 0" and c: "ecalls e = Map.empty"
  shows "\<exists>e' r. eph_progress\<^sup>*\<^sup>* e e' \<and> shutdown_results e' = [r] \<and> \<not> token_held e'"
proof -
  have from_reaper: "\<exists>e' r. eph_progress\<^sup>*\<^sup>* d e' \<and> shutdown_results e' = [r] \<and> \<not> token_held e'"
    if "reaper d" "shutdown_results d = []" "\<not> has_server d" for d
    using eph_drop_done [of d "Ok ()"] that
    by (intro exI [of _ "d\<lparr>reaper := False, shutdown_results := shutdown_results d @ [Ok ()]\<rparr>"] exI [of _ "Ok ()"])
      (auto simp: token_held_def)
  consider (gone) "\<not> token_held e" | (reap) "reaper e" | (child) "has_server e" by (auto simp: token_held_def)
  then show ?thesis
  proof cases
    case gone
    with tok have "length (shutdown_results e) = 1" by (simp add: eph_token_ok_def)
    then obtain r where "shutdown_results e = [r]" by (auto simp: length_Suc_conv)
    with gone show ?thesis by (intro exI [of _ e]) auto
  next
    case reap
    with tok show ?thesis by (intro from_reaper) (auto simp: eph_token_ok_def token_held_def)
  next
    case child
    let ?d = "e\<lparr>dropped_entry := True, has_server := False, reaper := has_server e\<rparr>"
    from child tok have "\<not> dropped_entry e" "shutdown_results e = []" by (auto simp: eph_token_ok_def token_held_def)
    with h c child have "eph_progress e ?d" "reaper ?d" "shutdown_results ?d = []" "\<not> has_server ?d"
      using eph_drop [of e] by auto
    with from_reaper [of ?d] show ?thesis by (meson converse_rtranclp_into_rtranclp)
  qed
qed

lemma eph_shutdown_under_way:
  assumes tok: "eph_token_ok e" and lock: "eph_lock_ok e" and t: "ecalls e t = Some InShutdown"
  shows "has_server e \<and> (\<exists>e'. eph_step e e' \<and> ecalls e' t = None \<and> has_server e' \<and> shutdown_results e' = []) \<and>
      (\<forall>r. \<not> panics r \<longrightarrow> (\<exists>e'. eph_progress e e' \<and> ecalls e' t = None \<and> \<not> token_held e' \<and> shutdown_results e' = [r]))"
proof -
  from t lock have s: "has_server e" by (auto simp: eph_lock_ok_def)
  with tok have r: "\<not> reaper e" "shutdown_results e = []" by (auto simp: eph_token_ok_def token_held_def)
  have "eph_step e (e\<lparr>ecalls := (ecalls e)(t := None)\<rparr>)" by (rule eph_cancelled [OF t])
  moreover have "eph_progress e (e\<lparr>ecalls := (ecalls e)(t := None), has_server := False, shutdown_results := [q]\<rparr>)"
    if "\<not> panics q" for q using eph_shutdown_done [OF t that] r(2) by simp
  ultimately show ?thesis using s r by (force simp: token_held_def)
qed

text \<open>C28: The shutdown of a server's child runs to its end once, before its runtime can finish. However
  shutdown calls, cancellations, frees and the final drop interleave, the tracker token that
  \<open>free_runtime\<close> waits for is held until a shutdown of the child has run to its end, with success or with
  an error, is released then, and no second shutdown of the child ever runs to its end; a shutdown under way
  has the child, and cancelling it leaves the child in the entry; and once no handle and no call is left, the
  entry's own next steps drop it and shut the child down.\<close>

theorem ephemeral_shut_down_once:
  assumes "runs eph_init eph_step e"
  shows "length (shutdown_results e) = (if token_held e then 0 else 1) \<and>
    (ecalls e t = Some InShutdown \<longrightarrow> has_server e \<and>
      (\<exists>e'. eph_step e e' \<and> ecalls e' t = None \<and> has_server e' \<and> shutdown_results e' = []) \<and>
      (\<forall>r. \<not> panics r \<longrightarrow> (\<exists>e'. eph_progress e e' \<and> ecalls e' t = None \<and> \<not> token_held e' \<and> shutdown_results e' = [r]))) \<and>
    (handle_refs e = 0 \<and> ecalls e = Map.empty \<longrightarrow>
      (\<exists>e' r. eph_progress\<^sup>*\<^sup>* e e' \<and> shutdown_results e' = [r] \<and> \<not> token_held e'))"
proof -
  from eph.runs_inv [OF assms] have tok: "eph_token_ok e" and lock: "eph_lock_ok e" by (auto simp: eph_inv_def)
  have "length (shutdown_results e) = (if token_held e then 0 else 1)" using tok by (simp add: eph_token_ok_def)
  then show ?thesis using eph_shutdown_under_way [OF tok lock] eph_ends [OF tok] by blast
qed

definition demo_eph_dropped :: EphemeralEntry where
  "demo_eph_dropped = EphemeralEntry_new\<lparr>handle_refs := 0, dropped_entry := True, has_server := False, reaper := True\<rparr>"

theorem ephemeral_shut_down_once_witness:
  "runs eph_init eph_step demo_eph_dropped \<and> token_held demo_eph_dropped \<and> shutdown_results demo_eph_dropped = [] \<and>
   (\<exists>e' r. eph_progress\<^sup>*\<^sup>* demo_eph_dropped e' \<and> shutdown_results e' = [r] \<and> \<not> token_held e')"
proof -
  let ?a = "EphemeralEntry_new\<lparr>handle_refs := 0\<rparr>"
  have 0: "runs eph_init eph_step EphemeralEntry_new" by (rule runs_init) (simp add: eph_init_def)
  have 1: "eph_step EphemeralEntry_new ?a"
    using eph_handle_dropped [of EphemeralEntry_new] by (simp add: EphemeralEntry_new_def)
  have 2: "eph_step ?a demo_eph_dropped"
    using eph_own [OF eph_drop, of ?a] by (simp add: demo_eph_dropped_def EphemeralEntry_new_def)
  have r: "runs eph_init eph_step demo_eph_dropped" by (rule runs_step [OF runs_step [OF 0 1] 2])
  have t: "token_held demo_eph_dropped" by (simp add: demo_eph_dropped_def token_held_def)
  have "handle_refs demo_eph_dropped = 0" "ecalls demo_eph_dropped = Map.empty"
    by (simp_all add: demo_eph_dropped_def EphemeralEntry_new_def)
  with r t ephemeral_shut_down_once [OF r] show ?thesis by simp
qed

text \<open>A port the options decoder lets through is never refused later, and is not truncated: after
  \<open>decode_options\<close> succeeds, \<open>port\<close> succeeds with the same number, or with no port for 0, and the
  child's output never goes to an inherited stream but to the null device or a file that was opened.\<close>

theorem accepted_options_start:
  assumes "decode_options decode_message b = Ok options"
  shows "\<exists>p. port options = Ok p \<and> (case p of None \<Rightarrow> eo_port options = 0 | Some n \<Rightarrow> unat n = unat (eo_port options)) \<and>
    (redirect open_file options = Ok (out, err) \<longrightarrow>
       (out = NullDevice \<and> err = NullDevice \<and> log_file options = []) \<or>
       (\<exists>h h'. out = LogFile h \<and> err = LogFile h' \<and> open_file 0 (log_file options) = Ok h \<and> open_file 1 (log_file options) = Ok h'))"
proof -
  from assms have p: "unat (eo_port options) < 2 ^ 16"
    by (auto simp: decode_options_def port_def and_then_Ok_iff split: outcome.splits if_splits)
  then have "unat (ucast (eo_port options) :: u16) = unat (eo_port options)"
    by (simp add: unsigned_ucast_eq take_bit_word_eq_self unsigned_take_bit_eq take_bit_nat_eq_self)
  with p show ?thesis
    by (auto simp: port_def redirect_def and_then_Ok_iff Let_def word_gt_0 split: if_splits outcome.splits)
qed

definition demo_eph_options :: EphemeralServerOptions where
  "demo_eph_options = \<lparr>existing_path = [], download_version = ''default'', download_dest_dir = [], sdk_name = [],
     sdk_version = [], eo_namespace = [], ip = [], eo_port = 7233, ui = False, extra_args = [], test_server = False,
     log_file = [], download_ttl_seconds = None\<rparr>"

theorem accepted_options_start_witness:
  "\<exists>p. port demo_eph_options = Ok (Some p) \<and> unat p = 7233"
proof -
  have "decode_options (\<lambda>_. Ok demo_eph_options) [] = Ok demo_eph_options"
    by (simp add: decode_options_def port_def demo_eph_options_def)
  from accepted_options_start [OF this] obtain p where "port demo_eph_options = Ok p"
    "case p of None \<Rightarrow> eo_port demo_eph_options = 0 | Some n \<Rightarrow> unat n = unat (eo_port demo_eph_options)" by blast
  then show ?thesis by (cases p) (simp_all add: demo_eph_options_def)
qed

end
