(* ===== verification/Kt_Bridge.thy ===== *)
theory Kt_Bridge
  imports Kt_Ffi Kt_Call Kt_RuntimeObject Kt_Worker Kt_WorkerConfig Kt_Rpc Kt_Client Kt_Ephemeral
begin

text \<open>
  The C entry points (\<^verbatim>\<open>lib.rs\<close>) over one state for the whole process.

  \<open>Bridge\<close> holds the caller's memory, the handle table and the objects behind the handles, each under
  the number that stands for its \<^verbatim>\<open>Arc\<close>. \<open>next_id\<close> is a counter no object, task or call has reached. Every
  entry point is one call in the sense of the theory of calls, written in the order of the source; an
  early return keeps what was done before it. \<open>ops\<close> records, for each accepted request, the future that
  was handed to Tokio; what these futures do when they run is the subject of the next theory.

  What is not under this repository (protobuf, Core, the gRPC client, the operating system) answers
  through the record \<open>env\<close>, which is an argument of the entry points: one value of it is one choice
  of all those answers.
\<close>

section \<open>The state\<close>

datatype operation =
    Connect "string ConnectionOptions" string u64
  | Rpc arc Service string "u8 list" "nat option"
  | Validate arc
  | Complete arc u32 "u8 list"
  | StopWorker arc nat
  | StartServer EphemeralServerOptions u64
  | StopServer arc

text \<open>A worker's sender is the queue of its runtime; its pumps carry the handle they were started with.\<close>

record WorkerObject =
  wentry :: WorkerEntry
  wruntime :: arc
  whandle :: u64
  wresources :: "ResourceGate option"

text \<open>A server keeps the task tracker of the runtime it was started on.\<close>

record ServerObject =
  sentry :: EphemeralEntry
  sinfo :: EphemeralServerInfo
  sruntime :: arc

text \<open>
  A poller is used by one thread at a time, which \<^verbatim>\<open>in_poll\<close> enforces: \<open>po_in_poll\<close> is that flag, together with
  the arguments of the call that set it, which that thread keeps while it is parked.
\<close>

record poll_args =
  pa_out :: u64
  pa_cap :: u32
  pa_timeout :: i32
  pa_count :: u64

record PollerObject =
  po_runtime :: arc
  po_buf :: BatchBuf
  po_in_poll :: "poll_args option"

text \<open>
  Where a thread in \<^verbatim>\<open>kt_runtime_free\<close> is: in the loop over the children it took out of the table, with the
  first error so far, or in the wait of \<^verbatim>\<open>free_runtime\<close>. A runtime leaves the table at the start of the call,
  so there is at most one such thread per runtime, and \<open>frees\<close> is keyed by it. \<open>stopping\<close> are the servers
  that a thread in \<^verbatim>\<open>kt_ephemeral_free\<close> took out of the table and is waiting to shut down. \<open>entered\<close> are the threads
  in an entry point that starts a request, between its checks and \<^verbatim>\<open>spawn_request\<close>: the runtime, the
  request id and the future they are about to hand over.
\<close>

datatype free_pc =
    Closing "Entry list" "string option"
  | TaskWait "string option"

record Bridge =
  mem :: memory
  handles :: Table
  next_id :: nat
  runtimes :: "arc \<rightharpoonup> RuntimeObject"
  clients :: "arc \<rightharpoonup> string"
  workers :: "arc \<rightharpoonup> WorkerObject"
  servers :: "arc \<rightharpoonup> ServerObject"
  pollers :: "arc \<rightharpoonup> PollerObject"
  ops :: "nat \<rightharpoonup> arc \<times> operation"
  frees :: "arc \<rightharpoonup> free_pc"
  stopping :: "arc set"
  entered :: "nat \<rightharpoonup> arc \<times> u64 \<times> operation"

record env =
  env_decode_runtime :: "u8 list \<Rightarrow> (RuntimeOptions, string) outcome"
  env_decode_client :: "u8 list \<Rightarrow> (ClientOptions, string) outcome"
  env_decode_worker :: "u8 list \<Rightarrow> (WorkerOptions, string) outcome"
  env_decode_server :: "u8 list \<Rightarrow> (EphemeralServerOptions, string) outcome"
  env_utf8 :: "u8 list \<Rightarrow> (string, string) outcome"
  env_build_options :: "CoreRuntimeOptions \<Rightarrow> (CoreRuntimeOptions, string) outcome"
  env_core_new :: "CoreRuntimeOptions \<Rightarrow> (unit, string) outcome"
  env_platform :: "string platform"
  env_build_holder :: "TunerHolderOptions \<Rightarrow> (TunerHolderOptions, string) outcome"
  env_build_tuner :: "TunerHolderOptions \<Rightarrow> (TunerHolderOptions, string) outcome"
  env_build_config :: "TunerHolderOptions WorkerConfig \<Rightarrow> (TunerHolderOptions WorkerConfig, string) outcome"
  env_init_worker :: "TunerHolderOptions WorkerConfig \<Rightarrow> (unit, string) outcome"
  env_core :: "(u8 list, u8 list, u8 list, u8 list) core_api"
  env_now :: nat
  env_core_version :: string
  env_encode_info :: "string \<Rightarrow> (u8 list, string) outcome"
  env_encode_batch :: "MetricBatch \<Rightarrow> u8 list"
  env_encode_server_info :: "EphemeralServerInfo \<Rightarrow> u8 list"
  env_logs :: "core_log list"
  env_to_json :: "string \<Rightarrow> (string, string) outcome"
  env_reap :: "arc \<Rightarrow> (unit, string) outcome"
  env_drain_order :: "(u64 \<times> nat) list"
  env_task_order :: "nat list"
  env_slab :: u64

definition Bridge_init :: "memory \<Rightarrow> Bridge" where
  "Bridge_init m = \<lparr>mem = m, handles = HandleTable_new, next_id = 0, runtimes = Map.empty, clients = Map.empty,
     workers = Map.empty, servers = Map.empty, pollers = Map.empty, ops = Map.empty,
     frees = Map.empty, stopping = {}, entered = Map.empty\<rparr>"

section \<open>Objects\<close>

text \<open>What an \<^verbatim>\<open>Arc\<close> points to. A handle's object always exists; the other case is never reached.\<close>

definition deref :: "(Bridge \<Rightarrow> arc \<rightharpoonup> 'o) \<Rightarrow> arc \<Rightarrow> (Bridge, 'o) api_call" where
  "deref objs a = ask (\<lambda>s. case objs s a of Some x \<Rightarrow> Ok x | None \<Rightarrow> Panicked OtherPayload)"

definition put_runtime :: "arc \<Rightarrow> RuntimeObject \<Rightarrow> Bridge \<Rightarrow> Bridge" where
  "put_runtime a x s = s\<lparr>runtimes := (runtimes s)(a \<mapsto> x)\<rparr>"

definition put_worker :: "arc \<Rightarrow> WorkerObject \<Rightarrow> Bridge \<Rightarrow> Bridge" where
  "put_worker a x s = s\<lparr>workers := (workers s)(a \<mapsto> x)\<rparr>"

definition put_server :: "arc \<Rightarrow> ServerObject \<Rightarrow> Bridge \<Rightarrow> Bridge" where
  "put_server a x s = s\<lparr>servers := (servers s)(a \<mapsto> x)\<rparr>"

definition put_client :: "arc \<Rightarrow> string \<Rightarrow> Bridge \<Rightarrow> Bridge" where
  "put_client a x s = s\<lparr>clients := (clients s)(a \<mapsto> x)\<rparr>"

definition put_poller :: "arc \<Rightarrow> PollerObject \<Rightarrow> Bridge \<Rightarrow> Bridge" where
  "put_poller a x s = s\<lparr>pollers := (pollers s)(a \<mapsto> x)\<rparr>"

text \<open>\<^verbatim>\<open>Arc::new\<close>: a new object under a new number.\<close>

definition alloc :: "(arc \<Rightarrow> 'o \<Rightarrow> Bridge \<Rightarrow> Bridge) \<Rightarrow> 'o \<Rightarrow> (Bridge, arc) api_call" where
  "alloc put x s = (Ok (next_id s), put (next_id s) x (s\<lparr>next_id := next_id s + 1\<rparr>))"

definition update_worker :: "arc \<Rightarrow> (WorkerEntry \<Rightarrow> WorkerEntry) \<Rightarrow> Bridge \<Rightarrow> Bridge" where
  "update_worker a f s = (case workers s a of
     Some x \<Rightarrow> put_worker a (x\<lparr>wentry := f (wentry x)\<rparr>) s | None \<Rightarrow> s)"

definition update_server :: "arc \<Rightarrow> (EphemeralEntry \<Rightarrow> EphemeralEntry) \<Rightarrow> Bridge \<Rightarrow> Bridge" where
  "update_server a f s = (case servers s a of
     Some x \<Rightarrow> put_server a (x\<lparr>sentry := f (sentry x)\<rparr>) s | None \<Rightarrow> s)"

text \<open>
  \<^verbatim>\<open>Entry::close\<close>, and the end of an entry that left the table: the reference it held goes with it.
  The task that \<^verbatim>\<open>free\<close> spawns for a server is a new call of its \<^verbatim>\<open>shutdown\<close>.
\<close>

fun Entry_close :: "Entry \<Rightarrow> Bridge \<Rightarrow> Bridge" where
  "Entry_close (Worker a) s = update_worker a worker_free s"
| "Entry_close (Ephemeral a) s =
     update_server a (\<lambda>e. e\<lparr>ecalls := (ecalls e)(next_id s \<mapsto> WaitLock)\<rparr>) (s\<lparr>next_id := next_id s + 1\<rparr>)"
| "Entry_close _ s = s"

fun drop_entry :: "Entry \<Rightarrow> Bridge \<Rightarrow> Bridge" where
  "drop_entry (Ephemeral a) s = update_server a (\<lambda>e. e\<lparr>handle_refs := handle_refs e - 1\<rparr>) s"
| "drop_entry _ s = s"

definition drop_pending :: "Pending \<Rightarrow> Bridge \<Rightarrow> Bridge" where
  "drop_pending p s = (case Pending_drop p (handles s) of
      (Some e, t) \<Rightarrow> drop_entry e (s\<lparr>handles := t\<rparr>)
    | (None, t) \<Rightarrow> s\<lparr>handles := t\<rparr>)"

section \<open>The table and the caller's memory\<close>

definition insert_handle :: "Entry \<Rightarrow> (Bridge, u64) api_call" where
  "insert_handle e s = (case insert_entry (handles s) e of (r, t) \<Rightarrow> (r, s\<lparr>handles := t\<rparr>))"

definition insert_owned_handle :: "u64 \<Rightarrow> Entry \<Rightarrow> (Bridge, u64) api_call" where
  "insert_owned_handle runtime e s = (case insert_owned (handles s) runtime e of
     (r, t, closing) \<Rightarrow> (r, fold (\<lambda>e s. drop_entry e (Entry_close e s)) closing (s\<lparr>handles := t\<rparr>)))"

definition remove_handle :: "u64 \<Rightarrow> u8 \<Rightarrow> (Bridge, Entry) api_call" where
  "remove_handle h k s = (case remove_of_kind (handles s) h k of (r, t) \<Rightarrow> (r, s\<lparr>handles := t\<rparr>))"

definition remove_runtime_handles :: "u64 \<Rightarrow> (Bridge, arc \<times> Entry list) api_call" where
  "remove_runtime_handles h s = (case remove_runtime (handles s) h of (r, t) \<Rightarrow> (r, s\<lparr>handles := t\<rparr>))"

definition the_runtime :: "u64 \<Rightarrow> (Bridge, arc) api_call" where
  "the_runtime h = ask (\<lambda>s. get_runtime (handles s) h)"

definition the_client :: "u64 \<Rightarrow> (Bridge, arc) api_call" where
  "the_client h = ask (\<lambda>s. get_client (handles s) h)"

definition the_worker :: "u64 \<Rightarrow> (Bridge, arc) api_call" where
  "the_worker h = ask (\<lambda>s. get_worker (handles s) h)"

definition the_server :: "u64 \<Rightarrow> (Bridge, arc) api_call" where
  "the_server h = ask (\<lambda>s. get_ephemeral (handles s) h)"

definition the_poller :: "u64 \<Rightarrow> (Bridge, arc) api_call" where
  "the_poller h = ask (\<lambda>s. get_poller (handles s) h)"

definition owned_by :: "u64 \<Rightarrow> u64 \<Rightarrow> (Bridge, unit) api_call" where
  "owned_by h runtime = ask (\<lambda>s. require_owner (handles s) h runtime)"

definition read_slice :: "u64 \<Rightarrow> u32 \<Rightarrow> (Bridge, u8 list) api_call" where
  "read_slice ptr len = ask (\<lambda>s. slice (mem s) ptr len)"

definition decoded :: "(u8 list \<Rightarrow> ('m, string) outcome) \<Rightarrow> u64 \<Rightarrow> u32 \<Rightarrow> (Bridge, 'm) api_call" where
  "decoded decode_message ptr len =
    then_do (read_slice ptr len) (\<lambda>b. give (map_err KtError_from_decode (decode_message b)))"

definition copy_out :: "u8 list \<Rightarrow> u64 \<Rightarrow> u32 \<Rightarrow> u64 \<Rightarrow> (Bridge, unit) api_call" where
  "copy_out src out cap out_len s = (case write_out src out cap out_len (mem s) of (r, m) \<Rightarrow> (r, s\<lparr>mem := m\<rparr>))"

definition write_u64 :: "u64 \<Rightarrow> u64 \<Rightarrow> (Bridge, unit) api_call" where
  "write_u64 ptr v = change (\<lambda>s. s\<lparr>mem := store_u64 (mem s) ptr v\<rparr>)"

definition write_u32 :: "u64 \<Rightarrow> u32 \<Rightarrow> (Bridge, unit) api_call" where
  "write_u32 ptr v = change (\<lambda>s. s\<lparr>mem := store_u32 (mem s) ptr v\<rparr>)"

definition some_request :: "u64 \<Rightarrow> (Bridge, unit) api_call" where
  "some_request r = require (r \<noteq> 0) (InvalidArgument ''req_id 0 is reserved for pushed events'')"

section \<open>Requests\<close>

text \<open>
  What a future holds from its creation to its end: a clone of the worker's core, a place in the
  line for a worker's \<open>shutdown_lock\<close>, or one for a server's mutex.
\<close>

definition begin_op :: "nat \<Rightarrow> operation \<Rightarrow> Bridge \<Rightarrow> Bridge" where
  "begin_op t op s = (case op of
      Validate w \<Rightarrow> update_worker w (\<lambda>e. e\<lparr>inflight := inflight e + 1\<rparr>) s
    | Complete w _ _ \<Rightarrow> update_worker w (\<lambda>e. e\<lparr>inflight := inflight e + 1\<rparr>) s
    | StopWorker w _ \<Rightarrow> update_worker w (go t LockWait) s
    | StopServer a \<Rightarrow> update_server a (\<lambda>e. e\<lparr>ecalls := (ecalls e)(t \<mapsto> WaitLock)\<rparr>) s
    | _ \<Rightarrow> s)"

text \<open>
  The captures of a future that ended, and of one that was dropped before its end: a shutdown gives up
  its place. Dropping happens only where the future awaits something (\<open>at_await\<close>).
\<close>

definition end_op :: "operation \<Rightarrow> Bridge \<Rightarrow> Bridge" where
  "end_op op s = (case op of
      Validate w \<Rightarrow> update_worker w (\<lambda>e. e\<lparr>inflight := inflight e - 1\<rparr>) s
    | Complete w _ _ \<Rightarrow> update_worker w (\<lambda>e. e\<lparr>inflight := inflight e - 1\<rparr>) s
    | _ \<Rightarrow> s)"

definition awaiting :: "shutdown_pc option \<Rightarrow> bool" where
  "awaiting pc \<longleftrightarrow> pc \<in> {None, Some LockWait, Some PumpWait, Some Unwrapping, Some Finalizing}"

definition at_await :: "nat \<Rightarrow> operation \<Rightarrow> Bridge \<Rightarrow> bool" where
  "at_await t op s = (case op of
      StopWorker w _ \<Rightarrow> (case workers s w of
          Some x \<Rightarrow> awaiting (shutdowns (wentry x) t) | None \<Rightarrow> True)
    | _ \<Rightarrow> True)"

definition drop_op :: "nat \<Rightarrow> operation \<Rightarrow> Bridge \<Rightarrow> Bridge" where
  "drop_op t op s = (case op of
      StopWorker w _ \<Rightarrow> update_worker w (\<lambda>e. if awaiting (shutdowns e t)
        then e\<lparr>shutdowns := (shutdowns e)(t := None)\<rparr> else e) s
    | StopServer a \<Rightarrow> update_server a (\<lambda>e. e\<lparr>ecalls := (ecalls e)(t := None)\<rparr>) s
    | _ \<Rightarrow> end_op op s)"

text \<open>
  \<^verbatim>\<open>spawn_request\<close> for a task with a new number. What becomes of the future's captures is said by \<open>accept\<close> and
  \<open>reject\<close>: a rejected operation is dropped unrun.
\<close>

definition spawn_with ::
  "(nat \<Rightarrow> Bridge \<Rightarrow> Bridge) \<Rightarrow> (Bridge \<Rightarrow> Bridge) \<Rightarrow> arc \<Rightarrow> u64 \<Rightarrow> operation \<Rightarrow> (Bridge, unit) api_call"
where
  "spawn_with accept reject a r op =
    then_do (deref runtimes a) (\<lambda>x s.
      let t = next_id s
      in case spawn_request t r (requests x) of
           (Ok _, e) \<Rightarrow>
             (Ok (), accept t ((put_runtime a (x\<lparr>requests := e\<rparr>) s)\<lparr>next_id := t + 1,
                ops := (ops s)(t \<mapsto> (a, op))\<rparr>))
         | (Err err, e) \<Rightarrow> (Err err, reject ((put_runtime a (x\<lparr>requests := e\<rparr>) s)\<lparr>next_id := t + 1\<rparr>))
         | (Panicked p, e) \<Rightarrow> (Panicked p, reject ((put_runtime a (x\<lparr>requests := e\<rparr>) s)\<lparr>next_id := t + 1\<rparr>)))"

text \<open>On a thread that is alone the captures are made and handed over at once.\<close>

definition spawn :: "arc \<Rightarrow> u64 \<Rightarrow> operation \<Rightarrow> (Bridge, unit) api_call" where
  "spawn a r op = spawn_with (\<lambda>t. begin_op t op) (\<lambda>s. s) a r op"

definition admit :: "arc \<times> u64 \<times> operation \<Rightarrow> (Bridge, unit) api_call" where
  "admit c = (case c of (a, r, op) \<Rightarrow> spawn a r op)"

text \<open>
  With other threads in between: a thread that passed the checks holds a clone of the worker's core, if
  its request needs one. \<^verbatim>\<open>spawn_request\<close> moves the clone into the future, or drops it with the future. A
  shutdown joins the line for its lock only when its future runs. The entry points that clone the core without
  starting a request (heartbeat, initiate) hold it for the length of the call, which is one step here.
\<close>

definition capture_op :: "operation \<Rightarrow> Bridge \<Rightarrow> Bridge" where
  "capture_op op s = (case op of
      Validate w \<Rightarrow> update_worker w (\<lambda>e. e\<lparr>inflight := inflight e + 1\<rparr>) s
    | Complete w _ _ \<Rightarrow> update_worker w (\<lambda>e. e\<lparr>inflight := inflight e + 1\<rparr>) s
    | _ \<Rightarrow> s)"

definition run_captured :: "nat \<Rightarrow> operation \<Rightarrow> Bridge \<Rightarrow> Bridge" where
  "run_captured t op s = (case op of StopWorker _ _ \<Rightarrow> begin_op t op s | _ \<Rightarrow> s)"

definition enter :: "nat \<Rightarrow> arc \<times> u64 \<times> operation \<Rightarrow> Bridge \<Rightarrow> Bridge" where
  "enter n c s = (capture_op (snd (snd c)) s)\<lparr>entered := (entered s)(n \<mapsto> c)\<rparr>"

definition admit_entered :: "nat \<Rightarrow> (Bridge, unit) api_call" where
  "admit_entered n s = (case entered s n of
      Some (a, r, op) \<Rightarrow>
        spawn_with (\<lambda>t. run_captured t op) (end_op op) a r op (s\<lparr>entered := (entered s)(n := None)\<rparr>)
    | None \<Rightarrow> (Panicked OtherPayload, s))"

section \<open>Runtime entry points\<close>

definition kt_runtime_new :: "env \<Rightarrow> u64 \<Rightarrow> u32 \<Rightarrow> u64 \<Rightarrow> (Bridge, unit) api_call" where
  "kt_runtime_new env cfg cfg_len out_runtime =
    then_do (require (out_runtime \<noteq> 0) (InvalidArgument ''out_runtime is null'')) (\<lambda>_.
    then_do (decoded (env_decode_runtime env) cfg cfg_len) (\<lambda>options.
    then_do (give (new_runtime (env_build_options env) (env_core_new env) options)) (\<lambda>x.
    then_do (alloc put_runtime x) (\<lambda>a.
    then_do (insert_handle (Runtime a)) (\<lambda>h.
    write_u64 out_runtime h)))))"

definition kt_runtime_info :: "env \<Rightarrow> u64 \<Rightarrow> u64 \<Rightarrow> u32 \<Rightarrow> u64 \<Rightarrow> (Bridge, unit) api_call" where
  "kt_runtime_info env runtime out cap out_len =
    then_do (the_runtime runtime) (\<lambda>a.
    then_do (deref runtimes a) (\<lambda>x.
    then_do (give (map_err Failed (env_encode_info env (runtime_info (env_core_version env) x)))) (\<lambda>b.
    copy_out b out cap out_len)))"

text \<open>\<^verbatim>\<open>get_or_insert_with\<close>: the batch a failed copy left behind, or a new one, which is kept.\<close>

definition pending_batch :: "env \<Rightarrow> arc \<Rightarrow> RuntimeObject \<Rightarrow> (Bridge, u8 list) api_call" where
  "pending_batch env a x s = (case metric_batch x of
      Some b \<Rightarrow> (Ok b, s)
    | None \<Rightarrow> (case drain_metrics (env_to_json env) (env_logs env) x of
          (Ok batch, x') \<Rightarrow>
            let b = env_encode_batch env batch in (Ok b, put_runtime a (x'\<lparr>metric_batch := Some b\<rparr>) s)
        | (Err e, x') \<Rightarrow> (Err e, put_runtime a x' s)
        | (Panicked p, x') \<Rightarrow> (Panicked p, put_runtime a x' s)))"

definition kt_runtime_retrieve_metrics :: "env \<Rightarrow> u64 \<Rightarrow> u64 \<Rightarrow> u32 \<Rightarrow> u64 \<Rightarrow> (Bridge, unit) api_call" where
  "kt_runtime_retrieve_metrics env runtime out cap out_len =
    then_do (the_runtime runtime) (\<lambda>a.
    then_do (deref runtimes a) (\<lambda>x.
    then_do (pending_batch env a x) (\<lambda>b.
    then_do (copy_out b out cap out_len) (\<lambda>_.
    then_do (deref runtimes a) (\<lambda>x'.
    change (put_runtime a (x'\<lparr>metric_batch := None\<rparr>)))))))"

text \<open>
  \<^verbatim>\<open>EphemeralEntry::shutdown\<close> run to its end on a blocked thread, with the result \<open>r\<close> of the child's own shutdown:
  the child is taken out after success and after an error, which is returned as its text.
\<close>

definition eph_shutdown_now :: "(unit, string) outcome \<Rightarrow> EphemeralEntry \<Rightarrow> EphemeralEntry" where
  "eph_shutdown_now r e =
    (if has_server e then e\<lparr>has_server := False, shutdown_results := shutdown_results e @ [r]\<rparr> else e)"

definition server_shutdown :: "env \<Rightarrow> arc \<Rightarrow> (Bridge, string option) api_call" where
  "server_shutdown env a =
    then_do (deref servers a) (\<lambda>x s.
      if has_server (sentry x)
      then (case env_reap env a of
              Ok _ \<Rightarrow> (Ok None, update_server a (eph_shutdown_now (Ok ())) s)
            | Err e \<Rightarrow> (Ok (Some e), update_server a (eph_shutdown_now (Err e)) s)
            | Panicked p \<Rightarrow> (Panicked p, s))
      else (Ok None, s))"

fun shutdown_child :: "env \<Rightarrow> Entry \<Rightarrow> (Bridge, string option) api_call" where
  "shutdown_child env (Ephemeral a) = server_shutdown env a"
| "shutdown_child env _ = give (Ok None)"

text \<open>
  \<^verbatim>\<open>kt_runtime_free\<close> in the parts between which other threads run. \<open>free_begin\<close> takes the runtime and its children
  out of the table, under its lock.
\<close>

definition set_free :: "arc \<Rightarrow> free_pc option \<Rightarrow> Bridge \<Rightarrow> Bridge" where
  "set_free a pc s = s\<lparr>frees := (frees s)(a := pc)\<rparr>"

definition free_begin :: "u64 \<Rightarrow> (Bridge, arc \<times> Entry list) api_call" where
  "free_begin runtime =
    then_do (remove_runtime_handles runtime) (\<lambda>(a, children).
    then_do (change (set_free a (Some (Closing children None)))) (\<lambda>_.
    give (Ok (a, children))))"

text \<open>One turn of the loop: the next child is shut down if it is a server, closed and dropped; the first
  error is the one reported.\<close>

definition get_or_insert :: "'a option \<Rightarrow> 'a option \<Rightarrow> 'a option" where
  "get_or_insert first later = (case first of Some e \<Rightarrow> Some e | None \<Rightarrow> later)"

definition free_child :: "env \<Rightarrow> arc \<Rightarrow> Entry \<Rightarrow> Entry list \<Rightarrow> string option \<Rightarrow> (Bridge, unit) api_call" where
  "free_child env a child children shutdown_error =
    then_do (change (set_free a (Some (Closing children shutdown_error)))) (\<lambda>_.
    then_do (shutdown_child env child) (\<lambda>err.
    then_do (change (set_free a (Some (Closing children (get_or_insert shutdown_error err))))) (\<lambda>_.
    change (\<lambda>s. drop_entry child (Entry_close child s)))))"

text \<open>\<^verbatim>\<open>drain_pending_for_shutdown\<close> and the close of the tracker.\<close>

definition free_drain :: "(u64 \<times> nat) list \<Rightarrow> arc \<Rightarrow> string option \<Rightarrow> Bridge \<Rightarrow> Bridge" where
  "free_drain ds a shutdown_error s = (case runtimes s a of
      Some x \<Rightarrow> set_free a (Some (TaskWait shutdown_error))
        (put_runtime a (x\<lparr>requests := (drain_pending_for_shutdown ds (requests x))\<lparr>tracker_closed := True\<rparr>\<rparr>) s)
    | None \<Rightarrow> s)"

text \<open>
  The tracker counts the request tasks, the token beside every live child of the runtime, and the tasks
  that \<^verbatim>\<open>EphemeralEntry::free\<close> and \<^verbatim>\<open>Drop\<close> spawn. When it is empty the wait is over, and the call returns the first
  error.
\<close>

definition server_released :: "ServerObject \<Rightarrow> bool" where
  "server_released v \<longleftrightarrow> \<not> token_held (sentry v) \<and> dom (ecalls (sentry v)) = {}"

definition tracker_empty :: "arc \<Rightarrow> Bridge \<Rightarrow> bool" where
  "tracker_empty a s \<longleftrightarrow> (case runtimes s a of Some x \<Rightarrow> tracker (requests x) = 0 | None \<Rightarrow> True) \<and>
     (\<forall>v x. servers s v = Some x \<longrightarrow> sruntime x = a \<longrightarrow> server_released x)"

definition free_return :: "arc \<Rightarrow> string option \<Rightarrow> Bridge \<Rightarrow> unit KtResult \<times> Bridge" where
  "free_return a shutdown_error s =
    (case shutdown_error of None \<Rightarrow> Ok () | Some e \<Rightarrow> Err (Failed e),
     case runtimes s a of
       Some x \<Rightarrow> set_free a None (put_runtime a (x\<lparr>requests := (requests x)\<lparr>rfreed := True\<rparr>\<rparr>) s)
     | None \<Rightarrow> s)"

text \<open>
  What a task of the runtime does after the drain: a future that still runs sees its token cancelled and
  is dropped; then the result, which comes too late, is dropped as well.
\<close>

definition resolve :: "arc \<Rightarrow> nat \<Rightarrow> u64 \<Rightarrow> Pending \<Rightarrow> Bridge \<Rightarrow> Bridge" where
  "resolve a t r p s = (case runtimes s a of
      Some x \<Rightarrow> put_runtime a (x\<lparr>requests := set_phase t r Spawned (Resolved p) (requests x)\<rparr>) s | None \<Rightarrow> s)"

text \<open>The end of the tracked future; a result that was not pushed is dropped with what it created.\<close>

definition retire_op :: "arc \<Rightarrow> nat \<Rightarrow> u64 \<Rightarrow> Pending \<Rightarrow> Bridge \<Rightarrow> Bridge" where
  "retire_op a t r p s = (case runtimes s a of
      None \<Rightarrow> s
    | Some x \<Rightarrow>
        let e = set_phase t r (Resolved p) Finished (finish_request r p (requests x))
        in fold drop_pending (drop (length (discarded (requests x))) (discarded e))
             (put_runtime a (x\<lparr>requests := e\<rparr>) s))"

definition settle_op :: "arc \<Rightarrow> nat \<Rightarrow> Bridge \<Rightarrow> Bridge" where
  "settle_op a t s = (case Option.bind (runtimes s a) (\<lambda>x. tasks (requests x) t) of
      Some (r, Spawned) \<Rightarrow> (case ops s t of
          Some (b, op) \<Rightarrow> retire_op a t r (cancelled_result r) (resolve a t r (cancelled_result r) (drop_op t op s))
        | None \<Rightarrow> s)
    | Some (r, Resolved p) \<Rightarrow> retire_op a t r p s
    | _ \<Rightarrow> s)"

text \<open>
  The whole call when no other thread runs in between, except the tasks it waits for, in the order
  \<open>env_task_order\<close>. The state says what the thread still has to do; in the last case it would wait on.
\<close>

fun close_children :: "env \<Rightarrow> arc \<Rightarrow> Entry list \<Rightarrow> (Bridge, unit) api_call" where
  "close_children env a [] = give (Ok ())"
| "close_children env a (child # children) =
     then_do (ask (\<lambda>s. Ok (frees s a))) (\<lambda>pc. case pc of
         Some (Closing _ shutdown_error) \<Rightarrow>
           then_do (free_child env a child children shutdown_error) (\<lambda>_. close_children env a children)
       | _ \<Rightarrow> give (Panicked OtherPayload))"

definition free_runtime_of :: "env \<Rightarrow> arc \<Rightarrow> (Bridge, unit) api_call" where
  "free_runtime_of env a s = (case frees s a of
      Some (Closing _ shutdown_error) \<Rightarrow>
        let s1 = fold (settle_op a) (env_task_order env) (free_drain (env_drain_order env) a shutdown_error s)
        in if tracker_empty a s1 then free_return a shutdown_error s1 else (Panicked OtherPayload, s1)
    | _ \<Rightarrow> (Panicked OtherPayload, s))"

definition kt_runtime_free :: "env \<Rightarrow> u64 \<Rightarrow> (Bridge, unit) api_call" where
  "kt_runtime_free env runtime =
    then_do (free_begin runtime) (\<lambda>(a, children).
    then_do (close_children env a children) (\<lambda>_.
    free_runtime_of env a))"

definition kt_cancel :: "u64 \<Rightarrow> u64 \<Rightarrow> (Bridge, unit) api_call" where
  "kt_cancel runtime r =
    then_do (the_runtime runtime) (\<lambda>a.
    then_do (deref runtimes a) (\<lambda>x.
    change (put_runtime a (x\<lparr>requests := cancel (requests x) r\<rparr>))))"

section \<open>Client entry points\<close>

text \<open>
  An entry point that starts a request is its checks (the function that ends in \<open>_args\<close>), which give the
  arguments of \<^verbatim>\<open>spawn_request\<close>, and that call.
\<close>

definition client_connect_args ::
  "env \<Rightarrow> u64 \<Rightarrow> u64 \<Rightarrow> u32 \<Rightarrow> u64 \<Rightarrow> (Bridge, arc \<times> u64 \<times> operation) api_call"
where
  "client_connect_args env runtime cfg cfg_len r =
    then_do (some_request r) (\<lambda>_.
    then_do (the_runtime runtime) (\<lambda>a.
    then_do (decoded (env_decode_client env) cfg cfg_len) (\<lambda>config.
    then_do (give (connection_options (env_platform env) config)) (\<lambda>options.
    give (Ok (a, r, Connect options (co_namespace config) runtime))))))"

definition kt_client_connect ::
  "env \<Rightarrow> u64 \<Rightarrow> u64 \<Rightarrow> u32 \<Rightarrow> u64 \<Rightarrow> (Bridge, unit) api_call"
where
  "kt_client_connect env runtime cfg cfg_len r =
    then_do (client_connect_args env runtime cfg cfg_len r) admit"

definition client_rpc_args ::
  "env \<Rightarrow> u64 \<Rightarrow> u64 \<Rightarrow> u32 \<Rightarrow> u64 \<Rightarrow> u32 \<Rightarrow> u64 \<Rightarrow> u32 \<Rightarrow> u64 \<Rightarrow> u64 \<Rightarrow> (Bridge, arc \<times> u64 \<times> operation) api_call"
where
  "client_rpc_args env runtime client service rpc_ptr rpc_len req_ptr req_len timeout_millis r =
    then_do (some_request r) (\<lambda>_.
    then_do (the_runtime runtime) (\<lambda>a.
    then_do (owned_by client runtime) (\<lambda>_.
    then_do (the_client client) (\<lambda>cl.
    then_do (give (Service_from_u32 service)) (\<lambda>sv.
    then_do (read_slice rpc_ptr rpc_len) (\<lambda>nb.
    then_do (give (map_err (\<lambda>e. InvalidArgument (''rpc name is not UTF-8: '' @ e)) (env_utf8 env nb))) (\<lambda>name.
    then_do (read_slice req_ptr req_len) (\<lambda>request.
    give (Ok (a, r, Rpc cl sv name request
      (if timeout_millis > 0 then Some (unat timeout_millis) else None)))))))))))"

definition kt_client_rpc ::
  "env \<Rightarrow> u64 \<Rightarrow> u64 \<Rightarrow> u32 \<Rightarrow> u64 \<Rightarrow> u32 \<Rightarrow> u64 \<Rightarrow> u32 \<Rightarrow> u64 \<Rightarrow> u64 \<Rightarrow> (Bridge, unit) api_call"
where
  "kt_client_rpc env runtime client service rpc_ptr rpc_len req_ptr req_len timeout_millis r =
    then_do (client_rpc_args env runtime client service rpc_ptr rpc_len req_ptr req_len timeout_millis r) admit"

definition kt_client_free :: "u64 \<Rightarrow> (Bridge, unit) api_call" where
  "kt_client_free client =
    then_do (remove_handle client KIND_CLIENT) (\<lambda>e. change (drop_entry e))"

section \<open>Worker entry points\<close>

text \<open>The worker behind a handle and, when it is not finalized, its core.\<close>

definition core_behind :: "arc \<Rightarrow> (Bridge, unit) api_call" where
  "core_behind w = then_do (deref workers w) (\<lambda>x. give (core_of (wentry x)))"

definition kt_worker_new :: "env \<Rightarrow> u64 \<Rightarrow> u64 \<Rightarrow> u64 \<Rightarrow> u32 \<Rightarrow> u64 \<Rightarrow> (Bridge, unit) api_call" where
  "kt_worker_new env runtime client cfg cfg_len out_worker =
    then_do (require (out_worker \<noteq> 0) (InvalidArgument ''out_worker is null'')) (\<lambda>_.
    then_do (the_runtime runtime) (\<lambda>a.
    then_do (owned_by client runtime) (\<lambda>_.
    then_do (the_client client) (\<lambda>cl.
    then_do (decoded (env_decode_worker env) cfg cfg_len) (\<lambda>options.
    then_do (give (worker_config_with_resource_gate (env_build_holder env) (env_build_tuner env)
       (env_build_config env) options (env_now env))) (\<lambda>config.
    then_do (give (map_err KtError_from_anyhow (env_init_worker env config))) (\<lambda>_.
    then_do (alloc put_worker \<lparr>wentry = WorkerEntry_new, wruntime = a, whandle = 0,
       wresources = (if is_jvm options then Some ResourceGate_new else None)\<rparr>) (\<lambda>w.
    then_do (insert_owned_handle runtime (Worker w)) (\<lambda>h.
    write_u64 out_worker h)))))))))"

definition worker_validate_args ::
  "u64 \<Rightarrow> u64 \<Rightarrow> u64 \<Rightarrow> (Bridge, arc \<times> u64 \<times> operation) api_call"
where
  "worker_validate_args runtime worker r =
    then_do (some_request r) (\<lambda>_.
    then_do (the_runtime runtime) (\<lambda>a.
    then_do (owned_by worker runtime) (\<lambda>_.
    then_do (the_worker worker) (\<lambda>w.
    then_do (core_behind w) (\<lambda>_.
    give (Ok (a, r, Validate w)))))))"

definition kt_worker_validate ::
  "u64 \<Rightarrow> u64 \<Rightarrow> u64 \<Rightarrow> (Bridge, unit) api_call"
where
  "kt_worker_validate runtime worker r =
    then_do (worker_validate_args runtime worker r) admit"

definition kt_worker_start :: "u64 \<Rightarrow> u64 \<Rightarrow> (Bridge, unit) api_call" where
  "kt_worker_start runtime worker =
    then_do (the_runtime runtime) (\<lambda>a.
    then_do (owned_by worker runtime) (\<lambda>_.
    then_do (the_worker worker) (\<lambda>w.
    then_do (deref workers w) (\<lambda>x s.
      case start (wentry x) of (r, e) \<Rightarrow>
        (r, put_worker w (x\<lparr>wentry := e,
           whandle := (if wstate (wentry x) = Running False then worker else whandle x)\<rparr>) s)))))"

definition worker_complete_args ::
  "u64 \<Rightarrow> u64 \<Rightarrow> u32 \<Rightarrow> u64 \<Rightarrow> u32 \<Rightarrow> u64 \<Rightarrow> (Bridge, arc \<times> u64 \<times> operation) api_call"
where
  "worker_complete_args runtime worker task_kind proto_bytes proto_len r =
    then_do (some_request r) (\<lambda>_.
    then_do (the_runtime runtime) (\<lambda>a.
    then_do (owned_by worker runtime) (\<lambda>_.
    then_do (the_worker worker) (\<lambda>w.
    then_do (core_behind w) (\<lambda>_.
    then_do (read_slice proto_bytes proto_len) (\<lambda>b.
    give (Ok (a, r, Complete w task_kind b))))))))"

definition kt_worker_complete ::
  "u64 \<Rightarrow> u64 \<Rightarrow> u32 \<Rightarrow> u64 \<Rightarrow> u32 \<Rightarrow> u64 \<Rightarrow> (Bridge, unit) api_call"
where
  "kt_worker_complete runtime worker task_kind proto_bytes proto_len r =
    then_do (worker_complete_args runtime worker task_kind proto_bytes proto_len r) admit"

definition kt_worker_heartbeat :: "env \<Rightarrow> u64 \<Rightarrow> u64 \<Rightarrow> u32 \<Rightarrow> (Bridge, unit) api_call" where
  "kt_worker_heartbeat env worker proto_bytes proto_len =
    then_do (the_worker worker) (\<lambda>w.
    then_do (core_behind w) (\<lambda>_.
    then_do (read_slice proto_bytes proto_len) (\<lambda>b.
    give (heartbeat (env_core env) b))))"

definition kt_worker_initiate_shutdown :: "u64 \<Rightarrow> (Bridge, unit) api_call" where
  "kt_worker_initiate_shutdown worker =
    then_do (the_worker worker) (\<lambda>w.
    then_do (deref workers w) (\<lambda>x.
    change (update_worker w (\<lambda>e. if core_of e = Ok () then e\<lparr>initiated := True\<rparr> else e))))"

definition worker_shutdown_args ::
  "u64 \<Rightarrow> u64 \<Rightarrow> u64 \<Rightarrow> u64 \<Rightarrow> (Bridge, arc \<times> u64 \<times> operation) api_call"
where
  "worker_shutdown_args runtime worker grace_millis r =
    then_do (some_request r) (\<lambda>_.
    then_do (the_runtime runtime) (\<lambda>a.
    then_do (owned_by worker runtime) (\<lambda>_.
    then_do (the_worker worker) (\<lambda>w.
    give (Ok (a, r, StopWorker w (unat (max grace_millis 1))))))))"

definition kt_worker_shutdown ::
  "u64 \<Rightarrow> u64 \<Rightarrow> u64 \<Rightarrow> u64 \<Rightarrow> (Bridge, unit) api_call"
where
  "kt_worker_shutdown runtime worker grace_millis r =
    then_do (worker_shutdown_args runtime worker grace_millis r) admit"

definition kt_worker_free :: "u64 \<Rightarrow> (Bridge, unit) api_call" where
  "kt_worker_free worker =
    then_do (remove_handle worker KIND_WORKER) (\<lambda>e.
    change (case e of Worker w \<Rightarrow> update_worker w worker_free | _ \<Rightarrow> id))"

definition kt_worker_update_resource :: "u64 \<Rightarrow> u32 \<Rightarrow> u64 \<Rightarrow> (Bridge, unit) api_call" where
  "kt_worker_update_resource worker allow out_stats =
    then_do (require (out_stats \<noteq> 0) (InvalidArgument ''out_stats is null'')) (\<lambda>_.
    then_do (require (allow \<le> 15) (InvalidArgument ''resource admission mask must be between 0 and 15'')) (\<lambda>_.
    then_do (the_worker worker) (\<lambda>w.
    then_do (core_behind w) (\<lambda>_.
    then_do (deref workers w) (\<lambda>x.
    then_do (give (case wresources x of Some g \<Rightarrow> Ok g
       | None \<Rightarrow> Err (InvalidArgument ''worker has no JVM resource tuner''))) (\<lambda>g.
    then_do (change (put_worker w (x\<lparr>wresources := Some (ResourceGate_update allow g)\<rparr>))) (\<lambda>_.
    change (\<lambda>s. s\<lparr>mem := store_bytes (mem s) out_stats
      (concat (map u32_bytes (ResourceGate_stats (ResourceGate_update allow g))))\<rparr>))))))))"

section \<open>Server entry points\<close>

definition ephemeral_start_args ::
  "env \<Rightarrow> u64 \<Rightarrow> u64 \<Rightarrow> u32 \<Rightarrow> u64 \<Rightarrow> (Bridge, arc \<times> u64 \<times> operation) api_call"
where
  "ephemeral_start_args env runtime cfg cfg_len r =
    then_do (some_request r) (\<lambda>_.
    then_do (the_runtime runtime) (\<lambda>a.
    then_do (read_slice cfg cfg_len) (\<lambda>b.
    then_do (give (decode_options (env_decode_server env) b)) (\<lambda>options.
    give (Ok (a, r, StartServer options runtime))))))"

definition kt_ephemeral_start ::
  "env \<Rightarrow> u64 \<Rightarrow> u64 \<Rightarrow> u32 \<Rightarrow> u64 \<Rightarrow> (Bridge, unit) api_call"
where
  "kt_ephemeral_start env runtime cfg cfg_len r =
    then_do (ephemeral_start_args env runtime cfg cfg_len r) admit"

definition kt_ephemeral_info :: "env \<Rightarrow> u64 \<Rightarrow> u64 \<Rightarrow> u32 \<Rightarrow> u64 \<Rightarrow> (Bridge, unit) api_call" where
  "kt_ephemeral_info env server out cap out_len =
    then_do (the_server server) (\<lambda>a.
    then_do (deref servers a) (\<lambda>x.
    copy_out (env_encode_server_info env (sinfo x)) out cap out_len))"

definition kt_ephemeral_shutdown :: "u64 \<Rightarrow> u64 \<Rightarrow> u64 \<Rightarrow> (Bridge, unit) api_call" where
  "kt_ephemeral_shutdown runtime server r =
    then_do (some_request r) (\<lambda>_.
    then_do (the_runtime runtime) (\<lambda>a.
    then_do (owned_by server runtime) (\<lambda>_.
    then_do (the_server server) (\<lambda>e.
    spawn a r (StopServer e)))))"

text \<open>\<^verbatim>\<open>kt_ephemeral_free\<close> takes the server out of the table, then blocks on its shutdown.\<close>

definition server_free_begin :: "u64 \<Rightarrow> (Bridge, arc) api_call" where
  "server_free_begin server =
    then_do (remove_handle server KIND_EPHEMERAL) (\<lambda>e.
    case e of
      Ephemeral a \<Rightarrow> then_do (change (\<lambda>s. s\<lparr>stopping := insert a (stopping s)\<rparr>)) (\<lambda>_. give (Ok a))
    | _ \<Rightarrow> give (Panicked (StaticStr ''internal error: entered unreachable code'')))"

definition server_free_end :: "env \<Rightarrow> arc \<Rightarrow> (Bridge, unit) api_call" where
  "server_free_end env a =
    then_do (change (\<lambda>s. s\<lparr>stopping := stopping s - {a}\<rparr>)) (\<lambda>_.
    then_do (server_shutdown env a) (\<lambda>err.
    then_do (change (drop_entry (Ephemeral a))) (\<lambda>_.
    give (case err of None \<Rightarrow> Ok () | Some m \<Rightarrow> Err (Failed m)))))"

definition kt_ephemeral_free :: "env \<Rightarrow> u64 \<Rightarrow> (Bridge, unit) api_call" where
  "kt_ephemeral_free env server = then_do (server_free_begin server) (server_free_end env)"

section \<open>Queue entry points\<close>

definition BatchBuf_default :: BatchBuf where
  "BatchBuf_default = \<lparr>bytes = [], used = 0, base = 0\<rparr>"

definition kt_poller_new :: "u64 \<Rightarrow> u32 \<Rightarrow> u64 \<Rightarrow> (Bridge, unit) api_call" where
  "kt_poller_new runtime flags out_poller =
    then_do (require (out_poller \<noteq> 0) (InvalidArgument ''out_poller is null'')) (\<lambda>_.
    then_do (the_runtime runtime) (\<lambda>a.
    then_do (alloc put_poller \<lparr>po_runtime = a, po_buf = BatchBuf_default, po_in_poll = None\<rparr>) (\<lambda>p.
    then_do (insert_handle (Poller p)) (\<lambda>h.
    write_u64 out_poller h))))"

definition completion_bytes :: "KtCompletion \<Rightarrow> u8 list" where
  "completion_bytes c = u64_bytes (kc_req_id c) @ u32_bytes (kc_kind c) @ u32_bytes (kc_status c) @
     u64_bytes (kc_payload c) @ u64_bytes (kc_payload_len c) @ u64_bytes (kc_aux0 c) @ u64_bytes (kc_aux1 c)"

text \<open>
  \<^verbatim>\<open>PollerEntry::poll\<close> is cut at its wait. \<open>poll_start\<close> makes the checks and sets \<^verbatim>\<open>in_poll\<close>: \<open>Some\<close> is an early
  return, \<open>None\<close> means that the thread is in the wait loop. \<open>poll_batch\<close> is what it does after the loop, with
  the queue as the loop left it: the drain, the slab and the records; the flag is cleared on every way out.
  \<open>poll_finish\<close> is the last turn of the loop and the rest: the turn finds something to do, or the wait timed
  out, which looks at nothing and consumes no wake.
\<close>

definition poll_start :: "arc \<Rightarrow> poll_args \<Rightarrow> (Bridge, u32 option) api_call" where
  "poll_start p c =
    then_do (deref pollers p) (\<lambda>po.
    case poll_enter (pa_out c) (pa_cap c) (po_in_poll po \<noteq> None) of
      Inl r \<Rightarrow> then_do (give r) (\<lambda>count. give (Ok (Some count)))
    | Inr _ \<Rightarrow> then_do (change (put_poller p (po\<lparr>po_in_poll := Some c\<rparr>))) (\<lambda>_. give (Ok None)))"

definition poll_batch ::
  "env \<Rightarrow> arc \<Rightarrow> PollerObject \<Rightarrow> RuntimeObject \<Rightarrow> QueueState \<Rightarrow> u64 \<Rightarrow> u32 \<Rightarrow> (Bridge, u32) api_call"
where
  "poll_batch env p po x q out cap s =
    (let ((drained, was_closed), q') = poll_drain q cap;
         e = (requests x)\<lparr>rqueue := q', polled := polled (requests x) @ drained\<rparr>;
         (r, buf) = poll_deliver drained was_closed (env_slab env) (po_buf po);
         s1 = put_poller p (po\<lparr>po_buf := buf, po_in_poll := None\<rparr>) (put_runtime (po_runtime po) (x\<lparr>requests := e\<rparr>) s)
     in case r of
          Ok (cs, _) \<Rightarrow>
            (Ok (of_nat (length cs)), s1\<lparr>mem := store_bytes
               (if cs = [] then mem s else store_bytes (mem s) (base buf) (take (used buf) (bytes buf)))
               out (concat (map completion_bytes cs))\<rparr>)
        | Err err \<Rightarrow> (Err err, s1)
        | Panicked y \<Rightarrow> (Panicked y, s1))"

definition poll_finish :: "env \<Rightarrow> bool \<Rightarrow> arc \<Rightarrow> poll_args \<Rightarrow> (Bridge, u32) api_call" where
  "poll_finish env timed_out p c =
    then_do (deref pollers p) (\<lambda>po.
    then_do (deref runtimes (po_runtime po)) (\<lambda>x.
    let q = rqueue (requests x)
    in poll_batch env p po x (if timed_out then q else snd (poll_check q (pa_timeout c))) (pa_out c) (pa_cap c)))"

text \<open>
  The whole call when its wait is over at once, or ends by its timeout with nothing in the queue.
\<close>

definition poll :: "env \<Rightarrow> arc \<Rightarrow> poll_args \<Rightarrow> (Bridge, u32) api_call" where
  "poll env p c =
    then_do (poll_start p c) (\<lambda>early.
    case early of Some n \<Rightarrow> give (Ok n) | None \<Rightarrow> poll_finish env False p c)"

definition kt_poller_poll :: "env \<Rightarrow> u64 \<Rightarrow> u64 \<Rightarrow> u32 \<Rightarrow> i32 \<Rightarrow> u64 \<Rightarrow> (Bridge, unit) api_call" where
  "kt_poller_poll env h out cap timeout_millis out_count =
    then_do (require (out \<noteq> 0 \<and> out_count \<noteq> 0) (InvalidArgument ''out/out_count is null'')) (\<lambda>_.
    then_do (the_poller h) (\<lambda>p.
    then_do (poll env p \<lparr>pa_out = out, pa_cap = cap, pa_timeout = timeout_millis, pa_count = out_count\<rparr>) (\<lambda>count.
    write_u32 out_count count)))"

text \<open>The same call on a thread that waits: up to the wait, and from its end.\<close>

definition poller_poll_begin :: "u64 \<Rightarrow> poll_args \<Rightarrow> (Bridge, arc \<times> u32 option) api_call" where
  "poller_poll_begin h c =
    then_do (require (pa_out c \<noteq> 0 \<and> pa_count c \<noteq> 0) (InvalidArgument ''out/out_count is null'')) (\<lambda>_.
    then_do (the_poller h) (\<lambda>p.
    then_do (poll_start p c) (\<lambda>early.
    give (Ok (p, early)))))"

definition poller_poll_end :: "env \<Rightarrow> bool \<Rightarrow> arc \<Rightarrow> poll_args \<Rightarrow> (Bridge, unit) api_call" where
  "poller_poll_end env timed_out p c =
    then_do (poll_finish env timed_out p c) (\<lambda>count.
    write_u32 (pa_count c) count)"

text \<open>The wake is counted under the queue's lock; the notification that goes with it is part of \<open>queue_step\<close>.\<close>

definition kt_poller_wake :: "u64 \<Rightarrow> (Bridge, unit) api_call" where
  "kt_poller_wake h =
    then_do (the_poller h) (\<lambda>p.
    then_do (deref pollers p) (\<lambda>po.
    then_do (deref runtimes (po_runtime po)) (\<lambda>x.
    change (put_runtime (po_runtime po)
      (x\<lparr>requests := (requests x)\<lparr>rqueue := PollerEntry_wake (rqueue (requests x))\<rparr>\<rparr>)))))"

definition kt_poller_free :: "u64 \<Rightarrow> (Bridge, unit) api_call" where
  "kt_poller_free h =
    then_do (remove_handle h KIND_POLLER) (\<lambda>e. change (drop_entry e))"

section \<open>Any entry point\<close>

datatype api =
    RuntimeNew u64 u32 u64
  | RuntimeInfo u64 u64 u32 u64
  | RetrieveMetrics u64 u64 u32 u64
  | RuntimeFree u64
  | ClientConnect u64 u64 u32 u64
  | ClientRpc u64 u64 u32 u64 u32 u64 u32 u64 u64
  | ClientFree u64
  | WorkerNew u64 u64 u64 u32 u64
  | WorkerValidate u64 u64 u64
  | WorkerStart u64 u64
  | WorkerComplete u64 u64 u32 u64 u32 u64
  | WorkerHeartbeat u64 u64 u32
  | WorkerInitiateShutdown u64
  | WorkerShutdown u64 u64 u64 u64
  | WorkerFree u64
  | WorkerUpdateResource u64 u32 u64
  | EphemeralStart u64 u64 u32 u64
  | EphemeralInfo u64 u64 u32 u64
  | EphemeralShutdown u64 u64 u64
  | EphemeralFree u64
  | PollerNew u64 u32 u64
  | PollerPoll u64 u64 u32 i32 u64
  | PollerWake u64
  | PollerFree u64
  | Cancel u64 u64

text \<open>What a thread in an entry point that starts a request hands to \<^verbatim>\<open>spawn_request\<close>; the others never get there.\<close>

fun request_args :: "env \<Rightarrow> api \<Rightarrow> (Bridge, arc \<times> u64 \<times> operation) api_call" where
  "request_args env (ClientConnect h cfg n r) = client_connect_args env h cfg n r"
| "request_args env (ClientRpc h c sv np nl rp rl t r) = client_rpc_args env h c sv np nl rp rl t r"
| "request_args env (WorkerValidate h w r) = worker_validate_args h w r"
| "request_args env (WorkerComplete h w k b n r) = worker_complete_args h w k b n r"
| "request_args env (WorkerShutdown h w g r) = worker_shutdown_args h w g r"
| "request_args env (EphemeralStart h cfg n r) = ephemeral_start_args env h cfg n r"
| "request_args env _ = give (Panicked OtherPayload)"

fun exec :: "env \<Rightarrow> api \<Rightarrow> (Bridge, unit) api_call" where
  "exec env (RuntimeNew cfg n out) = kt_runtime_new env cfg n out"
| "exec env (RuntimeInfo h out cap n) = kt_runtime_info env h out cap n"
| "exec env (RetrieveMetrics h out cap n) = kt_runtime_retrieve_metrics env h out cap n"
| "exec env (RuntimeFree h) = kt_runtime_free env h"
| "exec env (ClientConnect h cfg n r) = kt_client_connect env h cfg n r"
| "exec env (ClientRpc h c sv np nl rp rl t r) = kt_client_rpc env h c sv np nl rp rl t r"
| "exec env (ClientFree c) = kt_client_free c"
| "exec env (WorkerNew h c cfg n out) = kt_worker_new env h c cfg n out"
| "exec env (WorkerValidate h w r) = kt_worker_validate h w r"
| "exec env (WorkerStart h w) = kt_worker_start h w"
| "exec env (WorkerComplete h w k b n r) = kt_worker_complete h w k b n r"
| "exec env (WorkerHeartbeat w b n) = kt_worker_heartbeat env w b n"
| "exec env (WorkerInitiateShutdown w) = kt_worker_initiate_shutdown w"
| "exec env (WorkerShutdown h w g r) = kt_worker_shutdown h w g r"
| "exec env (WorkerFree w) = kt_worker_free w"
| "exec env (WorkerUpdateResource w m out) = kt_worker_update_resource w m out"
| "exec env (EphemeralStart h cfg n r) = kt_ephemeral_start env h cfg n r"
| "exec env (EphemeralInfo v out cap n) = kt_ephemeral_info env v out cap n"
| "exec env (EphemeralShutdown h v r) = kt_ephemeral_shutdown h v r"
| "exec env (EphemeralFree v) = kt_ephemeral_free env v"
| "exec env (PollerNew h fl out) = kt_poller_new h fl out"
| "exec env (PollerPoll p out cap t n) = kt_poller_poll env p out cap t n"
| "exec env (PollerWake p) = kt_poller_wake p"
| "exec env (PollerFree p) = kt_poller_free p"
| "exec env (Cancel h r) = kt_cancel h r"

text \<open>\<^verbatim>\<open>kt_export!\<close>: what the C caller gets of an entry point, with the thread's last error.\<close>

definition kt_export :: "env \<Rightarrow> api \<Rightarrow> string \<Rightarrow> Bridge \<Rightarrow> (i32 \<times> string) \<times> Bridge" where
  "kt_export env c last_error s = (case exec env c s of (r, s1) \<Rightarrow> (guard r last_error, s1))"

end
