(* ===== verification/Kt_System.thy ===== *)
theory Kt_System
  imports Kt_Bridge
begin

text \<open>
  The bridge as one system: entry points called in any order, and everything that goes on behind them.

  A step is an entry point that returns, the first part of one that starts a request or that blocks (\<^verbatim>\<open>kt_runtime_free\<close>,
  \<^verbatim>\<open>kt_ephemeral_free\<close>, \<^verbatim>\<open>kt_poller_poll\<close>), or a step of the background: a blocked call moves on, an accepted request's
  operation ends (\<open>op_result\<close>), panics or is cancelled, its future retires it, a pump pushes an event or
  ends, a shutdown of a worker or of a server moves on, or Core records a metric. A thread in an entry
  point that starts a request may stop between its checks and \<^verbatim>\<open>spawn_request\<close> (\<open>sys_enter\<close>, \<open>sys_admit\<close>). The other
  entry points are atomic here: the interleavings inside a component are the subject of the component's own theory,
  and the lemmas show that what a step does to a runtime, a worker or a server is a path of its step
  relation. The results of the outside are chosen freely by each step.
\<close>

section \<open>What a request's operation gives\<close>

text \<open>The completion of a call that only succeeds or fails.\<close>

definition unit_completion :: "u64 \<Rightarrow> (unit, string) outcome \<Rightarrow> Pending KtResult" where
  "unit_completion r res = (case res of
      Ok _ \<Rightarrow> Ok (Pending_ack r)
    | Err m \<Rightarrow> Ok (Pending_error r KT_ERR_FAILED m)
    | Panicked p \<Rightarrow> Panicked p)"

definition validate_completion :: "u64 \<Rightarrow> (unit, string) outcome \<Rightarrow> Pending KtResult" where
  "validate_completion r res = (case res of
      Ok _ \<Rightarrow> Ok (Pending_ack r)
    | Err m \<Rightarrow> Ok (Pending_error r KT_ERR_INVALID_ARGUMENT (''worker validation failed: '' @ m))
    | Panicked p \<Rightarrow> Panicked p)"

definition rpc_completion :: "u64 \<Rightarrow> RpcOutcome KtResult \<Rightarrow> Pending KtResult" where
  "rpc_completion r res = (case res of
      Ok out \<Rightarrow>
        if ro_status_code out = 0
        then Ok (Pending_payload (ro_payload out) (Pending_kind KtKind.Rpc (Pending_ack r)))
        else Ok (Pending_payload (ro_payload out)
          (Pending_kind KtKind.Rpc (Pending_error r (ro_status_code out) (ro_message out))))
    | Err e \<Rightarrow> Ok (Pending_kind KtKind.Rpc (Pending_error r (KtError_code e) (KtError_to_string e)))
    | Panicked p \<Rightarrow> Panicked p)"

text \<open>A creation that succeeded outside: the entry is made, inserted, and reported with its handle.\<close>

definition report_created :: "u64 \<Rightarrow> u64 \<Rightarrow> Entry \<Rightarrow> (u64 \<Rightarrow> Pending) \<Rightarrow> (Bridge, Pending) api_call" where
  "report_created r runtime e report s = (case insert_owned_handle runtime e s of
      (Ok h, s') \<Rightarrow> (Ok (report h), s')
    | (Err err, s') \<Rightarrow> (Ok (Pending_error r (KtError_code err) (KtError_to_string err)), s')
    | (Panicked p, s') \<Rightarrow> (Panicked p, s'))"

definition client_connected :: "u64 \<Rightarrow> u64 \<Rightarrow> string \<Rightarrow> (Bridge, Pending) api_call" where
  "client_connected r runtime ns =
    then_do (alloc put_client ns) (\<lambda>a.
    report_created r runtime (Client a)
      (\<lambda>h. Pending_aux0 h (Pending_kind ClientConnected (Pending_ack r))))"

definition server_started ::
  "(EphemeralServerInfo \<Rightarrow> u8 list) \<Rightarrow> u64 \<Rightarrow> arc \<Rightarrow> u64 \<Rightarrow> EphemeralServerInfo \<Rightarrow> (Bridge, Pending) api_call"
where
  "server_started encode_info r rt runtime info =
    then_do (alloc put_server \<lparr>sentry = EphemeralEntry_new, sinfo = info, sruntime = rt\<rparr>) (\<lambda>a.
    report_created r runtime (Ephemeral a)
      (\<lambda>h. Pending_payload (encode_info info) (Pending_aux0 h (Pending_kind EphemeralStarted (Pending_ack r)))))"

definition shutdown_messages :: "string list" where
  "shutdown_messages = [''shut down before every poll stream reported ShutDown'',
     ''worker still referenced elsewhere; not finalized'']"

text \<open>The operation of task \<open>t\<close>, which the runtime \<open>a\<close> was asked for, ends with a completion.\<close>

inductive op_result :: "arc \<Rightarrow> operation \<Rightarrow> u64 \<Rightarrow> nat \<Rightarrow> Bridge \<Rightarrow> Pending \<Rightarrow> Bridge \<Rightarrow> bool" where
  op_connected:
    "connect dial options ns = Ok (conn :: nat, ns') \<Longrightarrow> client_connected r runtime ns' s = (Ok p, s') \<Longrightarrow>
     op_result a (Connect options ns runtime) r t s p s'"
| op_connect_failed:
    "connect dial options ns = (Err e :: (nat \<times> string, ClientConnectError) outcome) \<Longrightarrow>
     op_result a (Connect options ns runtime) r t s (connect_failure encode_rpc_failure r e) s"
| op_rpc:
    "call (be :: u8 list backend) sv name b timeout = Some res \<Longrightarrow> rpc_completion r res = Ok p \<Longrightarrow>
     op_result a (Rpc cl sv name b timeout) r t s p s"
| op_validated: "validate_completion r res = Ok p \<Longrightarrow> op_result a (Validate w) r t s p s"
| op_completed:
    "unit_completion r (complete (api :: (u8 list, u8 list, u8 list, u8 list) core_api) k b) = Ok p \<Longrightarrow> op_result a (Complete w k b) r t s p s"
| op_worker_stopped:
    "workers s w = Some x \<Longrightarrow> shutdowns (wentry x) t = None \<Longrightarrow> t \<in> returned_ok (wentry x) \<Longrightarrow>
     op_result a (StopWorker w grace) r t s (Pending_ack r) s"
| op_worker_not_stopped:
    "workers s w = Some x \<Longrightarrow> shutdowns (wentry x) t = None \<Longrightarrow> t \<in> returned_err (wentry x) \<Longrightarrow>
     m \<in> set shutdown_messages \<Longrightarrow>
     op_result a (StopWorker w grace) r t s (Pending_error r KT_ERR_FAILED m) s"
| op_server_started:
    "ephemeral_start open_file start_server options = Ok info \<Longrightarrow>
     server_started encode_info r a runtime info s = (Ok p, s') \<Longrightarrow>
     op_result a (StartServer options runtime) r t s p s'"
| op_server_not_started:
    "ephemeral_start open_file start_server options = Err m \<Longrightarrow>
     op_result a (StartServer options runtime) r t s (Pending_error r KT_ERR_FAILED m) s"
| op_server_stopped:
    "servers s v = Some x \<Longrightarrow> ecalls (sentry x) t = None \<Longrightarrow> unit_completion r res = Ok p \<Longrightarrow>
     res = Ok () \<or> res \<in> set (shutdown_results (sentry x)) \<Longrightarrow>
     op_result a (StopServer v) r t s p s"

section \<open>Steps\<close>

definition server_idle :: "Bridge \<Rightarrow> arc \<Rightarrow> bool" where
  "server_idle s a = (case servers s a of
     Some x \<Rightarrow> (\<forall>u. ecalls (sentry x) u \<noteq> Some InShutdown) | None \<Rightarrow> True)"

text \<open>
  When an entry point comes back at once: \<^verbatim>\<open>kt_runtime_free\<close> and \<^verbatim>\<open>kt_ephemeral_free\<close> when their handle is refused,
  \<^verbatim>\<open>kt_poller_poll\<close> when it is refused, does not park, or parks with a timeout. The others never block.
\<close>

fun returns :: "env \<Rightarrow> api \<Rightarrow> Bridge \<Rightarrow> bool" where
  "returns env (RuntimeFree h) s = (\<forall>x. fst (remove_runtime (handles s) h) \<noteq> Ok x)"
| "returns env (EphemeralFree h) s = (\<forall>e. fst (remove_of_kind (handles s) h KIND_EPHEMERAL) \<noteq> Ok e)"
| "returns env (PollerPoll h out cap timeout_millis n) s = (case get_poller (handles s) h of
      Ok p \<Rightarrow> (case pollers s p of
          Some po \<Rightarrow> (case runtimes s (po_runtime po) of
              Some x \<Rightarrow> cap = 0 \<or> po_in_poll po \<noteq> None \<or> fst (poll_check (rqueue (requests x)) timeout_millis) = Leave \<or> 0 < sint timeout_millis
            | None \<Rightarrow> True)
        | None \<Rightarrow> True)
    | _ \<Rightarrow> True)"
| "returns env _ s = True"

definition update_requests :: "arc \<Rightarrow> (RuntimeEntry \<Rightarrow> RuntimeEntry) \<Rightarrow> Bridge \<Rightarrow> Bridge" where
  "update_requests a f s = (case runtimes s a of
     Some x \<Rightarrow> put_runtime a (x\<lparr>requests := f (requests x)\<rparr>) s | None \<Rightarrow> s)"

definition pump_event :: "u64 \<Rightarrow> TaskKind \<Rightarrow> Pending \<Rightarrow> bool" where
  "pump_event h k p \<longleftrightarrow> (\<exists>b. p = task_event h k b) \<or> p = stream_end h k \<or> (\<exists>st m. p = worker_failed h k st m)"

definition push_event :: "Pending \<Rightarrow> RuntimeEntry \<Rightarrow> RuntimeEntry" where
  "push_event p e = (case Sender_push (rqueue e) p of
      (q, None) \<Rightarrow> e\<lparr>rqueue := q, events := events e @ [p]\<rparr>
    | (q, Some x) \<Rightarrow> e\<lparr>rqueue := q, discarded := discarded e @ [x]\<rparr>)"

text \<open>
  A request that creates a client or a server puts it under the handle it was given. That handle is still
  the handle of the request's runtime, or stale; it could name another runtime only after its slot's
  generation came round while the request was on its way.
\<close>

fun op_owner :: "operation \<Rightarrow> u64 option" where
  "op_owner (Connect options ns runtime) = Some runtime"
| "op_owner (StartServer options runtime) = Some runtime"
| "op_owner _ = None"

definition op_current :: "arc \<Rightarrow> operation \<Rightarrow> Bridge \<Rightarrow> bool" where
  "op_current a op s = (case op_owner op of
      Some h \<Rightarrow> (case get_runtime (handles s) h of Ok b \<Rightarrow> b = a | _ \<Rightarrow> True) | None \<Rightarrow> True)"

text \<open>
  What goes on by itself. \<open>sys_free_child\<close>, \<open>sys_free_drain\<close> and \<open>sys_free_return\<close> are the rest of a call of
  \<^verbatim>\<open>kt_runtime_free\<close>, \<open>sys_server_free\<close> that of \<^verbatim>\<open>kt_ephemeral_free\<close>: a thread gets a server's mutex when no one is
  in its shutdown. \<open>sys_poll_leaves\<close> and \<open>sys_poll_times_out\<close> are the rest of a call of \<^verbatim>\<open>kt_poller_poll\<close>: whoever
  gives a parked thread something to do notifies it, so it looks again (\<open>Kt_Queue\<close> shows that no such
  wakeup is lost). \<open>sys_core_answers\<close> is the return of Core's \<^verbatim>\<open>finalize_shutdown\<close>.
\<close>

inductive background_step :: "Bridge \<Rightarrow> Bridge \<Rightarrow> bool" where
  sys_op_returns:
    "runtimes s a = Some x \<Longrightarrow> tasks (requests x) t = Some (r, Spawned) \<Longrightarrow> t \<notin> cancelled (requests x) \<Longrightarrow>
     ops s t = Some (a, op) \<Longrightarrow> has_room (handles s) \<Longrightarrow> op_current a op s \<Longrightarrow> op_result a op r t s p s' \<Longrightarrow>
     background_step s (resolve a t r p (end_op op s'))"
| sys_op_panics:
    "runtimes s a = Some x \<Longrightarrow> tasks (requests x) t = Some (r, Spawned) \<Longrightarrow> t \<notin> cancelled (requests x) \<Longrightarrow>
     ops s t = Some (a, op) \<Longrightarrow> at_await t op s \<Longrightarrow>
     background_step s (resolve a t r (panic_result r y) (drop_op t op s))"
| sys_op_cancelled:
    "runtimes s a = Some x \<Longrightarrow> tasks (requests x) t = Some (r, Spawned) \<Longrightarrow> t \<in> cancelled (requests x) \<Longrightarrow>
     ops s t = Some (a, op) \<Longrightarrow> at_await t op s \<Longrightarrow>
     background_step s (resolve a t r (cancelled_result r) (drop_op t op s))"
| sys_retire:
    "runtimes s a = Some x \<Longrightarrow> tasks (requests x) t = Some (r, Resolved p) \<Longrightarrow>
     background_step s (retire_op a t r p s)"
| sys_event:
    "workers s w = Some x \<Longrightarrow> pumps (wentry x) k = Pumping \<Longrightarrow> pump_event (whandle x) k p \<Longrightarrow>
     background_step s (update_requests (wruntime x) (push_event p) s)"
| sys_pump_initiates:
    "workers s w = Some x \<Longrightarrow> pumps (wentry x) k = Pumping \<Longrightarrow>
     background_step s (update_worker w (\<lambda>e. e\<lparr>initiated := True\<rparr>) s)"
| sys_pump_ends:
    "workers s w = Some x \<Longrightarrow> pumps (wentry x) k = Pumping \<Longrightarrow>
     background_step s (update_worker w (\<lambda>e. e\<lparr>pumps := (pumps e)(k := CoreDropped)\<rparr>) s)"
| sys_pump_leaves:
    "workers s w = Some x \<Longrightarrow> pumps (wentry x) k = CoreDropped \<Longrightarrow>
     background_step s (update_worker w (\<lambda>e. e\<lparr>pumps := (pumps e)(k := Gone), live_pumps := live_pumps e - 1\<rparr>) s)"
| sys_shutdown:
    "workers s w = Some x \<Longrightarrow> shutdown_progress (wentry x) e \<Longrightarrow>
     dom (shutdowns e) \<subseteq> insert (next_id s) (dom (shutdowns (wentry x))) \<Longrightarrow>
     background_step s (put_worker w (x\<lparr>wentry := e\<rparr>) (s\<lparr>next_id := next_id s + 1\<rparr>))"
| sys_core_answers:
    "workers s w = Some x \<Longrightarrow> core_answers (wentry x) e \<Longrightarrow> background_step s (put_worker w (x\<lparr>wentry := e\<rparr>) s)"
| sys_server:
    "servers s a = Some x \<Longrightarrow> eph_progress (sentry x) e \<Longrightarrow>
     background_step s (put_server a (x\<lparr>sentry := e\<rparr>) s)"
| sys_metric:
    "runtimes s a = Some x \<Longrightarrow> metrics x = Some m \<Longrightarrow> meter_step m m' \<Longrightarrow>
     background_step s (put_runtime a (x\<lparr>metrics := Some m'\<rparr>) s)"
| sys_free_child:
    "frees s a = Some (Closing (c # cs) err) \<Longrightarrow> (\<And>v. c = Ephemeral v \<Longrightarrow> server_idle s v) \<Longrightarrow>
     free_child env a c cs err s = (Ok (), s') \<Longrightarrow> background_step s s'"
| sys_free_drain:
    "frees s a = Some (Closing [] err) \<Longrightarrow> runtimes s a = Some x \<Longrightarrow> drain_order (pending (requests x)) ds \<Longrightarrow>
     background_step s (free_drain ds a err s)"
| sys_free_return:
    "frees s a = Some (TaskWait err) \<Longrightarrow> tracker_empty a s \<Longrightarrow> background_step s (snd (free_return a err s))"
| sys_server_free:
    "a \<in> stopping s \<Longrightarrow> server_idle s a \<Longrightarrow> server_free_end env a s = (r, s') \<Longrightarrow> \<not> panics r \<Longrightarrow> background_step s s'"
| sys_admit: "entered s n = Some c \<Longrightarrow> background_step s (snd (admit_entered n s))"
| sys_poll_leaves:
    "pollers s p = Some po \<Longrightarrow> po_in_poll po = Some c \<Longrightarrow> runtimes s (po_runtime po) = Some x \<Longrightarrow>
     fst (poll_check (rqueue (requests x)) (pa_timeout c)) = Leave \<Longrightarrow>
     background_step s (snd (poller_poll_end env False p c s))"
| sys_poll_times_out:
    "pollers s p = Some po \<Longrightarrow> po_in_poll po = Some c \<Longrightarrow> 0 < sint (pa_timeout c) \<Longrightarrow>
     background_step s (snd (poller_poll_end env True p c s))"

inductive bridge_step :: "Bridge \<Rightarrow> Bridge \<Rightarrow> bool" where
  sys_call: "has_room (handles s) \<Longrightarrow> returns env c s \<Longrightarrow> bridge_step s (snd (exec env c s))"
| sys_free_begin: "free_begin h s = (Ok x, s') \<Longrightarrow> bridge_step s s'"
| sys_server_free_begin: "server_free_begin h s = (Ok a, s') \<Longrightarrow> bridge_step s s'"
| sys_enter: "entered s n = None \<Longrightarrow> request_args env c s = (Ok x, s') \<Longrightarrow> bridge_step s (enter n x s')"
| sys_poll_begin: "poller_poll_begin h c s = (Ok (p, None), s') \<Longrightarrow> bridge_step s s'"
| sys_background: "background_step s s' \<Longrightarrow> bridge_step s s'"

definition bridge_init :: "Bridge \<Rightarrow> bool" where
  "bridge_init s \<longleftrightarrow> (\<exists>m. s = Bridge_init m)"

end
