(* ===== verification/Kt_SystemInv.thy ===== *)
theory Kt_SystemInv
  imports Kt_System
begin

text \<open>
  The invariant of the whole bridge, and that changing one object keeps it.

  \<open>bridge_inv\<close>: the handle table is well-formed with live owners; every live handle resolves to an object
  that exists, a runtime behind a live handle has not started its shutdown, and a server behind one has
  exactly the table's reference; no object is behind two handles; numbers that were not given out are
  unused; between calls no request is in the middle of its admission. The entries that a blocked call of
  \<^verbatim>\<open>kt_runtime_free\<close> or \<^verbatim>\<open>kt_ephemeral_free\<close> took out of the table are alive, out of the table and claimed by
  that call alone, and the runtime it frees is in the state its program counter says. No server is
  leaked: one whose reference was not given up is behind a handle that its own runtime owns, or claimed.
  And every task that runs has an operation.

  \<open>evo\<close> relates two states of the bridge: every request table, meter, worker and server took a path of
  its own step relation. Entry points are checked with the Hoare logic of calls: from a state that is
  \<open>safe\<close>, one that satisfies the invariant and evolved from a given one, each leaves a safe state, whatever
  it returns. In the middle of a call a server may be in the caller's hands only; \<open>safe\<close> takes the set of
  those servers beside the state it evolved from.
\<close>

section \<open>Invariant and evolution\<close>

definition request_pool :: "Bridge \<Rightarrow> arc \<rightharpoonup> RuntimeEntry" where
  "request_pool s a = map_option requests (runtimes s a)"

definition meter_pool :: "Bridge \<Rightarrow> arc \<rightharpoonup> MeterState \<times> Instrument list" where
  "meter_pool s a = Option.bind (runtimes s a) metrics"

definition worker_pool :: "Bridge \<Rightarrow> arc \<rightharpoonup> WorkerEntry" where
  "worker_pool s a = map_option wentry (workers s a)"

definition server_pool :: "Bridge \<Rightarrow> arc \<rightharpoonup> EphemeralEntry" where
  "server_pool s a = map_option sentry (servers s a)"

definition evo :: "Bridge \<Rightarrow> Bridge \<Rightarrow> bool" where
  "evo s s' \<longleftrightarrow>
     evolves runtime_init runtime_step (request_pool s) (request_pool s') \<and>
     evolves meter_init meter_step (meter_pool s) (meter_pool s') \<and>
     evolves worker_init worker_step (worker_pool s) (worker_pool s') \<and>
     evolves eph_init eph_step (server_pool s) (server_pool s')"

lemma evo_refl [simp]: "evo s s"
  by (simp add: evo_def)

lemma evo_trans: "evo s s' \<Longrightarrow> evo s' s'' \<Longrightarrow> evo s s''"
  unfolding evo_def by (blast intro: evolves_trans)

fun entry_live :: "Bridge \<Rightarrow> Entry \<Rightarrow> bool" where
  "entry_live s (Runtime a) = (\<exists>x. runtimes s a = Some x \<and> \<not> rclosed (requests x))"
| "entry_live s (Client a) = (a \<in> dom (clients s))"
| "entry_live s (Worker a) = (a \<in> dom (workers s))"
| "entry_live s (Ephemeral a) = (\<exists>x. servers s a = Some x \<and> handle_refs (sentry x) = 1)"
| "entry_live s (Poller a) = (a \<in> dom (pollers s))"

definition handles_resolve :: "Bridge \<Rightarrow> bool" where
  "handles_resolve s \<longleftrightarrow> (\<forall>h own e. lookup_handle (handles s) h = Some (own, e) \<longrightarrow> entry_live s e)"

definition handles_unique :: "Table \<Rightarrow> bool" where
  "handles_unique t \<longleftrightarrow> (\<forall>h h' own own' e.
     lookup_handle t h = Some (own, e) \<longrightarrow> lookup_handle t h' = Some (own', e) \<longrightarrow> h = h')"

definition ids_fresh :: "Bridge \<Rightarrow> bool" where
  "ids_fresh s \<longleftrightarrow>
     (\<forall>a \<ge> next_id s. runtimes s a = None \<and> clients s a = None \<and> workers s a = None \<and> servers s a = None \<and>
        pollers s a = None) \<and>
     (\<forall>a x. runtimes s a = Some x \<longrightarrow> dom (tasks (requests x)) \<subseteq> {..<next_id s}) \<and>
     (\<forall>a x. workers s a = Some x \<longrightarrow> dom (shutdowns (wentry x)) \<subseteq> {..<next_id s}) \<and>
     (\<forall>a x. servers s a = Some x \<longrightarrow> dom (ecalls (sentry x)) \<subseteq> {..<next_id s})"

definition objects_ok :: "Bridge \<Rightarrow> bool" where
  "objects_ok s \<longleftrightarrow>
     (\<forall>a x. runtimes s a = Some x \<longrightarrow> quiet (requests x)) \<and>
     (\<forall>a x. workers s a = Some x \<longrightarrow> wruntime x \<in> dom (runtimes s)) \<and>
     (\<forall>a x. pollers s a = Some x \<longrightarrow> po_runtime x \<in> dom (runtimes s))"

text \<open>What the blocked calls have in their hands.\<close>

definition unnamed :: "Bridge \<Rightarrow> Entry \<Rightarrow> bool" where
  "unnamed s e \<longleftrightarrow> (\<forall>h own. lookup_handle (handles s) h \<noteq> Some (own, e))"

fun claims_of :: "free_pc \<Rightarrow> Entry list" where
  "claims_of (Closing cs err) = cs"
| "claims_of (TaskWait err) = []"

definition claimed :: "Bridge \<Rightarrow> Entry \<Rightarrow> bool" where
  "claimed s e \<longleftrightarrow> (\<exists>a pc. frees s a = Some pc \<and> e \<in> set (claims_of pc)) \<or> (\<exists>v \<in> stopping s. e = Ephemeral v)"

definition claims_ok :: "Bridge \<Rightarrow> bool" where
  "claims_ok s \<longleftrightarrow> (\<forall>e. claimed s e \<longrightarrow> entry_live s e \<and> unnamed s e \<and> Entry_kind e \<noteq> KIND_RUNTIME)"

definition claims_unique :: "(arc \<rightharpoonup> free_pc) \<Rightarrow> arc set \<Rightarrow> bool" where
  "claims_unique fs vs \<longleftrightarrow>
     (\<forall>a pc. fs a = Some pc \<longrightarrow> distinct (claims_of pc) \<and> (\<forall>v \<in> vs. Ephemeral v \<notin> set (claims_of pc))) \<and>
     (\<forall>a b pc pc' e. fs a = Some pc \<longrightarrow> fs b = Some pc' \<longrightarrow> e \<in> set (claims_of pc) \<longrightarrow> e \<in> set (claims_of pc') \<longrightarrow> a = b)"

fun free_state :: "free_pc \<Rightarrow> RuntimeEntry \<Rightarrow> bool" where
  "free_state (Closing cs err) e = (\<not> rclosed e)"
| "free_state (TaskWait err) e = (rclosed e \<and> tracker_closed e)"

definition frees_ok :: "Bridge \<Rightarrow> bool" where
  "frees_ok s \<longleftrightarrow> (\<forall>a pc. frees s a = Some pc \<longrightarrow> unnamed s (Runtime a) \<and>
     (\<exists>x. runtimes s a = Some x \<and> free_state pc (requests x)))"

text \<open>Who has the reference of a server: its runtime's handle owns it, or a blocked call will give it up.\<close>

definition kept :: "Bridge \<Rightarrow> arc \<Rightarrow> arc \<Rightarrow> bool" where
  "kept s v a \<longleftrightarrow>
     (\<exists>h own o'. lookup_handle (handles s) h = Some (own, Ephemeral v) \<and> lookup_handle (handles s) own = Some (o', Runtime a)) \<or>
     v \<in> stopping s \<or> (\<exists>pc. frees s a = Some pc \<and> Ephemeral v \<in> set (claims_of pc))"

definition no_leak :: "arc set \<Rightarrow> Bridge \<Rightarrow> bool" where
  "no_leak L s \<longleftrightarrow> (\<forall>v x. servers s v = Some x \<longrightarrow> handle_refs (sentry x) \<noteq> 0 \<longrightarrow> v \<in> L \<or> kept s v (sruntime x))"

definition in_background :: "shutdown_pc option \<Rightarrow> bool" where
  "in_background pc \<longleftrightarrow> pc = Some BgWait \<or> pc = Some BgLock"

lemma in_background_simps [simp]:
  "\<not> in_background None" "in_background (Some pc) \<longleftrightarrow> pc = BgWait \<or> pc = BgLock"
  by (auto simp: in_background_def)

definition ops_ok :: "Bridge \<Rightarrow> bool" where
  "ops_ok s \<longleftrightarrow> dom (ops s) \<subseteq> {..<next_id s} \<and>
     (\<forall>a x t r. runtimes s a = Some x \<longrightarrow> tasks (requests x) t = Some (r, Spawned) \<longrightarrow> (\<exists>op. ops s t = Some (a, op))) \<and>
     (\<forall>t a w g x. ops s t = Some (a, StopWorker w g) \<longrightarrow> workers s w = Some x \<longrightarrow> \<not> in_background (shutdowns (wentry x) t))"

definition bridge_inv_in :: "arc set \<Rightarrow> Bridge \<Rightarrow> bool" where
  "bridge_inv_in L s \<longleftrightarrow>
     table_ok (handles s) \<and> handles_resolve s \<and> handles_unique (handles s) \<and> ids_fresh s \<and> objects_ok s \<and>
     claims_ok s \<and> claims_unique (frees s) (stopping s) \<and> frees_ok s \<and> no_leak L s \<and> ops_ok s"

definition bridge_inv :: "Bridge \<Rightarrow> bool" where
  "bridge_inv s \<longleftrightarrow> bridge_inv_in {} s"

lemmas bridge_inv_defs [kt_inv] = bridge_inv_in_def handles_resolve_def ids_fresh_def objects_ok_def

definition safe :: "Bridge \<times> arc set \<Rightarrow> Bridge \<Rightarrow> bool" where
  "safe s0 s \<longleftrightarrow> bridge_inv_in (snd s0) s \<and> evo (fst s0) s"

lemma safeI:
  "safe s0 s \<Longrightarrow> (bridge_inv_in (snd s0) s \<Longrightarrow> bridge_inv_in (snd s0) s') \<Longrightarrow> evo s s' \<Longrightarrow> safe s0 s'"
  unfolding safe_def by (blast intro: evo_trans)

text \<open>A state that differs in objects only: what is named or claimed must stay alive.\<close>

lemma named_claimed_cong:
  assumes "handles s' = handles s" "frees s' = frees s" "stopping s' = stopping s"
  shows "unnamed s' = unnamed s" "claimed s' = claimed s" "kept s' = kept s"
  using assms by (simp_all add: unnamed_def claimed_def kept_def fun_eq_iff)

lemma bridge_inv_objects:
  assumes inv: "bridge_inv_in L s"
    and same: "handles s' = handles s" "frees s' = frees s" "stopping s' = stopping s"
    and live: "\<And>e. entry_live s e \<Longrightarrow> \<not> unnamed s e \<or> claimed s e \<Longrightarrow> entry_live s' e"
    and rest: "ids_fresh s'" "objects_ok s'" "frees_ok s'" "no_leak L s'" "ops_ok s'"
  shows "bridge_inv_in L s'"
proof -
  have "entry_live s' e" if "lookup_handle (handles s) h = Some (own, e)" for h own e
    using inv that live [of e] unfolding bridge_inv_in_def handles_resolve_def unnamed_def by blast
  then have "handles_resolve s'" by (simp add: handles_resolve_def same(1))
  moreover have "claims_ok s'"
    using inv live unfolding bridge_inv_in_def claims_ok_def named_claimed_cong [OF same] by blast
  ultimately show ?thesis using inv rest by (simp add: bridge_inv_in_def same)
qed

lemma bridge_invD:
  assumes "bridge_inv_in L s"
  shows "table_ok (handles s)" "handles_resolve s" "handles_unique (handles s)" "ids_fresh s" "objects_ok s"
    "claims_ok s" "claims_unique (frees s) (stopping s)" "frees_ok s" "no_leak L s" "ops_ok s"
  using assms by (simp_all add: bridge_inv_in_def)

section \<open>Changing one object\<close>

lemmas put_defs = put_runtime_def put_client_def put_worker_def put_server_def put_poller_def

lemma pools_put [simp]:
  "request_pool (put_runtime a x s) = (request_pool s)(a \<mapsto> requests x)"
  "meter_pool (put_runtime a x s) = (meter_pool s)(a := metrics x)"
  "worker_pool (put_runtime a x s) = worker_pool s" "server_pool (put_runtime a x s) = server_pool s"
  "request_pool (put_worker a w s) = request_pool s" "meter_pool (put_worker a w s) = meter_pool s"
  "worker_pool (put_worker a w s) = (worker_pool s)(a \<mapsto> wentry w)" "server_pool (put_worker a w s) = server_pool s"
  "request_pool (put_server a v s) = request_pool s" "meter_pool (put_server a v s) = meter_pool s"
  "worker_pool (put_server a v s) = worker_pool s" "server_pool (put_server a v s) = (server_pool s)(a \<mapsto> sentry v)"
  "request_pool (put_client a c s) = request_pool s" "meter_pool (put_client a c s) = meter_pool s"
  "worker_pool (put_client a c s) = worker_pool s" "server_pool (put_client a c s) = server_pool s"
  "request_pool (put_poller a p s) = request_pool s" "meter_pool (put_poller a p s) = meter_pool s"
  "worker_pool (put_poller a p s) = worker_pool s" "server_pool (put_poller a p s) = server_pool s"
  by (auto simp: put_defs request_pool_def meter_pool_def worker_pool_def server_pool_def fun_eq_iff)

lemma pools_other [simp]:
  "request_pool (s\<lparr>mem := m\<rparr>) = request_pool s" "meter_pool (s\<lparr>mem := m\<rparr>) = meter_pool s"
  "worker_pool (s\<lparr>mem := m\<rparr>) = worker_pool s" "server_pool (s\<lparr>mem := m\<rparr>) = server_pool s"
  "request_pool (s\<lparr>handles := t\<rparr>) = request_pool s" "meter_pool (s\<lparr>handles := t\<rparr>) = meter_pool s"
  "worker_pool (s\<lparr>handles := t\<rparr>) = worker_pool s" "server_pool (s\<lparr>handles := t\<rparr>) = server_pool s"
  "request_pool (s\<lparr>next_id := n\<rparr>) = request_pool s" "meter_pool (s\<lparr>next_id := n\<rparr>) = meter_pool s"
  "worker_pool (s\<lparr>next_id := n\<rparr>) = worker_pool s" "server_pool (s\<lparr>next_id := n\<rparr>) = server_pool s"
  "request_pool (s\<lparr>ops := os\<rparr>) = request_pool s" "meter_pool (s\<lparr>ops := os\<rparr>) = meter_pool s"
  "worker_pool (s\<lparr>ops := os\<rparr>) = worker_pool s" "server_pool (s\<lparr>ops := os\<rparr>) = server_pool s"
  "request_pool (s\<lparr>frees := fs\<rparr>) = request_pool s" "meter_pool (s\<lparr>frees := fs\<rparr>) = meter_pool s"
  "worker_pool (s\<lparr>frees := fs\<rparr>) = worker_pool s" "server_pool (s\<lparr>frees := fs\<rparr>) = server_pool s"
  "request_pool (s\<lparr>stopping := vs\<rparr>) = request_pool s" "meter_pool (s\<lparr>stopping := vs\<rparr>) = meter_pool s"
  "worker_pool (s\<lparr>stopping := vs\<rparr>) = worker_pool s" "server_pool (s\<lparr>stopping := vs\<rparr>) = server_pool s"
  "request_pool (s\<lparr>entered := es\<rparr>) = request_pool s" "meter_pool (s\<lparr>entered := es\<rparr>) = meter_pool s"
  "worker_pool (s\<lparr>entered := es\<rparr>) = worker_pool s" "server_pool (s\<lparr>entered := es\<rparr>) = server_pool s"
  by (simp_all add: request_pool_def meter_pool_def worker_pool_def server_pool_def fun_eq_iff)

lemma evo_other [simp]:
  "evo s (s\<lparr>mem := m\<rparr>)" "evo s (s\<lparr>handles := t\<rparr>)" "evo s (s\<lparr>next_id := n\<rparr>)" "evo s (s\<lparr>ops := os\<rparr>)"
  "evo s (s\<lparr>frees := fs\<rparr>)" "evo s (s\<lparr>stopping := vs\<rparr>)" "evo s (s\<lparr>entered := es\<rparr>)"
  by (simp_all add: evo_def)

lemma entry_live_cong:
  assumes "runtimes s' = runtimes s" "clients s' = clients s" "workers s' = workers s" "servers s' = servers s"
    "pollers s' = pollers s"
  shows "entry_live s' e = entry_live s e"
  using assms by (cases e) simp_all

lemma safe_mem: "safe s0 s \<Longrightarrow> safe s0 (s\<lparr>mem := m\<rparr>)"
proof (erule safeI)
  let ?s = "s\<lparr>mem := m\<rparr>"
  assume inv: "bridge_inv_in (snd s0) s"
  then show "bridge_inv_in (snd s0) ?s"
    using bridge_invD [OF inv] named_claimed_cong [of ?s s, simplified]
    by (intro bridge_inv_objects [OF inv])
      (simp_all add: entry_live_cong [of ?s s] ids_fresh_def objects_ok_def frees_ok_def no_leak_def ops_ok_def)
qed simp

lemma safe_entered: "safe s0 s \<Longrightarrow> safe s0 (s\<lparr>entered := es\<rparr>)"
proof (erule safeI)
  let ?s = "s\<lparr>entered := es\<rparr>"
  assume inv: "bridge_inv_in (snd s0) s"
  then show "bridge_inv_in (snd s0) ?s"
    using bridge_invD [OF inv] named_claimed_cong [of ?s s, simplified]
    by (intro bridge_inv_objects [OF inv])
      (simp_all add: entry_live_cong [of ?s s] ids_fresh_def objects_ok_def frees_ok_def no_leak_def ops_ok_def)
qed simp

lemma lessThan_mono: "A \<subseteq> {..<n} \<Longrightarrow> A \<subseteq> {..<Suc n}" for A :: "nat set"
  by auto

lemma safe_next_id: "safe s0 s \<Longrightarrow> safe s0 (s\<lparr>next_id := Suc (next_id s)\<rparr>)"
proof (erule safeI)
  let ?s = "s\<lparr>next_id := Suc (next_id s)\<rparr>"
  assume inv: "bridge_inv_in (snd s0) s"
  note same = named_claimed_cong [of ?s s, simplified]
  have "ids_fresh ?s" using bridge_invD(4) [OF inv] by (simp add: ids_fresh_def) (meson lessThan_mono)
  moreover have "ops_ok ?s" using bridge_invD(10) [OF inv] lessThan_mono unfolding ops_ok_def by auto
  ultimately show "bridge_inv_in (snd s0) ?s"
    using bridge_invD [OF inv]
    by (intro bridge_inv_objects [OF inv])
      (simp_all add: entry_live_cong [of ?s s] objects_ok_def frees_ok_def no_leak_def same)
qed simp

text \<open>A new operation under a new number.\<close>

lemma safe_new_op:
  assumes "safe s0 s" and t: "t < next_id s" and none: "ops s t = None"
    and w: "\<And>w x. workers s w = Some x \<Longrightarrow> shutdowns (wentry x) t = None"
  shows "safe s0 (s\<lparr>ops := (ops s)(t \<mapsto> (a, op))\<rparr>)"
proof (rule safeI [OF assms(1)])
  let ?s = "s\<lparr>ops := (ops s)(t \<mapsto> (a, op))\<rparr>"
  assume inv: "bridge_inv_in (snd s0) s"
  note same = named_claimed_cong [of ?s s, simplified]
  have "ops_ok ?s"
    using bridge_invD(10) [OF inv] t none w unfolding ops_ok_def by (fastforce split: if_splits)
  then show "bridge_inv_in (snd s0) ?s"
    using bridge_invD [OF inv]
    by (intro bridge_inv_objects [OF inv])
      (simp_all add: entry_live_cong [of ?s s] ids_fresh_def objects_ok_def frees_ok_def no_leak_def same)
qed simp

lemma task_progress_mono:
  "task_progress e e' \<Longrightarrow> (rclosed e \<longrightarrow> rclosed e') \<and> (tracker_closed e \<longrightarrow> tracker_closed e')"
  by (induction rule: task_progress.induct) (auto simp: register_def split: if_splits)

lemma runtime_step_mono1:
  "runtime_step e e' \<Longrightarrow> (rclosed e \<longrightarrow> rclosed e') \<and> (tracker_closed e \<longrightarrow> tracker_closed e')"
  by (induction rule: runtime_step.induct)
    (auto simp: runtime_op_defs answer_def Sender_push_def dest: task_progress_mono split: option.splits if_splits)

lemma runtime_step_mono:
  "runtime_step\<^sup>*\<^sup>* e e' \<Longrightarrow> (rclosed e \<longrightarrow> rclosed e') \<and> (tracker_closed e \<longrightarrow> tracker_closed e')"
  by (induction rule: rtranclp_induct) (auto dest: runtime_step_mono1)

lemma safe_put_runtime:
  assumes "safe s0 s" and x: "runtimes s a = Some x"
    and path: "runtime_step\<^sup>*\<^sup>* (requests x) (requests y)" and q: "quiet (requests y)"
    and t: "dom (tasks (requests y)) \<subseteq> {..<next_id s}"
    and c: "rclosed (requests y) \<Longrightarrow> rclosed (requests x) \<or> (unnamed s (Runtime a) \<and> frees s a = None)"
    and m: "metrics y = metrics x \<or> (\<exists>m m'. metrics x = Some m \<and> metrics y = Some m' \<and> meter_step\<^sup>*\<^sup>* m m')"
    and o: "\<And>t r. tasks (requests y) t = Some (r, Spawned) \<Longrightarrow>
      tasks (requests x) t = Some (r, Spawned) \<or> (\<exists>op. ops s t = Some (a, op))"
  shows "safe s0 (put_runtime a y s)"
proof (rule safeI [OF assms(1)])
  let ?s = "put_runtime a y s"
  assume inv: "bridge_inv_in (snd s0) s"
  note d = bridge_invD [OF inv]
  have same: "handles ?s = handles s" "frees ?s = frees s" "stopping ?s = stopping s" by (simp_all add: put_runtime_def)
  note nc = named_claimed_cong [OF same]
  show "bridge_inv_in (snd s0) ?s"
  proof (rule bridge_inv_objects [OF inv same])
    fix e
    assume e: "entry_live s e" "\<not> unnamed s e \<or> claimed s e"
    then have "e \<noteq> Runtime a \<or> \<not> unnamed s e" using d(6) by (auto simp: claims_ok_def)
    then show "entry_live ?s e" using e(1) x c by (cases e) (auto simp: put_runtime_def)
  next
    show "ids_fresh ?s" using d(4) x t by (auto simp: ids_fresh_def put_runtime_def)
    show "objects_ok ?s" using d(5) q by (auto simp: objects_ok_def put_runtime_def)
    have "free_state pc (requests y)" if "frees s a = Some pc" for pc
    proof -
      have "free_state pc (requests x)" using d(8) that x unfolding frees_ok_def by fastforce
      then show ?thesis using that c runtime_step_mono [OF path] by (cases pc) auto
    qed
    then show "frees_ok ?s" using d(8) by (auto simp: frees_ok_def nc) (auto simp: put_runtime_def)
    show "no_leak (snd s0) ?s" using d(9) by (simp add: no_leak_def nc) (simp add: put_runtime_def)
    show "ops_ok ?s" using d(10) x o unfolding ops_ok_def by (fastforce simp: put_runtime_def split: if_splits)
  qed
next
  have "meter_pool s a = metrics x" using x by (simp add: meter_pool_def)
  then have "evolves meter_init meter_step (meter_pool s) ((meter_pool s)(a := metrics y))"
    using m by (auto intro: evolves_upd simp: fun_upd_idem)
  moreover have "request_pool s a = Some (requests x)" using x by (simp add: request_pool_def)
  ultimately show "evo s (put_runtime a y s)" by (simp add: evo_def evolves_upd [OF _ path])
qed

lemma safe_put_worker:
  assumes "safe s0 s" and x: "workers s a = Some x" and path: "worker_step\<^sup>*\<^sup>* (wentry x) (wentry y)"
    and t: "dom (shutdowns (wentry y)) \<subseteq> {..<next_id s}" and r: "wruntime y = wruntime x"
    and bg: "\<And>t. in_background (shutdowns (wentry y) t) \<Longrightarrow> in_background (shutdowns (wentry x) t) \<or> ops s t = None"
  shows "safe s0 (put_worker a y s)"
proof (rule safeI [OF assms(1)])
  let ?s = "put_worker a y s"
  assume inv: "bridge_inv_in (snd s0) s"
  note d = bridge_invD [OF inv]
  have same: "handles ?s = handles s" "frees ?s = frees s" "stopping ?s = stopping s" by (simp_all add: put_worker_def)
  note nc = named_claimed_cong [OF same]
  have live: "entry_live ?s e" if "entry_live s e" for e
    using that x by (cases e) (auto simp: put_worker_def)
  have "ops_ok ?s" using d(10) x bg unfolding ops_ok_def by (fastforce simp: put_worker_def split: if_splits)
  moreover have "ids_fresh ?s" using d(4) x t by (auto simp: ids_fresh_def put_worker_def)
  moreover have "objects_ok ?s" using d(5) x r by (auto simp: objects_ok_def put_worker_def)
  moreover have "frees_ok ?s" "no_leak (snd s0) ?s"
    using d(8,9) by (simp_all add: frees_ok_def no_leak_def nc) (simp_all add: put_worker_def)
  ultimately show "bridge_inv_in (snd s0) ?s" using live by (intro bridge_inv_objects [OF inv same])
next
  have "worker_pool s a = Some (wentry x)" using x by (simp add: worker_pool_def)
  then show "evo s (put_worker a y s)" by (simp add: evo_def evolves_upd [OF _ path])
qed

lemma safe_put_server:
  assumes "safe s0 s" and x: "servers s a = Some x" and path: "eph_step\<^sup>*\<^sup>* (sentry x) (sentry y)"
    and t: "dom (ecalls (sentry y)) \<subseteq> {..<next_id s}" and sr: "sruntime y = sruntime x"
    and r: "handle_refs (sentry y) = handle_refs (sentry x) \<or>
      (unnamed s (Ephemeral a) \<and> \<not> claimed s (Ephemeral a) \<and> (handle_refs (sentry y) = 0 \<or> a \<in> snd s0))"
  shows "safe s0 (put_server a y s)"
proof (rule safeI [OF assms(1)])
  let ?s = "put_server a y s"
  assume inv: "bridge_inv_in (snd s0) s"
  note d = bridge_invD [OF inv]
  have same: "handles ?s = handles s" "frees ?s = frees s" "stopping ?s = stopping s" by (simp_all add: put_server_def)
  note nc = named_claimed_cong [OF same]
  have live: "entry_live ?s e" if "entry_live s e" "\<not> unnamed s e \<or> claimed s e" for e
    using that x r by (cases e) (auto simp: put_server_def)
  have "ids_fresh ?s" using d(4) x t by (auto simp: ids_fresh_def put_server_def)
  moreover have "objects_ok ?s" "ops_ok ?s" using d(5,10) by (simp_all add: objects_ok_def ops_ok_def put_server_def)
  moreover have "frees_ok ?s" using d(8) by (simp add: frees_ok_def nc) (simp add: put_server_def)
  moreover have "no_leak (snd s0) ?s"
    using d(9) x sr r unfolding no_leak_def nc by (fastforce simp: put_server_def split: if_splits)
  ultimately show "bridge_inv_in (snd s0) ?s" using live by (intro bridge_inv_objects [OF inv same])
next
  have "server_pool s a = Some (sentry x)" using x by (simp add: server_pool_def)
  then show "evo s (put_server a y s)" by (simp add: evo_def evolves_upd [OF _ path])
qed

lemma safe_update_worker:
  assumes "safe s0 s"
    and "\<And>x. workers s a = Some x \<Longrightarrow> worker_step\<^sup>*\<^sup>* (wentry x) (f (wentry x)) \<and> dom (shutdowns (f (wentry x))) \<subseteq> {..<next_id s}"
    and "\<And>x t. workers s a = Some x \<Longrightarrow> in_background (shutdowns (f (wentry x)) t) \<Longrightarrow> in_background (shutdowns (wentry x) t)"
  shows "safe s0 (update_worker a f s)"
proof (cases "workers s a")
  case (Some x)
  show ?thesis unfolding update_worker_def
    by (simp add: Some) (rule safe_put_worker [OF assms(1) Some], use assms(2,3) [OF Some] in simp_all)
qed (use assms in \<open>simp add: update_worker_def\<close>)

lemma safe_update_server:
  assumes "safe s0 s"
    and "\<And>x. servers s a = Some x \<Longrightarrow> eph_step\<^sup>*\<^sup>* (sentry x) (f (sentry x)) \<and> dom (ecalls (f (sentry x))) \<subseteq> {..<next_id s}"
    and "\<And>x. servers s a = Some x \<Longrightarrow> handle_refs (f (sentry x)) = handle_refs (sentry x) \<or>
      (unnamed s (Ephemeral a) \<and> \<not> claimed s (Ephemeral a) \<and> (handle_refs (f (sentry x)) = 0 \<or> a \<in> snd s0))"
  shows "safe s0 (update_server a f s)"
proof (cases "servers s a")
  case (Some x)
  show ?thesis unfolding update_server_def
    by (simp add: Some) (rule safe_put_server [OF assms(1) Some], use assms(2,3) [OF Some] in simp_all)
qed (use assms in \<open>simp add: update_server_def\<close>)

section \<open>New objects\<close>

lemma safe_new_id:
  assumes "safe s0 s"
  shows "runtimes s (next_id s) = None" "clients s (next_id s) = None" "workers s (next_id s) = None"
    "servers s (next_id s) = None" "pollers s (next_id s) = None" "ops s (next_id s) = None"
  using assms by (auto simp: safe_def bridge_inv_in_def ids_fresh_def ops_ok_def)

lemma safe_put_client: "safe s0 s \<Longrightarrow> a < next_id s \<Longrightarrow> safe s0 (put_client a c s)"
proof (erule safeI)
  let ?s = "put_client a c s"
  assume a: "a < next_id s" and inv: "bridge_inv_in (snd s0) s"
  note d = bridge_invD [OF inv]
  have same: "handles ?s = handles s" "frees ?s = frees s" "stopping ?s = stopping s" by (simp_all add: put_client_def)
  note nc = named_claimed_cong [OF same]
  have live: "entry_live s e \<Longrightarrow> entry_live ?s e" for e by (cases e) (auto simp: put_client_def)
  have "ids_fresh ?s" "objects_ok ?s" "ops_ok ?s" using d(4,5,10) a
    by (auto simp: ids_fresh_def objects_ok_def ops_ok_def put_client_def)
  moreover have "frees_ok ?s" "no_leak (snd s0) ?s"
    using d(8,9) by (simp_all add: frees_ok_def no_leak_def nc) (simp_all add: put_client_def)
  ultimately show "bridge_inv_in (snd s0) ?s" using live by (intro bridge_inv_objects [OF inv same])
qed (simp add: evo_def)

lemma safe_put_poller:
  "safe s0 s \<Longrightarrow> a < next_id s \<Longrightarrow> po_runtime p \<in> dom (runtimes s) \<Longrightarrow> safe s0 (put_poller a p s)"
proof (erule safeI)
  let ?s = "put_poller a p s"
  assume a: "a < next_id s" and p: "po_runtime p \<in> dom (runtimes s)" and inv: "bridge_inv_in (snd s0) s"
  note d = bridge_invD [OF inv]
  have same: "handles ?s = handles s" "frees ?s = frees s" "stopping ?s = stopping s" by (simp_all add: put_poller_def)
  note nc = named_claimed_cong [OF same]
  have live: "entry_live s e \<Longrightarrow> entry_live ?s e" for e by (cases e) (auto simp: put_poller_def)
  have "ids_fresh ?s" "ops_ok ?s" using d(4,10) a by (auto simp: ids_fresh_def ops_ok_def put_poller_def)
  moreover have "objects_ok ?s" using d(5) p by (auto simp: objects_ok_def put_poller_def)
  moreover have "frees_ok ?s" "no_leak (snd s0) ?s"
    using d(8,9) by (simp_all add: frees_ok_def no_leak_def nc) (simp_all add: put_poller_def)
  ultimately show "bridge_inv_in (snd s0) ?s" using live by (intro bridge_inv_objects [OF inv same])
qed (simp add: evo_def)

lemma safe_new_runtime:
  assumes "safe s0 s" and "a < next_id s" and none: "runtimes s a = None"
    and x: "requests x = RuntimeEntry_new" and m: "metrics x = None \<or> metrics x = Some (BridgeMeter_default, [])"
  shows "safe s0 (put_runtime a x s)"
proof (rule safeI [OF assms(1)])
  let ?s = "put_runtime a x s"
  assume inv: "bridge_inv_in (snd s0) s"
  note d = bridge_invD [OF inv]
  have same: "handles ?s = handles s" "frees ?s = frees s" "stopping ?s = stopping s" by (simp_all add: put_runtime_def)
  note nc = named_claimed_cong [OF same]
  have live: "entry_live s e \<Longrightarrow> entry_live ?s e" for e
    using none by (cases e) (auto simp: put_runtime_def)
  have "ids_fresh ?s" "objects_ok ?s" using d(4,5) assms(2) x
    by (auto simp: ids_fresh_def objects_ok_def put_runtime_def quiet_def RuntimeEntry_new_def)
  moreover have "frees_ok ?s" using d(8) none unfolding frees_ok_def nc by (fastforce simp: put_runtime_def)
  moreover have "no_leak (snd s0) ?s" using d(9) by (simp add: no_leak_def nc) (simp add: put_runtime_def)
  moreover have "ops_ok ?s" using d(10) x unfolding ops_ok_def
    by (auto simp: put_runtime_def RuntimeEntry_new_def split: if_splits)
  ultimately show "bridge_inv_in (snd s0) ?s" using live by (intro bridge_inv_objects [OF inv same])
next
  have "evolves meter_init meter_step (meter_pool s) ((meter_pool s)(a := metrics x))"
    using m none by (auto intro!: evolves_new simp: meter_pool_def meter_init_def fun_upd_idem)
  moreover have "evolves runtime_init runtime_step (request_pool s) ((request_pool s)(a \<mapsto> requests x))"
    by (rule evolves_new) (simp_all add: request_pool_def none runtime_init_def x)
  ultimately show "evo s (put_runtime a x s)" by (simp add: evo_def)
qed

lemma safe_new_worker:
  assumes "safe s0 s" and "a < next_id s" and none: "workers s a = None"
    and x: "wentry x = WorkerEntry_new" and r: "wruntime x \<in> dom (runtimes s)"
  shows "safe s0 (put_worker a x s)"
proof (rule safeI [OF assms(1)])
  let ?s = "put_worker a x s"
  assume inv: "bridge_inv_in (snd s0) s"
  note d = bridge_invD [OF inv]
  have same: "handles ?s = handles s" "frees ?s = frees s" "stopping ?s = stopping s" by (simp_all add: put_worker_def)
  note nc = named_claimed_cong [OF same]
  have live: "entry_live s e \<Longrightarrow> entry_live ?s e" for e by (cases e) (auto simp: put_worker_def)
  have "ids_fresh ?s" "objects_ok ?s" using d(4,5) assms(2) x r
    by (auto simp: ids_fresh_def objects_ok_def put_worker_def WorkerEntry_new_def)
  moreover have "frees_ok ?s" "no_leak (snd s0) ?s"
    using d(8,9) by (simp_all add: frees_ok_def no_leak_def nc) (simp_all add: put_worker_def)
  moreover have "ops_ok ?s" using d(10) x unfolding ops_ok_def
    by (auto simp: put_worker_def WorkerEntry_new_def split: if_splits)
  ultimately show "bridge_inv_in (snd s0) ?s" using live by (intro bridge_inv_objects [OF inv same])
next
  have "evolves worker_init worker_step (worker_pool s) ((worker_pool s)(a \<mapsto> wentry x))"
    by (rule evolves_new) (simp_all add: worker_pool_def none worker_init_def x)
  then show "evo s (put_worker a x s)" by (simp add: evo_def)
qed

text \<open>A new server is in the hands of the request that started it.\<close>

fun holding :: "Entry \<Rightarrow> Bridge \<times> arc set \<Rightarrow> Bridge \<times> arc set" where
  "holding (Ephemeral v) s0 = (fst s0, insert v (snd s0))"
| "holding _ s0 = s0"

lemma safe_more: "safe (b, L) s \<Longrightarrow> L \<subseteq> L' \<Longrightarrow> safe (b, L') s"
  unfolding safe_def bridge_inv_in_def no_leak_def by auto

lemma safe_holding: "safe s0 s \<Longrightarrow> safe (holding e s0) s"
  using safe_more [of "fst s0" "snd s0" s] by (cases e) auto

lemma safe_let_go:
  assumes "safe (holding e s0) s"
    and "\<And>v x. e = Ephemeral v \<Longrightarrow> servers s v = Some x \<Longrightarrow> handle_refs (sentry x) = 0 \<or> kept s v (sruntime x)"
  shows "safe s0 s"
proof (cases e)
  case (Ephemeral v)
  have "no_leak (snd s0) s"
    using assms Ephemeral unfolding safe_def bridge_inv_in_def no_leak_def by fastforce
  then show ?thesis using assms(1) Ephemeral by (simp add: safe_def bridge_inv_in_def)
qed (use assms in simp_all)

lemma safe_new_server:
  assumes "safe s0 s" and "a < next_id s" and none: "servers s a = None" and x: "sentry x = EphemeralEntry_new"
  shows "safe (holding (Ephemeral a) s0) (put_server a x s)"
proof (rule safeI [OF safe_holding [OF assms(1)]])
  let ?s = "put_server a x s"
  let ?L = "snd (holding (Ephemeral a) s0)"
  assume inv: "bridge_inv_in ?L s"
  note d = bridge_invD [OF inv]
  have same: "handles ?s = handles s" "frees ?s = frees s" "stopping ?s = stopping s" by (simp_all add: put_server_def)
  note nc = named_claimed_cong [OF same]
  have live: "entry_live s e \<Longrightarrow> entry_live ?s e" for e
    using none by (cases e) (auto simp: put_server_def)
  have "ids_fresh ?s" "objects_ok ?s" "ops_ok ?s" using d(4,5,10) assms(2) x
    by (auto simp: ids_fresh_def objects_ok_def ops_ok_def put_server_def EphemeralEntry_new_def)
  moreover have "frees_ok ?s" using d(8) by (simp add: frees_ok_def nc) (simp add: put_server_def)
  moreover have "no_leak ?L ?s" using d(9) by (simp add: no_leak_def nc) (auto simp: put_server_def)
  ultimately show "bridge_inv_in ?L ?s" using live by (intro bridge_inv_objects [OF inv same])
next
  have "evolves eph_init eph_step (server_pool s) ((server_pool s)(a \<mapsto> sentry x))"
    by (rule evolves_new) (simp_all add: server_pool_def none eph_init_def x)
  then show "evo s (put_server a x s)" by (simp add: evo_def)
qed

end
