(* ===== verification/Kt_SystemSafe.thy ===== *)
theory Kt_SystemSafe
  imports Kt_SystemInv
begin

text \<open>
  Every entry point of the bridge keeps it safe.

  First the table: an entry that is inserted must be alive and behind no other handle; one that was
  removed is \<open>detached\<close>, alive, behind no handle and in nobody else's hands, until its reference is dropped.
  Then a triple of the Hoare logic for each entry point that does not block.
\<close>

section \<open>The table\<close>

definition detached :: "Bridge \<Rightarrow> Entry \<Rightarrow> bool" where
  "detached s e \<longleftrightarrow> entry_live s e \<and> unnamed s e \<and> \<not> claimed s e \<and> (\<forall>a. e = Runtime a \<longrightarrow> frees s a = None)"

lemma safe_handles:
  assumes "safe s0 s" and "table_ok t" and "handles_unique t"
    and entries: "\<And>h own e. lookup_handle t h = Some (own, e) \<Longrightarrow>
      entry_live s e \<and> \<not> claimed s e \<and> (\<forall>a. e = Runtime a \<longrightarrow> frees s a = None)"
    and kept: "\<And>v x. servers s v = Some x \<Longrightarrow> handle_refs (sentry x) \<noteq> 0 \<Longrightarrow> v \<notin> snd s0 \<Longrightarrow>
      kept (s\<lparr>handles := t\<rparr>) v (sruntime x)"
  shows "safe s0 (s\<lparr>handles := t\<rparr>)"
proof (rule safeI [OF assms(1)])
  let ?s = "s\<lparr>handles := t\<rparr>"
  assume inv: "bridge_inv_in (snd s0) s"
  note d = bridge_invD [OF inv] and live = entry_live_cong [of ?s s, simplified]
  have un: "unnamed ?s e" if "claimed s e \<or> (\<exists>a. e = Runtime a \<and> frees s a \<noteq> None)" for e
    using that entries unfolding unnamed_def by fastforce
  have "claimed ?s = claimed s" by (simp add: claimed_def fun_eq_iff)
  then have "claims_ok ?s" using d(6) un unfolding claims_ok_def by (simp add: live)
  moreover have "frees_ok ?s" using d(8) un unfolding frees_ok_def by fastforce
  moreover have "no_leak (snd s0) ?s" using kept unfolding no_leak_def by auto
  moreover have "handles_resolve ?s" using entries by (simp add: handles_resolve_def live)
  ultimately show "bridge_inv_in (snd s0) ?s"
    using d assms(2,3) by (simp add: bridge_inv_in_def ids_fresh_def objects_ok_def ops_ok_def)
qed simp

lemma safeD:
  assumes "safe s0 s"
  shows "table_ok (handles s)" "wf_table (handles s)" "owners_live (handles s)" "handles_unique (handles s)"
    "claims_unique (frees s) (stopping s)"
  using assms by (simp_all add: safe_def bridge_inv_in_def table_ok_def)

lemma safe_live: "safe s0 s \<Longrightarrow> lookup_handle (handles s) h = Some (own, e) \<Longrightarrow> entry_live s e"
  unfolding safe_def bridge_inv_in_def handles_resolve_def by blast

lemma safe_named:
  assumes "safe s0 s" and "lookup_handle (handles s) h = Some (own, e)"
  shows "\<not> claimed s e" and "e = Runtime a \<Longrightarrow> frees s a = None"
proof -
  have "claims_ok s" "frees_ok s" using assms(1) by (simp_all add: safe_def bridge_inv_in_def)
  moreover have "\<not> unnamed s e" using assms(2) by (auto simp: unnamed_def)
  ultimately show "\<not> claimed s e" "e = Runtime a \<Longrightarrow> frees s a = None"
    unfolding claims_ok_def frees_ok_def by (blast, metis not_None_eq)
qed

lemma safe_kept: "safe s0 s \<Longrightarrow> servers s v = Some x \<Longrightarrow> handle_refs (sentry x) \<noteq> 0 \<Longrightarrow> v \<notin> snd s0 \<Longrightarrow> kept s v (sruntime x)"
  unfolding safe_def bridge_inv_in_def no_leak_def by blast

text \<open>What has the reference of a server keeps it when the handles that have it are still there.\<close>

lemma kept_handles:
  assumes "kept s v a"
    and "\<And>h own o'. lookup_handle (handles s) h = Some (own, Ephemeral v) \<Longrightarrow> lookup_handle (handles s) own = Some (o', Runtime a) \<Longrightarrow>
      lookup_handle t h = Some (own, Ephemeral v) \<and> lookup_handle t own = Some (o', Runtime a)"
  shows "kept (s\<lparr>handles := t\<rparr>) v a"
  using assms unfolding kept_def by fastforce

lemma safe_insert:
  assumes "safe (holding e s0) s" and "has_room (handles s)" and "detached s e"
    and own: "own \<noteq> 0 \<Longrightarrow> (\<exists>r. lookup_handle (handles s) own = Some (0, Runtime r)) \<and> Entry_kind e \<noteq> KIND_RUNTIME"
    and sv: "\<And>v x. e = Ephemeral v \<Longrightarrow> servers s v = Some x \<Longrightarrow> lookup_handle (handles s) own = Some (0, Runtime (sruntime x))"
    and ins: "insert_into (handles s) e own = (r, t)"
  shows "safe s0 (s\<lparr>handles := t\<rparr>)" and "\<exists>h. r = Ok h \<and> lookup_handle t = (lookup_handle (handles s))(h \<mapsto> (own, e))"
proof -
  note d = safeD [OF assms(1)]
  obtain h where h: "insert_into (handles s) e own = (Ok h, inserted (handles s) e own)" "lookup_handle (handles s) h = None"
    "lookup_handle (inserted (handles s) e own) = (lookup_handle (handles s))(h \<mapsto> (own, e))"
    "wf_table (inserted (handles s) e own)"
    by (rule insert_into_spec [OF d(2) assms(2)])
  then have t: "t = inserted (handles s) e own" "r = Ok h" using ins by simp_all
  have lt: "lookup_handle t = (lookup_handle (handles s))(h \<mapsto> (own, e))" using h(3) t(1) by simp
  have "table_ok t" unfolding table_ok_def t(1)
    using h(4) owners_live_inserted [OF d(2) assms(2) d(3)] own by simp
  moreover have "handles_unique t" using d(4) assms(3) unfolding handles_unique_def lt detached_def unnamed_def
    by (auto split: if_splits)
  moreover have "entry_live s e' \<and> \<not> claimed s e' \<and> (\<forall>a. e' = Runtime a \<longrightarrow> frees s a = None)"
    if k: "lookup_handle t k = Some (own', e')" for k own' e'
  proof (cases "k = h")
    case True
    then show ?thesis using k assms(3) by (simp add: lt detached_def)
  next
    case False
    then have "lookup_handle (handles s) k = Some (own', e')" using k by (simp add: lt)
    from safe_live [OF assms(1) this] safe_named [OF assms(1) this] show ?thesis by simp
  qed
  moreover have "kept (s\<lparr>handles := t\<rparr>) v (sruntime x)"
    if "servers s v = Some x" "handle_refs (sentry x) \<noteq> 0" "v \<notin> snd (holding e s0)" for v x
    by (rule kept_handles [OF safe_kept [OF assms(1) that]]) (use h(2) in \<open>auto simp: lt\<close>)
  ultimately have held: "safe (holding e s0) (s\<lparr>handles := t\<rparr>)" by (intro safe_handles [OF assms(1)])
  have kept_e: "kept (s\<lparr>handles := t\<rparr>) v (sruntime x)" if "e = Ephemeral v" "servers s v = Some x" for v x
  proof -
    have "lookup_handle t h = Some (own, Ephemeral v)" "lookup_handle t own = Some (0, Runtime (sruntime x))"
      using sv [OF that] h(2) that(1) by (auto simp: lt)
    then show ?thesis unfolding kept_def by auto
  qed
  show "safe s0 (s\<lparr>handles := t\<rparr>)" by (rule safe_let_go [OF held]) (use kept_e in simp)
  show "\<exists>h. r = Ok h \<and> lookup_handle t = (lookup_handle (handles s))(h \<mapsto> (own, e))" using t(2) lt by simp
qed

lemma removed_detached:
  assumes s: "safe s0 s" and "lookup_handle (handles s) k = Some (own, e)" and "lookup_handle t k = None"
    and sub: "\<And>j v. lookup_handle t j = Some v \<Longrightarrow> lookup_handle (handles s) j = Some v"
  shows "detached (s\<lparr>handles := t\<rparr>) e"
proof -
  have "lookup_handle t j \<noteq> Some (own', e)" for j own'
  proof
    assume j: "lookup_handle t j = Some (own', e)"
    then have "j = k" using sub [OF j] safeD(4) [OF s] assms(2) unfolding handles_unique_def by blast
    with j assms(3) show False by simp
  qed
  then show ?thesis using safe_live [OF s assms(2)] safe_named [OF s assms(2)]
    by (simp add: detached_def unnamed_def claimed_def entry_live_cong [of "s\<lparr>handles := t\<rparr>" s])
qed

lemma safe_remove:
  assumes "safe s0 s" and "remove_of_kind (handles s) h k = (r, t)" and "k \<noteq> KIND_RUNTIME"
  shows "(\<forall>e. r \<noteq> Ok e) \<Longrightarrow> t = handles s"
    and "r = Ok e \<Longrightarrow> safe (holding e s0) (s\<lparr>handles := t\<rparr>) \<and> detached (s\<lparr>handles := t\<rparr>) e \<and> Entry_kind e = k"
proof -
  note d = safeD [OF assms(1)]
  have "((\<forall>e. r \<noteq> Ok e) \<longrightarrow> t = handles s) \<and> (\<forall>e. r = Ok e \<longrightarrow> safe (holding e s0) (s\<lparr>handles := t\<rparr>) \<and>
      detached (s\<lparr>handles := t\<rparr>) e \<and> Entry_kind e = k)"
  proof (cases "handle_kind h = k \<and> lookup_handle (handles s) h \<noteq> None")
    case False
    then have "lookup_handle (handles s) h = None \<or> handle_kind h \<noteq> k" by blast
    then obtain x where "remove_of_kind (handles s) h k = (Err x, handles s)"
      using remove_of_kind_rejected by blast
    then show ?thesis using assms(2) by simp
  next
    case True
    then obtain own e where l: "lookup_handle (handles s) h = Some (own, e)" by auto
    have k: "Entry_kind e = k" using validate_lookup(6) [OF l] True by simp
    have rt: "r = Ok e" "t = freed (handles s) (handle_index h)"
      using remove_of_kind_live [OF l] True assms(2) by auto
    have lt: "lookup_handle t = (lookup_handle (handles s))(h := None)"
      unfolding rt(2) by (rule ext) (simp add: lookup_freed_handle [OF l])
    have "table_ok t" unfolding table_ok_def rt(2)
      using wf_freed_handle [OF d(2) l] owners_live_freed [OF d(3) l] k assms(3) by simp
    moreover have "handles_unique t" using d(4) unfolding handles_unique_def lt by (auto split: if_splits)
    moreover have "kept (s\<lparr>handles := t\<rparr>) v (sruntime x)"
      if "servers s v = Some x" "handle_refs (sentry x) \<noteq> 0" "v \<notin> snd (holding e s0)" for v x
    proof (rule kept_handles [OF safe_kept [OF assms(1) that(1,2)]])
      show "v \<notin> snd s0" using that(3) by (cases e) simp_all
      fix j own' o'
      assume j: "lookup_handle (handles s) j = Some (own', Ephemeral v)" "lookup_handle (handles s) own' = Some (o', Runtime (sruntime x))"
      then have "j \<noteq> h" using l that(3) by auto
      moreover have "own' \<noteq> h" using j(2) l k assms(3) by auto
      ultimately show "lookup_handle t j = Some (own', Ephemeral v) \<and> lookup_handle t own' = Some (o', Runtime (sruntime x))"
        using j by (simp add: lt)
    qed
    ultimately have "safe (holding e s0) (s\<lparr>handles := t\<rparr>)"
      by (intro safe_handles [OF safe_holding [OF assms(1)]])
        (auto simp: lt split: if_splits dest: safe_live [OF assms(1)] safe_named [OF assms(1)])
    moreover have "detached (s\<lparr>handles := t\<rparr>) e"
      by (rule removed_detached [OF assms(1) l]) (auto simp: lt split: if_splits)
    ultimately show ?thesis using rt(1) k by simp
  qed
  then show "(\<forall>e. r \<noteq> Ok e) \<Longrightarrow> t = handles s"
    "r = Ok e \<Longrightarrow> safe (holding e s0) (s\<lparr>handles := t\<rparr>) \<and> detached (s\<lparr>handles := t\<rparr>) e \<and> Entry_kind e = k"
    by simp_all
qed

lemma with_entry_lookup: "with_entry t h f = Ok a \<Longrightarrow> \<exists>own e. lookup_handle t h = Some (own, e) \<and> f e = Ok a"
  by (cases "validate t h (handle_kind h)") (auto simp: with_entry_def lookup_handle_def split: option.splits)

lemma getters_lookup:
  "get_runtime t h = Ok a \<Longrightarrow> \<exists>own. lookup_handle t h = Some (own, Runtime a)"
  "get_client t h = Ok a \<Longrightarrow> \<exists>own. lookup_handle t h = Some (own, Client a)"
  "get_worker t h = Ok a \<Longrightarrow> \<exists>own. lookup_handle t h = Some (own, Worker a)"
  "get_ephemeral t h = Ok a \<Longrightarrow> \<exists>own. lookup_handle t h = Some (own, Ephemeral a)"
  "get_poller t h = Ok a \<Longrightarrow> \<exists>own. lookup_handle t h = Some (own, Poller a)"
  unfolding get_runtime_def get_client_def get_worker_def get_ephemeral_def get_poller_def
  by (drule with_entry_lookup, elim exE conjE, rename_tac own e, case_tac e, simp_all)+

section \<open>Small calls\<close>

text \<open>The state before an entry point: safe, with room for one more handle.\<close>

definition ready :: "Bridge \<times> arc set \<Rightarrow> Bridge \<Rightarrow> bool" where
  "ready s0 s \<longleftrightarrow> safe s0 s \<and> has_room (handles s)"

lemma readyD [dest]: "ready s0 s \<Longrightarrow> safe s0 s"
  by (simp add: ready_def)

abbreviation keeps :: "Bridge \<times> arc set \<Rightarrow> (Bridge \<Rightarrow> bool) \<Rightarrow> (Bridge, 'a) api_call \<Rightarrow> bool" where
  "keeps s0 P m \<equiv> triple P m (\<lambda>_. safe s0) (safe s0)"

lemma keeps_safe: "(\<And>s. P s \<Longrightarrow> safe s0 (snd (m s))) \<Longrightarrow> keeps s0 P m"
  unfolding triple_def by (auto split: prod.splits outcome.splits) (metis snd_conv)+

lemma keeps_snd: "keeps s0 P m \<Longrightarrow> P s \<Longrightarrow> safe s0 (snd (m s))"
  by (cases "m s") (auto dest: triple_use split: outcome.splits)

lemma keeps_if: "keeps s0 P m \<Longrightarrow> (\<And>s. P' s \<Longrightarrow> P s) \<Longrightarrow> keeps s0 P' m"
  by (erule triple_weaken) auto

lemma keeps_ready: "keeps s0 (safe s0) m \<Longrightarrow> keeps s0 (ready s0) m"
  by (erule triple_weaken) auto

lemma keeps_change: "(\<And>s. P s \<Longrightarrow> safe s0 (f s)) \<Longrightarrow> keeps s0 P (change f)"
  by (rule triple_change)

lemma keeps_copy_out: "(\<And>s. P s \<Longrightarrow> safe s0 s) \<Longrightarrow> keeps s0 P (copy_out b out cap n)"
  by (rule keeps_safe) (simp add: copy_out_def safe_mem split: prod.split)

lemma keeps_write:
  assumes "\<And>s. P s \<Longrightarrow> safe s0 s"
  shows "keeps s0 P (write_u64 p v)" and "keeps s0 P (write_u32 p w)"
  by (simp_all add: write_u64_def write_u32_def keeps_change safe_mem assms)

lemmas keeps_mem = keeps_copy_out keeps_write

lemma triple_deref [kt_wp]:
  assumes "\<And>s. P s \<Longrightarrow> E s"
  shows "triple P (deref objs a) (\<lambda>x s. P s \<and> objs s a = Some x) E"
  using assms by (simp add: deref_def ask_def triple_def split: option.splits)

lemma triple_the [kt_wp]:
  assumes "\<And>s. P s \<Longrightarrow> E s"
  shows "triple P (the_runtime h) (\<lambda>a s. P s \<and> (\<exists>own. lookup_handle (handles s) h = Some (own, Runtime a))) E"
    and "triple P (the_client h) (\<lambda>a s. P s \<and> (\<exists>own. lookup_handle (handles s) h = Some (own, Client a))) E"
    and "triple P (the_worker h) (\<lambda>a s. P s \<and> (\<exists>own. lookup_handle (handles s) h = Some (own, Worker a))) E"
    and "triple P (the_server h) (\<lambda>a s. P s \<and> (\<exists>own. lookup_handle (handles s) h = Some (own, Ephemeral a))) E"
    and "triple P (the_poller h) (\<lambda>a s. P s \<and> (\<exists>own. lookup_handle (handles s) h = Some (own, Poller a))) E"
  unfolding the_runtime_def the_client_def the_worker_def the_server_def the_poller_def
  by (rule triple_weaken [OF triple_ask]; use assms getters_lookup in blast)+

lemma triple_queries [kt_wp]:
  assumes "\<And>s. P s \<Longrightarrow> E s"
  shows "triple P (owned_by h r) (\<lambda>_. P) E" and "triple P (read_slice p n) (\<lambda>_. P) E"
    and "triple P (some_request q) (\<lambda>_. P) E"
  unfolding owned_by_def read_slice_def some_request_def
  by (rule triple_weaken [OF triple_ask] triple_weaken [OF triple_require]; use assms in blast)+

lemma triple_decoded [kt_wp]:
  assumes "\<And>s. P s \<Longrightarrow> E s"
  shows "triple P (decoded d p n) (\<lambda>_. P) E"
  unfolding decoded_def
  by (rule triple_then_do [OF triple_queries(2) triple_weaken [OF triple_give]]; use assms in blast)

lemma triple_core_behind [kt_wp]:
  assumes "\<And>s. P s \<Longrightarrow> E s"
  shows "triple P (core_behind w) (\<lambda>_ s. P s \<and> (\<exists>x. workers s w = Some x \<and> core_of (wentry x) = Ok ())) E"
  using assms by (simp add: core_behind_def deref_def triple_def call_defs split: option.splits outcome.splits)

section \<open>Requests\<close>

lemma spawn_request_frame:
  assumes "quiet s"
  shows "quiet (snd (spawn_request t r s))" and "dom (tasks (snd (spawn_request t r s))) = insert t (dom (tasks s))"
    and "rclosed (snd (spawn_request t r s)) = rclosed s"
  using assms by (auto simp: spawn_request_def register_def quiet_def Let_def)

lemma spawn_request_spawned:
  "tasks (snd (spawn_request t r s)) u = Some (q, Spawned) \<Longrightarrow>
     tasks s u = Some (q, Spawned) \<or> (u = t \<and> (\<exists>x. fst (spawn_request t r s) = Ok x))"
  by (auto simp: spawn_request_def register_def Let_def split: if_splits)

fun op_ready :: "Bridge \<Rightarrow> operation \<Rightarrow> bool" where
  "op_ready s (Validate w) = (\<exists>x. workers s w = Some x \<and> core_of (wentry x) = Ok ())"
| "op_ready s (Complete w k b) = (\<exists>x. workers s w = Some x \<and> core_of (wentry x) = Ok ())"
| "op_ready s (StopServer a) = (\<exists>x. servers s a = Some x \<and> handle_refs (sentry x) = 1)"
| "op_ready s _ = True"

lemma safe_ids:
  assumes "safe s0 s"
  shows "runtimes s a = Some x \<Longrightarrow> dom (tasks (requests x)) \<subseteq> {..<next_id s}"
    and "workers s a = Some w \<Longrightarrow> dom (shutdowns (wentry w)) \<subseteq> {..<next_id s}"
    and "servers s a = Some v \<Longrightarrow> dom (ecalls (sentry v)) \<subseteq> {..<next_id s}"
  using assms unfolding safe_def bridge_inv_in_def ids_fresh_def by blast+

lemma safe_quiet: "safe s0 s \<Longrightarrow> runtimes s a = Some x \<Longrightarrow> quiet (requests x)"
  unfolding safe_def bridge_inv_in_def objects_ok_def by blast

lemma fresh_key: "dom m \<subseteq> {..<n} \<Longrightarrow> m n = None" for m :: "nat \<rightharpoonup> 'a"
  by (auto simp: domIff subset_iff)

lemma dom_upd_below: "dom m \<subseteq> {..<n} \<Longrightarrow> t < n \<Longrightarrow> dom (m(t := x)) \<subseteq> {..<n}" for m :: "nat \<rightharpoonup> 'a"
  by (auto split: if_splits)

text \<open>Objects of a state with \<open>next_id = Suc t\<close> that were made before \<open>t\<close> was given out do not know \<open>t\<close>.\<close>

lemma safe_begin_op:
  assumes s: "safe s0 s" and "t < next_id s" and "op_ready s op"
    and w: "\<And>w x. workers s w = Some x \<Longrightarrow> shutdowns (wentry x) t = None"
    and v: "\<And>a x. servers s a = Some x \<Longrightarrow> ecalls (sentry x) t = None"
  shows "safe s0 (begin_op t op s)"
proof -
  have call: "safe s0 (update_worker w (\<lambda>e. e\<lparr>inflight := inflight e + 1\<rparr>) s)" if "workers s w = Some x" "core_of (wentry x) = Ok ()" for w x
    using that safe_ids(2) [OF s] worker_call [of "wentry x"]
    by (intro safe_update_worker [OF s]) (auto intro: r_into_rtranclp)
  have stop: "safe s0 (update_worker a (go t LockWait) s)" for a
    using safe_ids(2) [OF s] assms(2) w
    by (intro safe_update_worker [OF s])
      (auto simp: go_def dom_upd_below split: if_splits intro!: shutdown_called [unfolded go_def])
  have "safe s0 (update_server a (\<lambda>e. e\<lparr>ecalls := (ecalls e)(t \<mapsto> WaitLock)\<rparr>) s)" if "servers s a = Some x" "handle_refs (sentry x) = 1" for a x
    using that safe_ids(3) [OF s] assms(2) v
    by (intro safe_update_server [OF s]) (auto simp: dom_upd_below intro!: eph_shutdown_called)
  then show ?thesis using assms(3) s call stop by (cases op) (auto simp: begin_op_def)
qed

lemma fresh_numbers:
  assumes "safe s0 s"
  shows "workers s w = Some y \<Longrightarrow> shutdowns (wentry y) (next_id s) = None"
    and "servers s v = Some z \<Longrightarrow> ecalls (sentry z) (next_id s) = None"
  using safe_ids(2,3) [OF assms] by (blast intro: fresh_key)+

lemma put_runtime_other:
  "(put_runtime a x s)\<lparr>next_id := n\<rparr> = put_runtime a x (s\<lparr>next_id := n\<rparr>)"
  "(put_runtime a x s)\<lparr>ops := os\<rparr> = put_runtime a x (s\<lparr>ops := os\<rparr>)"
  by (simp_all add: put_runtime_def)

lemma safe_end_op: "safe s0 s \<Longrightarrow> safe s0 (end_op op s)"
proof -
  assume s: "safe s0 s"
  have "worker_step\<^sup>*\<^sup>* e (e\<lparr>inflight := inflight e - 1\<rparr>)" for e
  proof (cases "inflight e")
    case 0
    then have "e\<lparr>inflight := inflight e - 1\<rparr> = e" by (cases e) simp
    then show ?thesis by (simp only: rtranclp.rtrancl_refl)
  qed (use worker_call_done [of e] in auto)
  then have "safe s0 (update_worker w (\<lambda>e. e\<lparr>inflight := inflight e - 1\<rparr>) s)" for w
    using safe_ids(2) [OF s] by (intro safe_update_worker [OF s]) auto
  then show ?thesis using s by (cases op) (auto simp: end_op_def)
qed

lemma safe_drop_op: "safe s0 s \<Longrightarrow> safe s0 (drop_op t op s)"
proof -
  assume s: "safe s0 s"
  have "worker_step\<^sup>*\<^sup>* e (e\<lparr>shutdowns := (shutdowns e)(t := None)\<rparr>)" if "awaiting (shutdowns e t)" for e
  proof (cases "shutdowns e t")
    case None
    then show ?thesis by (simp add: fun_upd_idem)
  next
    case (Some pc)
    then show ?thesis using that by (intro r_into_rtranclp shutdown_cancelled) (auto simp: awaiting_def)
  qed
  then have w: "safe s0 (update_worker a (\<lambda>e. if awaiting (shutdowns e t)
        then e\<lparr>shutdowns := (shutdowns e)(t := None)\<rparr> else e) s)" for a
    using safe_ids(2) [OF s] by (intro safe_update_worker [OF s]) (fastforce split: if_splits)+
  have "eph_step\<^sup>*\<^sup>* e (e\<lparr>ecalls := (ecalls e)(t := None)\<rparr>)" for e
    using eph_cancelled [of e t] by (cases "ecalls e t") (auto simp: fun_upd_idem)
  then have "safe s0 (update_server a (\<lambda>e. e\<lparr>ecalls := (ecalls e)(t := None)\<rparr>) s)" for a
    using safe_ids(3) [OF s] by (intro safe_update_server [OF s] disjI1) (fastforce split: if_splits, simp)
  then show ?thesis using s w safe_end_op by (cases op) (auto simp: drop_op_def)
qed

lemma keeps_spawn_with:
  assumes pre: "\<And>s. P s \<Longrightarrow> safe s0 s"
    and accept: "\<And>s x e. P s \<Longrightarrow> runtimes s a = Some x \<Longrightarrow>
      safe s0 (put_runtime a (x\<lparr>requests := e\<rparr>) (s\<lparr>next_id := Suc (next_id s), ops := (ops s)(next_id s \<mapsto> (a, op))\<rparr>)) \<Longrightarrow>
      safe s0 (accept (next_id s) (put_runtime a (x\<lparr>requests := e\<rparr>) (s\<lparr>next_id := Suc (next_id s), ops := (ops s)(next_id s \<mapsto> (a, op))\<rparr>)))"
    and reject: "\<And>s. safe s0 s \<Longrightarrow> safe s0 (reject s)"
  shows "keeps s0 P (spawn_with accept reject a r op)"
  unfolding spawn_with_def
proof (rule triple_then_do [OF triple_deref], erule pre, rule keeps_safe)
  fix x :: RuntimeObject and s :: Bridge
  let ?t = "next_id s"
  let ?e = "snd (spawn_request ?t r (requests x))"
  let ?s = "put_runtime a (x\<lparr>requests := ?e\<rparr>) (s\<lparr>next_id := Suc ?t\<rparr>)"
  assume "P s \<and> runtimes s a = Some x"
  then have p: "P s" and s: "safe s0 s" and x: "runtimes s a = Some x" by (simp_all add: pre)
  note q = safe_quiet [OF s x]
  have path: "runtime_step\<^sup>*\<^sup>* (requests x) ?e"
    by (rule spawn_request_path) (use q fresh_key [OF safe_ids(1) [OF s x]] in \<open>simp_all add: quiet_def\<close>)
  have dom: "dom (tasks ?e) \<subseteq> {..<Suc ?t}"
    using spawn_request_frame(2) [OF q] safe_ids(1) [OF s x] by (auto intro: less_SucI)
  have failed: "safe s0 (reject ?s)" if "\<forall>u. fst (spawn_request ?t r (requests x)) \<noteq> Ok u"
    by (rule reject, rule safe_put_runtime [OF safe_next_id [OF s], where x = x])
      (use x path spawn_request_frame [OF q] dom spawn_request_spawned [of ?t r "requests x"] that in \<open>auto\<close>)
  let ?s1 = "s\<lparr>next_id := Suc ?t, ops := (ops s)(?t \<mapsto> (a, op))\<rparr>"
  have "safe s0 ?s1"
    using safe_new_op [OF safe_next_id [OF s], of ?t a op] fresh_numbers(1) [OF s] safe_new_id(6) [OF s] by simp
  then have "safe s0 (put_runtime a (x\<lparr>requests := ?e\<rparr>) ?s1)"
    by (rule safe_put_runtime [where x = x])
      (use x path spawn_request_frame [OF q] dom spawn_request_spawned [of ?t r "requests x"] in \<open>auto split: if_splits, blast\<close>)
  then have fin: "safe s0 (accept ?t (put_runtime a (x\<lparr>requests := ?e\<rparr>) ?s1))" by (rule accept [OF p x])
  then show "safe s0 (snd (let t = next_id s
      in case spawn_request t r (requests x) of
           (Ok _, e) \<Rightarrow> (Ok (), accept t ((put_runtime a (x\<lparr>requests := e\<rparr>) s)\<lparr>next_id := t + 1,
                ops := (ops s)(t \<mapsto> (a, op))\<rparr>))
         | (Err err, e) \<Rightarrow> (Err err, reject ((put_runtime a (x\<lparr>requests := e\<rparr>) s)\<lparr>next_id := t + 1\<rparr>))
         | (Panicked p, e) \<Rightarrow> (Panicked p, reject ((put_runtime a (x\<lparr>requests := e\<rparr>) s)\<lparr>next_id := t + 1\<rparr>))))"
    using failed fin
    by (cases "spawn_request ?t r (requests x)") (simp add: Let_def put_runtime_other split: outcome.splits)
qed

text \<open>The future starts with the number its task was given.\<close>

lemma safe_started_op:
  assumes s: "safe s0 s" and op: "op_ready s op"
    and s1: "safe s0 (put_runtime a y (s\<lparr>next_id := Suc (next_id s), ops := os\<rparr>))"
  shows "safe s0 (begin_op (next_id s) op (put_runtime a y (s\<lparr>next_id := Suc (next_id s), ops := os\<rparr>)))"
proof (rule safe_begin_op [OF s1])
  show "op_ready (put_runtime a y (s\<lparr>next_id := Suc (next_id s), ops := os\<rparr>)) op"
    using op by (cases op) (auto simp: put_runtime_def)
qed (use fresh_numbers [OF s] in \<open>auto simp: put_runtime_def\<close>)

lemma keeps_spawn: "keeps s0 (\<lambda>s. safe s0 s \<and> op_ready s op) (spawn a r op)"
  unfolding spawn_def by (rule keeps_spawn_with) (use safe_started_op in blast)+

lemma keeps_spawn_captured: "keeps s0 (safe s0) (spawn_with (\<lambda>t. run_captured t op) (end_op op) a r op)"
proof (rule keeps_spawn_with)
  fix s x e
  let ?s1 = "put_runtime a (x\<lparr>requests := e\<rparr>) (s\<lparr>next_id := Suc (next_id s), ops := (ops s)(next_id s \<mapsto> (a, op))\<rparr>)"
  assume s: "safe s0 s" and s1: "safe s0 ?s1"
  show "safe s0 (run_captured (next_id s) op ?s1)"
    using s1 safe_started_op [OF s _ s1] by (cases op) (simp_all add: run_captured_def)
qed (auto intro: safe_end_op)

lemma safe_admit_entered: "safe s0 s \<Longrightarrow> safe s0 (snd (admit_entered n s))"
  by (cases "entered s n")
    (auto simp: admit_entered_def intro: keeps_snd [OF keeps_spawn_captured] safe_entered)

lemma safe_capture_op: "safe s0 s \<Longrightarrow> op_ready s op \<Longrightarrow> safe s0 (capture_op op s)"
proof -
  assume s: "safe s0 s" and op: "op_ready s op"
  have "safe s0 (update_worker w (\<lambda>e. e\<lparr>inflight := inflight e + 1\<rparr>) s)"
    if "workers s w = Some x" "core_of (wentry x) = Ok ()" for w x
    using that safe_ids(2) [OF s] worker_call [of "wentry x"]
    by (intro safe_update_worker [OF s]) (auto intro: r_into_rtranclp)
  then show ?thesis using s op by (cases op) (auto simp: capture_op_def)
qed

section \<open>Objects that come and go\<close>

definition unheld :: "Bridge \<Rightarrow> Entry \<Rightarrow> bool" where
  "unheld s e \<longleftrightarrow> unnamed s e \<and> \<not> claimed s e \<and> (\<forall>a. e = Runtime a \<longrightarrow> frees s a = None)"

lemma detached_unheld: "detached s e \<longleftrightarrow> entry_live s e \<and> unheld s e"
  by (simp add: detached_def unheld_def)

lemma unheld_dead:
  assumes "safe s0 s" and "\<not> entry_live s e" and "\<And>a. e = Runtime a \<Longrightarrow> runtimes s a = None"
  shows "unheld s e"
proof -
  have "unnamed s e" unfolding unnamed_def using safe_live [OF assms(1)] assms(2) by blast
  moreover have "claims_ok s" "frees_ok s" using assms(1) by (simp_all add: safe_def bridge_inv_in_def)
  then have "\<not> claimed s e" "\<And>a. e = Runtime a \<Longrightarrow> frees s a = None"
    using assms(2,3) unfolding claims_ok_def frees_ok_def by (blast, metis not_None_eq)
  ultimately show ?thesis by (simp add: unheld_def)
qed

lemma unheld_new:
  assumes "safe s0 s"
  shows "unheld s (Runtime (next_id s))" "unheld s (Client (next_id s))" "unheld s (Worker (next_id s))"
    "unheld s (Ephemeral (next_id s))" "unheld s (Poller (next_id s))"
  using safe_new_id [OF assms] by (intro unheld_dead [OF assms]; simp add: domIff)+

lemma unheld_cong:
  "handles s' = handles s \<Longrightarrow> frees s' = frees s \<Longrightarrow> stopping s' = stopping s \<Longrightarrow> unheld s' e = unheld s e"
  by (simp add: unheld_def named_claimed_cong [of s' s])

lemma unheld_puts [simp]:
  "unheld (put_runtime a x s) e = unheld s e" "unheld (put_client a c s) e = unheld s e"
  "unheld (put_worker a w s) e = unheld s e" "unheld (put_server a v s) e = unheld s e"
  "unheld (put_poller a p s) e = unheld s e" "unheld (s\<lparr>next_id := n\<rparr>) e = unheld s e"
  by (rule unheld_cong; simp add: put_defs)+

lemma new_runtime_object:
  assumes "ready s0 s" and "requests x = RuntimeEntry_new" and "metrics x = None \<or> metrics x = Some (BridgeMeter_default, [])"
  defines "s' \<equiv> put_runtime (next_id s) x (s\<lparr>next_id := Suc (next_id s)\<rparr>)"
  shows "ready s0 s' \<and> detached s' (Runtime (next_id s))"
proof -
  have s: "safe s0 s" using assms(1) by auto
  have "safe s0 s'" unfolding s'_def
    by (rule safe_new_runtime [OF safe_next_id [OF s]]) (use assms(2,3) safe_new_id [OF s] in simp_all)
  then show ?thesis using assms(1,2) unheld_new(1) [OF s]
    by (simp add: ready_def detached_unheld s'_def) (simp add: put_runtime_def RuntimeEntry_new_def)
qed

lemma new_client_object:
  fixes c :: string
  assumes "ready s0 s"
  defines "s' \<equiv> put_client (next_id s) c (s\<lparr>next_id := Suc (next_id s)\<rparr>)"
  shows "ready s0 s' \<and> detached s' (Client (next_id s))"
proof -
  have s: "safe s0 s" using assms(1) by auto
  have "safe s0 s'" unfolding s'_def by (rule safe_put_client [OF safe_next_id [OF s]]) simp
  then show ?thesis using assms(1) unheld_new(2) [OF s]
    by (simp add: ready_def detached_unheld s'_def) (simp add: put_client_def)
qed

lemma new_poller_object:
  assumes "ready s0 s" and "po_runtime p \<in> dom (runtimes s)"
  defines "s' \<equiv> put_poller (next_id s) p (s\<lparr>next_id := Suc (next_id s)\<rparr>)"
  shows "ready s0 s' \<and> detached s' (Poller (next_id s))"
proof -
  have s: "safe s0 s" using assms(1) by auto
  have "safe s0 s'" unfolding s'_def by (rule safe_put_poller [OF safe_next_id [OF s]]) (use assms(2) in simp_all)
  then show ?thesis using assms(1) unheld_new(5) [OF s]
    by (simp add: ready_def detached_unheld s'_def) (simp add: put_poller_def)
qed

lemma new_worker_object:
  assumes "ready s0 s" and "wentry w = WorkerEntry_new" and "wruntime w \<in> dom (runtimes s)"
  defines "s' \<equiv> put_worker (next_id s) w (s\<lparr>next_id := Suc (next_id s)\<rparr>)"
  shows "ready s0 s' \<and> detached s' (Worker (next_id s))"
proof -
  have s: "safe s0 s" using assms(1) by auto
  have "safe s0 s'" unfolding s'_def
    by (rule safe_new_worker [OF safe_next_id [OF s]]) (use assms(2,3) safe_new_id [OF s] in simp_all)
  then show ?thesis using assms(1) unheld_new(3) [OF s]
    by (simp add: ready_def detached_unheld s'_def) (simp add: put_worker_def)
qed

lemma new_server_object:
  assumes "ready s0 s" and "sentry v = EphemeralEntry_new"
  defines "s' \<equiv> put_server (next_id s) v (s\<lparr>next_id := Suc (next_id s)\<rparr>)"
  shows "ready (holding (Ephemeral (next_id s)) s0) s' \<and> detached s' (Ephemeral (next_id s))"
proof -
  have s: "safe s0 s" using assms(1) by auto
  have "safe (holding (Ephemeral (next_id s)) s0) s'" unfolding s'_def
    by (rule safe_new_server [OF safe_next_id [OF s]]) (use assms(2) safe_new_id [OF s] in simp_all)
  then show ?thesis using assms(1,2) unheld_new(4) [OF s]
    by (simp add: ready_def detached_unheld s'_def) (simp add: put_server_def EphemeralEntry_new_def)
qed

text \<open>The drop of a reference, the close of an entry, and both in a row.\<close>

lemma update_frame [simp]:
  "handles (update_worker a f s) = handles s" "handles (update_server a g s) = handles s"
  "runtimes (update_worker a f s) = runtimes s" "runtimes (update_server a g s) = runtimes s"
  "next_id (update_worker a f s) = next_id s" "next_id (update_server a g s) = next_id s"
  "servers (update_worker a f s) = servers s" "b \<noteq> a \<Longrightarrow> servers (update_server a g s) b = servers s b"
  "ops (update_worker a f s) = ops s" "ops (update_server a g s) = ops s"
  by (simp_all add: update_worker_def update_server_def put_defs split: option.split)

lemma close_frame [simp]:
  "handles (Entry_close e s) = handles s" "runtimes (Entry_close e s) = runtimes s"
  "handles (drop_entry e s) = handles s" "runtimes (drop_entry e s) = runtimes s"
  "ops (drop_entry e s) = ops s" "ops (Entry_close e s) = ops s"
  by (cases e; simp)+

lemma close_servers: "e \<noteq> Ephemeral b \<Longrightarrow> servers (drop_entry e (Entry_close e s)) b = servers s b"
  by (cases e) simp_all

lemma update_unheld [simp]: "unheld (update_worker a f s) e = unheld s e" "unheld (update_server a g s) e = unheld s e"
  by (simp_all add: update_worker_def update_server_def split: option.split)

lemma safe_drop_entry:
  assumes "safe (holding e s0) s" and "detached s e"
  shows "safe s0 (drop_entry e s)"
proof (rule safe_let_go [of e])
  show "safe (holding e s0) (drop_entry e s)"
  proof (cases e)
    case (Ephemeral a)
    then have r: "servers s a = Some x \<Longrightarrow> handle_refs (sentry x) = 1" for x using assms(2) by (auto simp: detached_def)
    have "eph_step\<^sup>*\<^sup>* (sentry x) (sentry x\<lparr>handle_refs := handle_refs (sentry x) - 1\<rparr>)" if "servers s a = Some x" for x
      using eph_handle_dropped [of "sentry x"] r [OF that] by auto
    moreover have "unnamed s (Ephemeral a) \<and> \<not> claimed s (Ephemeral a)"
      using assms(2) Ephemeral by (simp add: detached_def)
    ultimately have "safe (holding e s0) (update_server a (\<lambda>e. e\<lparr>handle_refs := handle_refs e - 1\<rparr>) s)"
      using safe_ids(3) [OF assms(1)] by (intro safe_update_server [OF assms(1)] disjI2) (simp_all add: Ephemeral)
    then show ?thesis by (simp add: Ephemeral)
  qed (use assms in simp_all)
  show "handle_refs (sentry x) = 0 \<or> kept (drop_entry e s) v (sruntime x)"
    if "e = Ephemeral v" "servers (drop_entry e s) v = Some x" for v x
    using assms(2) that by (auto simp: detached_def update_server_def put_server_def split: option.splits)
qed

lemma safe_Entry_close:
  assumes "safe s0 s" and "detached s e"
  shows "safe s0 (Entry_close e s)" and "detached (Entry_close e s) e"
proof -
  have "safe s0 (Entry_close e s) \<and> detached (Entry_close e s) e"
  proof (cases e)
    case (Worker w)
    have "worker_step\<^sup>*\<^sup>* x (worker_free x)" for x using worker_freed by (rule r_into_rtranclp)
    then have "safe s0 (update_worker w worker_free s)"
      using safe_ids(2) [OF assms(1)] by (intro safe_update_worker [OF assms(1)]) (simp_all add: worker_free_def)
    moreover have "detached (update_worker w worker_free s) (Worker w)"
      using assms(2) Worker by (simp add: detached_unheld) (auto simp: update_worker_def put_worker_def split: option.split)
    ultimately show ?thesis by (simp add: Worker)
  next
    case (Ephemeral a)
    let ?s = "s\<lparr>next_id := Suc (next_id s)\<rparr>"
    let ?f = "\<lambda>e. e\<lparr>ecalls := (ecalls e)(next_id s \<mapsto> WaitLock)\<rparr>"
    obtain x where x: "servers s a = Some x" "handle_refs (sentry x) = 1" using assms(2) Ephemeral by (auto simp: detached_def)
    have i: "dom (ecalls (sentry x)) \<subseteq> {..<next_id s}" using safe_ids(3) [OF assms(1) x(1)] .
    have "eph_step (sentry x) (?f (sentry x))" by (rule eph_shutdown_called) (use x(2) fresh_key [OF i] in simp_all)
    then have "safe s0 (update_server a ?f ?s)"
      by (intro safe_update_server [OF safe_next_id [OF assms(1)]]) (use x(1) i in \<open>auto intro: less_SucI\<close>)
    moreover have "detached (update_server a ?f ?s) (Ephemeral a)"
      using assms(2) Ephemeral x by (simp add: detached_unheld) (simp add: update_server_def put_server_def)
    ultimately show ?thesis by (simp add: Ephemeral)
  qed (use assms in simp_all)
  then show "safe s0 (Entry_close e s)" "detached (Entry_close e s) e" by simp_all
qed

lemma safe_close: "safe (holding e s0) s \<Longrightarrow> detached s e \<Longrightarrow> safe s0 (drop_entry e (Entry_close e s))"
  by (intro safe_drop_entry safe_Entry_close)

lemma safe_drop_pending:
  assumes "safe s0 s"
  shows "safe s0 (drop_pending p s)"
proof -
  have rel: "safe s0 (case remove_of_kind (handles s) h k of (Ok e, t) \<Rightarrow> drop_entry e (s\<lparr>handles := t\<rparr>) | (_, t) \<Rightarrow> s\<lparr>handles := t\<rparr>)"
    if "k \<noteq> KIND_RUNTIME" for h k
    using safe_remove [OF assms _ that, of h] assms by (auto split: prod.split outcome.split intro: safe_drop_entry)
  have "safe s0 (s\<lparr>handles := handles s\<rparr>)" using assms by simp
  with rel [of KIND_CLIENT "aux0 p"] rel [of KIND_EPHEMERAL "aux0 p"] show ?thesis
    by (auto simp: drop_pending_def Pending_drop_def Let_def kind_defs split: KtKind.split prod.splits outcome.splits)
qed

lemma safe_drop_pendings: "safe s0 s \<Longrightarrow> safe s0 (fold drop_pending ps s)"
  by (induction ps arbitrary: s) (simp_all add: safe_drop_pending)

text \<open>Where an entry may be inserted: a server only under the handle of the runtime it was started on.\<close>

definition owner_ok :: "u64 \<Rightarrow> Entry \<Rightarrow> Bridge \<Rightarrow> bool" where
  "owner_ok h e s \<longleftrightarrow> (\<forall>v x. e = Ephemeral v \<longrightarrow> servers s v = Some x \<longrightarrow>
     (\<forall>a. get_runtime (handles s) h = Ok a \<longrightarrow> a = sruntime x))"

lemma keeps_insert:
  assumes "Entry_kind e \<noteq> KIND_EPHEMERAL"
  shows "keeps s0 (\<lambda>s. ready s0 s \<and> detached s e) (insert_handle e)"
proof (rule keeps_safe)
  fix s
  assume "ready s0 s \<and> detached s e"
  then show "safe s0 (snd (insert_handle e s))"
    using safe_insert(1) [of e s0 s 0] assms safe_holding [of s0 s e]
    by (cases e) (auto simp: insert_handle_def insert_entry_def ready_def split: prod.split)
qed

lemma lookup_getters:
  "lookup_handle t h = Some (own, Ephemeral a) \<Longrightarrow> get_ephemeral t h = Ok a"
  "lookup_handle t h = Some (own, Runtime a) \<Longrightarrow> get_runtime t h = Ok a"
  by (simp_all add: get_ephemeral_def get_runtime_def with_entry_def validate_lookup)

lemma keeps_insert_owned:
  assumes "Entry_kind e \<noteq> KIND_RUNTIME"
  shows "keeps s0 (\<lambda>s. ready (holding e s0) s \<and> detached s e \<and> owner_ok h e s) (insert_owned_handle h e)"
proof (rule keeps_safe)
  fix s
  assume a: "ready (holding e s0) s \<and> detached s e \<and> owner_ok h e s"
  then have s: "safe (holding e s0) s" by auto
  show "safe s0 (snd (insert_owned_handle h e s))"
  proof (cases "validate (handles s) h KIND_RUNTIME")
    case (Ok i)
    then obtain own r where l: "lookup_handle (handles s) h = Some (own, Runtime r)" by (rule validate_runtime_lookup)
    then have l0: "lookup_handle (handles s) h = Some (0, Runtime r)" using owners_live_runtime [OF safeD(3) [OF s] l] by simp
    have "lookup_handle (handles s) h = Some (0, Runtime (sruntime x))" if "e = Ephemeral v" "servers s v = Some x" for v x
      using l0 a that lookup_getters(2) [OF l0] by (auto simp: owner_ok_def)
    with a assms Ok l0 show ?thesis using safe_insert(1) [of e s0 s h]
      by (auto simp: insert_owned_handle_def insert_owned_def ready_def split: prod.split)
  next
    case (Err x)
    then show ?thesis using a s safe_close [OF s] by (simp add: insert_owned_handle_def insert_owned_def)
  qed simp
qed

section \<open>The entry points\<close>

lemma triple_alloc:
  "(\<And>s. P s \<Longrightarrow> Q (next_id s) (put (next_id s) x (s\<lparr>next_id := Suc (next_id s)\<rparr>))) \<Longrightarrow> triple P (alloc put x) Q E"
  by (simp add: triple_def alloc_def)

lemma triple_alloc_runtime [kt_wp]:
  assumes "\<And>s. P s \<Longrightarrow> ready s0 s \<and> requests x = RuntimeEntry_new \<and>
    (metrics x = None \<or> metrics x = Some (BridgeMeter_default, []))"
  shows "triple P (alloc put_runtime x) (\<lambda>a s. ready s0 s \<and> detached s (Runtime a)) E"
  by (rule triple_alloc) (use assms new_runtime_object in blast)

lemma triple_alloc_client [kt_wp]:
  assumes "\<And>s. P s \<Longrightarrow> ready s0 s"
  shows "triple P (alloc put_client c) (\<lambda>a s. ready s0 s \<and> detached s (Client a)) E"
  by (rule triple_alloc) (use assms new_client_object in blast)

lemma triple_alloc_worker [kt_wp]:
  assumes "\<And>s. P s \<Longrightarrow> ready s0 s \<and> wentry w = WorkerEntry_new \<and> wruntime w \<in> dom (runtimes s)"
  shows "triple P (alloc put_worker w) (\<lambda>a s. ready s0 s \<and> detached s (Worker a)) E"
  by (rule triple_alloc) (use assms new_worker_object in blast)

lemma triple_alloc_server [kt_wp]:
  assumes "\<And>s. P s \<Longrightarrow> ready s0 s \<and> sentry v = EphemeralEntry_new"
  shows "triple P (alloc put_server v) (\<lambda>a s. ready (holding (Ephemeral a) s0) s \<and> detached s (Ephemeral a) \<and>
    servers s a = Some v) E"
proof (rule triple_alloc)
  fix s
  assume "P s"
  then have "ready s0 s" "sentry v = EphemeralEntry_new" using assms by auto
  from new_server_object [OF this]
  show "ready (holding (Ephemeral (next_id s)) s0) (put_server (next_id s) v (s\<lparr>next_id := Suc (next_id s)\<rparr>)) \<and>
    detached (put_server (next_id s) v (s\<lparr>next_id := Suc (next_id s)\<rparr>)) (Ephemeral (next_id s)) \<and>
    servers (put_server (next_id s) v (s\<lparr>next_id := Suc (next_id s)\<rparr>)) (next_id s) = Some v"
    by (simp add: put_server_def)
qed

lemma triple_alloc_poller [kt_wp]:
  assumes "\<And>s. P s \<Longrightarrow> ready s0 s \<and> po_runtime p \<in> dom (runtimes s)"
  shows "triple P (alloc put_poller p) (\<lambda>a s. ready s0 s \<and> detached s (Poller a)) E"
  by (rule triple_alloc) (use assms new_poller_object in blast)

lemma keeps_spawn_if [kt_wp]: "(\<And>s. P s \<Longrightarrow> safe s0 s \<and> op_ready s op) \<Longrightarrow> keeps s0 P (spawn a r op)"
  by (rule triple_weaken [OF keeps_spawn]) auto

lemma keeps_insert_if [kt_wp]:
  "(\<And>s. P s \<Longrightarrow> ready s0 s \<and> detached s e) \<Longrightarrow> Entry_kind e \<noteq> KIND_EPHEMERAL \<Longrightarrow> keeps s0 P (insert_handle e)"
  by (rule triple_weaken [OF keeps_insert]) auto

lemma keeps_insert_owned_if [kt_wp]:
  "(\<And>s. P s \<Longrightarrow> ready (holding e s0) s \<and> detached s e \<and> owner_ok h e s) \<Longrightarrow> Entry_kind e \<noteq> KIND_RUNTIME \<Longrightarrow>
   keeps s0 P (insert_owned_handle h e)"
  by (rule triple_weaken [OF keeps_insert_owned]) auto

lemma live_server:
  "safe s0 s \<Longrightarrow> lookup_handle (handles s) h = Some (own, Ephemeral a) \<Longrightarrow>
   \<exists>x. servers s a = Some x \<and> handle_refs (sentry x) = 1"
  by (drule (1) safe_live) simp

lemma live_runtime:
  "safe s0 s \<Longrightarrow> lookup_handle (handles s) h = Some (own, Runtime a) \<Longrightarrow> a \<in> dom (runtimes s)"
  by (drule (1) safe_live) auto

lemma new_runtime_Ok:
  "new_runtime b c cfg = Ok x \<Longrightarrow> requests x = RuntimeEntry_new \<and>
     (metrics x = None \<or> metrics x = Some (BridgeMeter_default, []))"
  by (auto simp: new_runtime_def and_then_Ok_iff)

lemmas live_facts = live_server live_runtime new_runtime_Ok

lemma keeps_give: "(\<And>s. P s \<Longrightarrow> safe s0 s) \<Longrightarrow> keeps s0 P (give r)"
  by (rule keeps_safe) (simp add: give_def)

lemmas keeps_end = keeps_mem keeps_give

text \<open>The checks of a request change nothing and end with a future that may start.\<close>

lemma triple_checked: "(\<And>s. P s \<Longrightarrow> Q x s) \<Longrightarrow> triple P (give (Ok x)) Q E"
  by (simp add: triple_def give_def)

abbreviation checks :: "Bridge \<times> arc set \<Rightarrow> (Bridge, arc \<times> u64 \<times> operation) api_call \<Rightarrow> bool" where
  "checks s0 m \<equiv> triple (safe s0) m (\<lambda>c s. safe s0 s \<and> op_ready s (snd (snd c))) (safe s0)"

lemma keeps_admit:
  assumes "checks s0 m"
  shows "keeps s0 (ready s0) (then_do m admit)"
proof -
  have "keeps s0 (\<lambda>s. safe s0 s \<and> op_ready s (snd (snd c))) (admit c)" for c
    using keeps_spawn by (cases c) (simp add: admit_def)
  with assms show ?thesis by (intro keeps_ready triple_then_do)
qed

lemma checks_client_connect: "checks s0 (client_connect_args env h cfg n r)"
  unfolding client_connect_args_def by (rule triple_checked kt_wp | fastforce)+

lemma checks_client_rpc: "checks s0 (client_rpc_args env h c sv np nl rp rl m r)"
  unfolding client_rpc_args_def by (rule triple_checked kt_wp | fastforce)+

lemma checks_worker_validate: "checks s0 (worker_validate_args h w r)"
  unfolding worker_validate_args_def by (rule triple_checked kt_wp | fastforce)+

lemma checks_worker_complete: "checks s0 (worker_complete_args h w k b n r)"
  unfolding worker_complete_args_def by (rule triple_checked kt_wp | fastforce)+

lemma checks_worker_shutdown: "checks s0 (worker_shutdown_args h w g r)"
  unfolding worker_shutdown_args_def by (rule triple_checked kt_wp | fastforce)+

lemma checks_ephemeral_start: "checks s0 (ephemeral_start_args env h cfg n r)"
  unfolding ephemeral_start_args_def by (rule triple_checked kt_wp | fastforce)+

lemma checks_request: "checks s0 (request_args env c)"
  by (cases c)
    (simp_all add: checks_client_connect checks_client_rpc checks_worker_validate checks_worker_complete
       checks_worker_shutdown checks_ephemeral_start, simp_all add: triple_def give_def)

lemma enter_safe:
  assumes "safe s0 s" and "request_args env c s = (Ok x, s')"
  shows "safe s0 (enter n x s')"
  using triple_use [OF checks_request assms] by (simp add: enter_def safe_entered safe_capture_op)

lemma keeps_runtime_new: "keeps s0 (ready s0) (kt_runtime_new env cfg n out)"
  unfolding kt_runtime_new_def
  by (rule kt_wp keeps_end | fastforce simp: kind_defs owner_ok_def dest: live_facts)+

lemma keeps_runtime_info: "keeps s0 (ready s0) (kt_runtime_info env h out cap n)"
  unfolding kt_runtime_info_def by (rule kt_wp keeps_end | fastforce simp: kind_defs owner_ok_def dest: live_facts)+

lemma keeps_client_connect: "keeps s0 (ready s0) (kt_client_connect env h cfg n r)"
  unfolding kt_client_connect_def by (rule keeps_admit [OF checks_client_connect])

lemma keeps_client_rpc: "keeps s0 (ready s0) (kt_client_rpc env h c sv np nl rp rl m r)"
  unfolding kt_client_rpc_def by (rule keeps_admit [OF checks_client_rpc])

lemma keeps_worker_new: "keeps s0 (ready s0) (kt_worker_new env h c cfg n out)"
  unfolding kt_worker_new_def
  by (rule kt_wp keeps_end | fastforce simp: kind_defs owner_ok_def dest: live_facts)+

lemma keeps_worker_validate: "keeps s0 (ready s0) (kt_worker_validate h w r)"
  unfolding kt_worker_validate_def by (rule keeps_admit [OF checks_worker_validate])

lemma keeps_worker_complete: "keeps s0 (ready s0) (kt_worker_complete h w k b n r)"
  unfolding kt_worker_complete_def by (rule keeps_admit [OF checks_worker_complete])

lemma keeps_worker_heartbeat: "keeps s0 (ready s0) (kt_worker_heartbeat env w b n)"
  unfolding kt_worker_heartbeat_def by (rule kt_wp keeps_end | fastforce simp: kind_defs owner_ok_def dest: live_facts)+

lemma keeps_worker_shutdown: "keeps s0 (ready s0) (kt_worker_shutdown h w g r)"
  unfolding kt_worker_shutdown_def by (rule keeps_admit [OF checks_worker_shutdown])

lemma keeps_ephemeral_start: "keeps s0 (ready s0) (kt_ephemeral_start env h cfg n r)"
  unfolding kt_ephemeral_start_def by (rule keeps_admit [OF checks_ephemeral_start])

lemma keeps_ephemeral_info: "keeps s0 (ready s0) (kt_ephemeral_info env v out cap n)"
  unfolding kt_ephemeral_info_def by (rule kt_wp keeps_end | fastforce simp: kind_defs owner_ok_def dest: live_facts)+

lemma keeps_ephemeral_shutdown: "keeps s0 (ready s0) (kt_ephemeral_shutdown h v r)"
  unfolding kt_ephemeral_shutdown_def by (rule kt_wp keeps_end | fastforce simp: kind_defs owner_ok_def dest: live_facts)+

lemma keeps_poller_new: "keeps s0 (ready s0) (kt_poller_new h fl out)"
  unfolding kt_poller_new_def by (rule kt_wp keeps_end | fastforce simp: kind_defs owner_ok_def dest: live_facts)+

text \<open>Changes of a request table that leave its tasks as they are.\<close>

lemma safe_same_tasks:
  assumes "safe s0 s" and "runtimes s a = Some x" and "runtime_step\<^sup>*\<^sup>* (requests x) e"
    and "tasks e = tasks (requests x)" "draining e = draining (requests x)" "rclosed e = rclosed (requests x)"
  shows "safe s0 (put_runtime a (x\<lparr>requests := e\<rparr>) s)"
  by (rule safe_put_runtime [OF assms(1,2)])
    (use assms(3-) safe_quiet [OF assms(1,2)] safe_ids(1) [OF assms(1,2)] in \<open>simp_all add: quiet_def\<close>)

lemma cancel_frame [simp]:
  "tasks (cancel e r) = tasks e" "draining (cancel e r) = draining e" "rclosed (cancel e r) = rclosed e"
  by (simp_all add: cancel_def split: option.split)

lemma keeps_cancel: "keeps s0 (ready s0) (kt_cancel h r)"
proof -
  have st: "safe s0 (put_runtime a (x\<lparr>requests := cancel (requests x) r\<rparr>) s)" if "safe s0 s" "runtimes s a = Some x" for a x s
    using safe_quiet [OF that]
    by (intro safe_same_tasks [OF that] r_into_rtranclp) (auto simp: quiet_def intro: step_cancel)
  show ?thesis unfolding kt_cancel_def by (rule kt_wp keeps_change | fastforce intro: st)+
qed

lemma keeps_poller_wake: "keeps s0 (ready s0) (kt_poller_wake h)"
proof -
  have st: "safe s0 (put_runtime a (x\<lparr>requests := (requests x)\<lparr>rqueue := PollerEntry_wake (rqueue (requests x))\<rparr>\<rparr>) s)"
    if "safe s0 s" "runtimes s a = Some x" for a x s
    by (intro safe_same_tasks [OF that] r_into_rtranclp step_wake) simp_all
  show ?thesis unfolding kt_poller_wake_def by (rule kt_wp keeps_change | fastforce intro: st)+
qed

text \<open>A batch only takes the meter along a path of its own.\<close>

lemma drain_meter_path: "drain_meter (Some m) = (r, m') \<Longrightarrow> \<exists>m2. m' = Some m2 \<and> meter_step\<^sup>*\<^sup>* m m2"
  by (cases m) (auto simp: drain_meter_def split: prod.splits outcome.splits intro: meter_drain)

lemma safe_metrics:
  assumes "safe s0 s" and "runtimes s a = Some x" and "requests y = requests x"
    and "metrics y = metrics x \<or> (\<exists>m m'. metrics x = Some m \<and> metrics y = Some m' \<and> meter_step\<^sup>*\<^sup>* m m')"
  shows "safe s0 (put_runtime a y s)"
  by (rule safe_put_runtime [OF assms(1,2)])
    (use assms(3-) safe_quiet [OF assms(1,2)] safe_ids(1) [OF assms(1,2)] in simp_all)

lemma drain_metrics_frame:
  assumes "drain_metrics j logs x = (r, y)"
  shows "requests y = requests x"
    and "metrics y = metrics x \<or> (\<exists>m m'. metrics x = Some m \<and> metrics y = Some m' \<and> meter_step\<^sup>*\<^sup>* m m')"
proof -
  obtain r' m' where m: "drain_meter (metrics x) = (r', m')" by (cases "drain_meter (metrics x)")
  then show "requests y = requests x" using assms by (auto simp: drain_metrics_def)
  have "metrics y = m'" using assms m by (auto simp: drain_metrics_def)
  then show "metrics y = metrics x \<or> (\<exists>m m'. metrics x = Some m \<and> metrics y = Some m' \<and> meter_step\<^sup>*\<^sup>* m m')"
    using m drain_meter_path by (cases "metrics x") (simp add: drain_meter_def, metis)
qed

lemma keeps_pending_batch: "keeps s0 (\<lambda>s. safe s0 s \<and> runtimes s a = Some x) (pending_batch env a x)"
proof (rule keeps_safe)
  fix s
  assume s: "safe s0 s \<and> runtimes s a = Some x"
  obtain r y where d: "drain_metrics (env_to_json env) (env_logs env) x = (r, y)"
    by (cases "drain_metrics (env_to_json env) (env_logs env) x")
  note f = drain_metrics_frame [OF d]
  have "safe s0 (put_runtime a (y\<lparr>metric_batch := b\<rparr>) s)" "safe s0 (put_runtime a y s)" for b
    using s f by (auto intro: safe_metrics)
  then show "safe s0 (snd (pending_batch env a x s))"
    using s d by (simp add: pending_batch_def Let_def split: option.split outcome.split)
qed

lemma keeps_retrieve_metrics: "keeps s0 (ready s0) (kt_runtime_retrieve_metrics env h out cap n)"
proof -
  have 1: "safe s0 (put_runtime a (x\<lparr>metric_batch := None\<rparr>) s)" if "safe s0 s" "runtimes s a = Some x" for a x s
    by (rule safe_metrics [OF that]) simp_all
  have 2: "keeps s0 P (pending_batch env a x)" if "\<And>s. P s \<Longrightarrow> safe s0 s \<and> runtimes s a = Some x" for P a x
    by (rule triple_weaken [OF keeps_pending_batch]) (use that in auto)
  show ?thesis unfolding kt_runtime_retrieve_metrics_def
    by (rule kt_wp keeps_end keeps_change 2 | fastforce intro: 1)+
qed

lemma triple_remove:
  assumes "k \<noteq> KIND_RUNTIME"
  shows "triple (safe s0) (remove_handle h k) (\<lambda>e s. safe (holding e s0) s \<and> detached s e \<and> Entry_kind e = k) (safe s0)"
  unfolding triple_def remove_handle_def
proof (intro allI impI)
  fix s
  assume s: "safe s0 s"
  obtain r t where r: "remove_of_kind (handles s) h k = (r, t)" by (cases "remove_of_kind (handles s) h k")
  from safe_remove [OF s r assms] r s
  show "case (case remove_of_kind (handles s) h k of (r, t) \<Rightarrow> (r, s\<lparr>handles := t\<rparr>)) of
      (Ok e, s') \<Rightarrow> safe (holding e s0) s' \<and> detached s' e \<and> Entry_kind e = k | (_, s') \<Rightarrow> safe s0 s'"
    by (simp split: outcome.split)
qed

lemma keeps_client_free: "keeps s0 (ready s0) (kt_client_free h)"
  unfolding kt_client_free_def
  by (intro keeps_ready triple_then_do [OF triple_remove] keeps_change) (simp_all add: kind_defs safe_drop_entry)

lemma keeps_poller_free: "keeps s0 (ready s0) (kt_poller_free h)"
  unfolding kt_poller_free_def
  by (intro keeps_ready triple_then_do [OF triple_remove] keeps_change) (simp_all add: kind_defs safe_drop_entry)

lemma keeps_worker_free: "keeps s0 (ready s0) (kt_worker_free h)"
proof -
  have "safe s0 ((case e of Worker w \<Rightarrow> update_worker w worker_free | _ \<Rightarrow> id) s)"
    if "safe (holding e s0) s" "detached s e" "Entry_kind e = KIND_WORKER" for e s
    using safe_Entry_close(1) [of s0 s e] that by (cases e) (simp_all add: kind_defs)
  then show ?thesis unfolding kt_worker_free_def
    by (intro keeps_ready triple_then_do [OF triple_remove] keeps_change) (simp_all add: kind_defs)
qed

lemma start_shutdowns: "start e = (r, e') \<Longrightarrow> shutdowns e' = shutdowns e"
  by (auto simp: start_def split: WorkerState.splits bool.splits)

lemma keeps_worker_start: "keeps s0 (ready s0) (kt_worker_start h w)"
proof -
  have st: "safe s0 (put_worker a (x\<lparr>wentry := e, whandle := n\<rparr>) s)"
    if "safe s0 s" "workers s a = Some x" "start (wentry x) = (r, e)" for a x s r e n
    by (rule safe_put_worker [OF that(1,2)])
      (use that(3) safe_ids(2) [OF that(1,2)] start_shutdowns [OF that(3)] worker_start [OF that(3)] in simp_all)
  have "keeps s0 (\<lambda>s. safe s0 s \<and> workers s a = Some x) (\<lambda>s. case start (wentry x) of (r, e) \<Rightarrow>
     (r, put_worker a (x\<lparr>wentry := e, whandle := n\<rparr>) s))" for a x n
    by (rule keeps_safe) (auto split: prod.split intro: st)
  note keeps_started = keeps_if [OF this]
  show ?thesis unfolding kt_worker_start_def by (rule kt_wp keeps_started | fastforce)+
qed

lemma keeps_worker_initiate_shutdown: "keeps s0 (ready s0) (kt_worker_initiate_shutdown w)"
proof -
  have "worker_step\<^sup>*\<^sup>* e (if core_of e = Ok () then e\<lparr>initiated := True\<rparr> else e)" for e
    using worker_initiate [of e] by auto
  then have st: "safe s0 (update_worker a (\<lambda>e. if core_of e = Ok () then e\<lparr>initiated := True\<rparr> else e) s)" if "safe s0 s" for a s
    using safe_ids(2) [OF that] by (intro safe_update_worker [OF that]) (simp_all split: if_splits)
  show ?thesis unfolding kt_worker_initiate_shutdown_def
    by (rule kt_wp keeps_change | fastforce intro: st)+
qed

lemma keeps_worker_update_resource: "keeps s0 (ready s0) (kt_worker_update_resource w m out)"
proof -
  have st: "safe s0 (put_worker a (x\<lparr>wresources := g\<rparr>) s)" if "safe s0 s" "workers s a = Some x" for a x s g
    by (rule safe_put_worker [OF that]) (use safe_ids(2) [OF that] in simp_all)
  show ?thesis unfolding kt_worker_update_resource_def
    by (rule kt_wp keeps_change | fastforce intro: st safe_mem)+
qed

lemma safe_poller_id: "safe s0 s \<Longrightarrow> pollers s p = Some po \<Longrightarrow> p < next_id s \<and> po_runtime po \<in> dom (runtimes s)"
  unfolding safe_def bridge_inv_in_def ids_fresh_def objects_ok_def by (metis leI option.distinct(1))

lemma keeps_poll_batch:
  assumes q: "runtime_step\<^sup>*\<^sup>* (requests x) ((requests x)\<lparr>rqueue := q\<rparr>)"
  shows "keeps s0 (\<lambda>s. safe s0 s \<and> pollers s p = Some po \<and> runtimes s (po_runtime po) = Some x)
     (poll_batch env p po x q out cap)"
proof (rule keeps_safe)
  fix s
  assume "safe s0 s \<and> pollers s p = Some po \<and> runtimes s (po_runtime po) = Some x"
  then have s: "safe s0 s" and po: "pollers s p = Some po" and x: "runtimes s (po_runtime po) = Some x" by simp_all
  obtain ps b q' where d: "poll_drain q cap = ((ps, b), q')" by (cases "poll_drain q cap") auto
  let ?e = "(requests x)\<lparr>rqueue := q', polled := polled (requests x) @ ps\<rparr>"
  let ?s1 = "put_runtime (po_runtime po) (x\<lparr>requests := ?e\<rparr>) s"
  have "runtime_step ((requests x)\<lparr>rqueue := q\<rparr>) ?e"
    using step_poll [of "(requests x)\<lparr>rqueue := q\<rparr>"] d by simp
  with q have s1: "safe s0 ?s1" by (intro safe_same_tasks [OF s x]) auto
  have "safe s0 (put_poller p (po\<lparr>po_buf := buf, po_in_poll := None\<rparr>) ?s1)" for buf
    by (intro safe_put_poller [OF s1]) (use x safe_poller_id [OF s po] in \<open>auto simp: put_runtime_def\<close>)
  then show "safe s0 (snd (poll_batch env p po x q out cap s))"
    using d by (auto simp: poll_batch_def Let_def split: prod.split outcome.split intro: safe_mem)
qed

lemma keeps_poll_finish: "(\<And>s. P s \<Longrightarrow> safe s0 s) \<Longrightarrow> keeps s0 P (poll_finish env timed_out p c)"
proof -
  have "runtime_step\<^sup>*\<^sup>* (requests x) ((requests x)\<lparr>rqueue :=
      (if timed_out then rqueue (requests x) else snd (poll_check (rqueue (requests x)) (pa_timeout c)))\<rparr>)" for x
    using step_poll_check [OF prod.collapse [symmetric], of "requests x" "pa_timeout c"] by simp blast
  note batch = keeps_if [OF keeps_poll_batch [OF this]]
  assume P: "\<And>s. P s \<Longrightarrow> safe s0 s"
  show ?thesis unfolding poll_finish_def Let_def by (rule kt_wp batch | fastforce dest: P)+
qed

lemma keeps_poll_start: "(\<And>s. P s \<Longrightarrow> safe s0 s) \<Longrightarrow> triple P (poll_start p c) (\<lambda>_. safe s0) (safe s0)"
proof -
  assume P: "\<And>s. P s \<Longrightarrow> safe s0 s"
  have "safe s0 (put_poller p (po\<lparr>po_in_poll := Some c\<rparr>) s)" if "safe s0 s" "pollers s p = Some po" for s po
    by (rule safe_put_poller [OF that(1)]) (use safe_poller_id [OF that] in simp_all)
  then show ?thesis unfolding poll_start_def triple_def
    by (auto simp: deref_def call_defs P split: option.splits sum.splits outcome.splits prod.splits)
qed

lemma keeps_poll: "(\<And>s. P s \<Longrightarrow> safe s0 s) \<Longrightarrow> keeps s0 P (poll env p c)"
  unfolding poll_def
  by (rule triple_then_do [OF keeps_poll_start]) (auto intro: keeps_give keeps_poll_finish split: option.split)

lemma keeps_poller_poll: "keeps s0 (ready s0) (kt_poller_poll env p out cap timeout n)"
  unfolding kt_poller_poll_def
  by (rule kt_wp keeps_end keeps_poll | fastforce)+

lemma poller_poll_end_safe: "safe s0 s \<Longrightarrow> safe s0 (snd (poller_poll_end env timed_out p c s))"
proof -
  assume s: "safe s0 s"
  have "keeps s0 (safe s0) (poller_poll_end env timed_out p c)"
    unfolding poller_poll_end_def by (rule kt_wp keeps_end keeps_poll_finish | fastforce)+
  then show ?thesis using s by (cases "poller_poll_end env timed_out p c s") (auto dest: triple_use split: outcome.splits)
qed

lemma poller_poll_begin_safe:
  assumes s: "safe s0 s" and "poller_poll_begin h c s = (r, s')"
  shows "safe s0 s'"
proof -
  have "triple (safe s0) (poller_poll_begin h c) (\<lambda>_. safe s0) (safe s0)"
    unfolding poller_poll_begin_def
    by (rule kt_wp keeps_poll_start keeps_give | fastforce)+
  from triple_use [OF this assms] show ?thesis by (simp split: outcome.splits)
qed

end
