(* ===== verification/Kt_SystemFree.thy ===== *)
theory Kt_SystemFree
  imports Kt_SystemSafe
begin

text \<open>
  The calls that block, \<^verbatim>\<open>kt_runtime_free\<close> and \<^verbatim>\<open>kt_ephemeral_free\<close>, keep the bridge safe at each of their steps,
  whatever happens between them: the entries they took out of the table stay theirs until they close
  them.
\<close>

section \<open>Freeing servers and runtimes\<close>

text \<open>A thread that runs the shutdown of a server to its end, alone, takes the steps of one call.\<close>

lemma eph_shutdown_now_path:
  assumes "ecalls e t = None" and "0 < handle_refs e" and "\<forall>u. ecalls e u \<noteq> Some InShutdown"
    and "\<not> panics r"
  shows "eph_step\<^sup>*\<^sup>* e (eph_shutdown_now r e)"
proof (cases "has_server e")
  case True
  let ?a = "e\<lparr>ecalls := (ecalls e)(t \<mapsto> WaitLock)\<rparr>"
  let ?b = "e\<lparr>ecalls := (ecalls e)(t \<mapsto> InShutdown)\<rparr>"
  have "eph_step e ?a" by (rule eph_shutdown_called) fact+
  moreover have "eph_step ?a ?b"
    using eph_own [OF eph_locked [of ?a t]] assms(3) True by simp
  moreover have "(ecalls e)(t := None) = ecalls e" using assms(1) by (simp add: fun_upd_idem)
  then have "eph_step ?b (eph_shutdown_now r e)"
    using eph_own [OF eph_shutdown_done [of ?b t, OF _ assms(4)]] True by (simp add: eph_shutdown_now_def)
  ultimately show ?thesis by (meson r_into_rtranclp rtranclp_trans)
qed (simp add: eph_shutdown_now_def)

definition idle :: "Bridge \<Rightarrow> Entry \<Rightarrow> bool" where
  "idle s e \<longleftrightarrow> (\<forall>a. e = Ephemeral a \<longrightarrow> server_idle s a)"

lemma server_shutdown_ok:
  assumes s: "safe s0 s" and d: "detached s (Ephemeral a)" and "idle s (Ephemeral a)"
    and r: "server_shutdown env a s = (r, s')"
  shows "safe s0 s' \<and> detached s' (Ephemeral a)" and "frees s' = frees s"
proof -
  obtain x where x: "servers s a = Some x" "handle_refs (sentry x) = 1" using d by (auto simp: detached_def)
  let ?s = "\<lambda>q. update_server a (eph_shutdown_now q) s"
  note i = safe_ids(3) [OF s x(1)]
  have frame: "ecalls (eph_shutdown_now q e) = ecalls e" "handle_refs (eph_shutdown_now q e) = handle_refs e" for q e
    by (simp_all add: eph_shutdown_now_def)
  have "safe s0 (?s q)" if "\<not> panics q" for q
  proof -
    have "eph_step\<^sup>*\<^sup>* (sentry x) (eph_shutdown_now q (sentry x))"
      using x assms(3) fresh_key [OF i] that by (intro eph_shutdown_now_path) (auto simp: idle_def server_idle_def)
    then show ?thesis by (intro safe_update_server [OF s]) (use x i frame in auto)
  qed
  moreover have "detached (?s q) (Ephemeral a)" for q
    using d x frame by (simp add: detached_unheld) (auto simp: update_server_def put_server_def)
  moreover have s': "(\<exists>q. s' = ?s q \<and> \<not> panics q) \<or> s' = s"
    using r x by (force simp: server_shutdown_def deref_def call_defs split: if_splits outcome.splits)
  ultimately show "safe s0 s' \<and> detached s' (Ephemeral a)" using s d by auto
  show "frees s' = frees s" using s' by (auto simp: update_server_def put_server_def split: option.split)
qed

text \<open>The claims of the blocked calls change hands.\<close>

lemma safe_tighten:
  assumes "safe (b, L') s"
    and "\<And>v x. servers s v = Some x \<Longrightarrow> handle_refs (sentry x) \<noteq> 0 \<Longrightarrow> v \<notin> L \<Longrightarrow> kept s v (sruntime x)"
  shows "safe (b, L) s"
  using assms unfolding safe_def bridge_inv_in_def no_leak_def by auto

lemma safe_claims:
  assumes "safe s0 s" and "claims_unique fs vs"
    and cl: "\<And>e. claimed (s\<lparr>frees := fs, stopping := vs\<rparr>) e \<Longrightarrow> entry_live s e \<and> unnamed s e \<and> Entry_kind e \<noteq> KIND_RUNTIME"
    and fr: "\<And>a pc. fs a = Some pc \<Longrightarrow> unnamed s (Runtime a) \<and> (\<exists>x. runtimes s a = Some x \<and> free_state pc (requests x))"
    and kp: "\<And>v x. servers s v = Some x \<Longrightarrow> handle_refs (sentry x) \<noteq> 0 \<Longrightarrow> v \<notin> snd s0 \<Longrightarrow>
      kept (s\<lparr>frees := fs, stopping := vs\<rparr>) v (sruntime x)"
  shows "safe s0 (s\<lparr>frees := fs, stopping := vs\<rparr>)"
proof (rule safeI [OF assms(1)])
  let ?s = "s\<lparr>frees := fs, stopping := vs\<rparr>"
  assume inv: "bridge_inv_in (snd s0) s"
  note d = bridge_invD [OF inv] and live = entry_live_cong [of ?s s, simplified]
  have un: "unnamed ?s = unnamed s" by (simp add: unnamed_def fun_eq_iff)
  have "claims_ok ?s" using cl unfolding claims_ok_def live un by blast
  moreover have "frees_ok ?s" using fr unfolding frees_ok_def un by simp
  moreover have "no_leak (snd s0) ?s" using kp unfolding no_leak_def by auto
  ultimately show "bridge_inv_in (snd s0) ?s"
    using d assms(2) by (simp add: bridge_inv_in_def handles_resolve_def live ids_fresh_def objects_ok_def ops_ok_def)
qed (simp add: evo_def)

lemma safe_frees:
  assumes "safe s0 s" and "claims_unique fs (stopping s)"
    and "\<And>e. claimed (s\<lparr>frees := fs\<rparr>) e \<Longrightarrow> entry_live s e \<and> unnamed s e \<and> Entry_kind e \<noteq> KIND_RUNTIME"
    and "\<And>a pc. fs a = Some pc \<Longrightarrow> unnamed s (Runtime a) \<and> (\<exists>x. runtimes s a = Some x \<and> free_state pc (requests x))"
    and "\<And>v x. servers s v = Some x \<Longrightarrow> handle_refs (sentry x) \<noteq> 0 \<Longrightarrow> v \<notin> snd s0 \<Longrightarrow>
      kept (s\<lparr>frees := fs\<rparr>) v (sruntime x)"
  shows "safe s0 (s\<lparr>frees := fs\<rparr>)"
  using safe_claims [of s0 s fs "stopping s"] assms by simp

lemma safe_claimed:
  assumes "safe s0 s" and "claimed s e"
  shows "entry_live s e" "unnamed s e" "Entry_kind e \<noteq> KIND_RUNTIME"
  using assms unfolding safe_def bridge_inv_in_def claims_ok_def by blast+

lemma safe_freed:
  assumes "safe s0 s" and "frees s a = Some pc"
  shows "unnamed s (Runtime a)" "\<exists>x. runtimes s a = Some x \<and> free_state pc (requests x)"
  using assms unfolding safe_def bridge_inv_in_def frees_ok_def by blast+

lemma claimed_mono:
  assumes "claimed s' e" and "stopping s' \<subseteq> stopping s"
    and "\<And>b p. frees s' b = Some p \<Longrightarrow> e \<in> set (claims_of p) \<Longrightarrow> \<exists>b' q. frees s b' = Some q \<and> e \<in> set (claims_of q)"
  shows "claimed s e"
  using assms unfolding claimed_def by blast

text \<open>A call that keeps its claims but moves on, or one that is done.\<close>

lemma kept_mono:
  assumes "kept s v b" and "handles s' = handles s"
    and "v \<in> stopping s \<Longrightarrow> v \<in> stopping s'"
    and "\<And>pc. frees s b = Some pc \<Longrightarrow> Ephemeral v \<in> set (claims_of pc) \<Longrightarrow>
      \<exists>pc'. frees s' b = Some pc' \<and> Ephemeral v \<in> set (claims_of pc')"
  shows "kept s' v b"
  using assms unfolding kept_def by fastforce

lemma safe_set_free:
  assumes s: "safe s0 s" and old: "case frees s a of None \<Rightarrow> unnamed s (Runtime a) \<and> cs = [] | Some pc' \<Rightarrow> cs = claims_of pc'"
    and new: "case pc of None \<Rightarrow> cs = [] | Some pc' \<Rightarrow> claims_of pc' = cs \<and>
      (\<exists>x. runtimes s a = Some x \<and> free_state pc' (requests x))"
  shows "safe s0 (set_free a pc s)"
  unfolding set_free_def
proof (rule safe_frees [OF s])
  have claims: "\<exists>b' q. frees s b' = Some q \<and> e \<in> set (claims_of q)"
    if "((frees s)(a := pc)) b = Some p" "e \<in> set (claims_of p)" for b p e
    using that old new by (cases "b = a") (auto split: option.splits)
  show "claims_unique ((frees s)(a := pc)) (stopping s)"
    using safeD(5) [OF s] old new unfolding claims_unique_def
    by (auto split: option.splits if_splits)
  fix e
  assume "claimed (s\<lparr>frees := (frees s)(a := pc)\<rparr>) e"
  then have "claimed s e" by (rule claimed_mono) (use claims in simp_all)
  then show "entry_live s e \<and> unnamed s e \<and> Entry_kind e \<noteq> KIND_RUNTIME" using safe_claimed [OF s] by blast
next
  fix b p
  assume "((frees s)(a := pc)) b = Some p"
  then show "unnamed s (Runtime b) \<and> (\<exists>x. runtimes s b = Some x \<and> free_state p (requests x))"
    using old new safe_freed [OF s] by (cases "b = a") (auto split: option.splits)
next
  fix v x
  assume "servers s v = Some x" "handle_refs (sentry x) \<noteq> 0" "v \<notin> snd s0"
  from safe_kept [OF s this] show "kept (s\<lparr>frees := (frees s)(a := pc)\<rparr>) v (sruntime x)"
    by (rule kept_mono) (use old new in \<open>auto split: option.splits\<close>)
qed

text \<open>A blocked call takes the next entry it claims into its hands.\<close>

text \<open>What a call takes next from its list is claimed by nobody else.\<close>

lemma popped_unclaimed:
  assumes s: "safe s0 s" and f: "frees s a = Some (Closing (c # cs) err)"
  shows "\<not> claimed (set_free a (Some (Closing cs err)) s) c"
proof
  note u = safeD(5) [OF s, unfolded claims_unique_def]
  assume "claimed (set_free a (Some (Closing cs err)) s) c"
  then consider b p where "((frees s)(a \<mapsto> Closing cs err)) b = Some p" "c \<in> set (claims_of p)" | v where "v \<in> stopping s" "c = Ephemeral v"
    unfolding claimed_def set_free_def by auto
  then show False
  proof cases
    case (1 b p)
    have "distinct (claims_of (Closing (c # cs) err))" using u f by blast
    with 1 show False using u f by (cases "b = a") (auto split: if_splits)
  next
    case 2
    then show False using u f by fastforce
  qed
qed

lemma safe_pop_child:
  assumes s: "safe s0 s" and f: "frees s a = Some (Closing (c # cs) err)"
  defines "s1 \<equiv> set_free a (Some (Closing cs err)) s"
  shows "safe (holding c s0) s1" and "detached s1 c"
proof -
  note u = safeD(5) [OF s, unfolded claims_unique_def]
  have c: "claimed s c" using f unfolding claimed_def by force
  have kind: "Entry_kind c \<noteq> KIND_RUNTIME" and live: "entry_live s c" and un: "unnamed s c" using safe_claimed [OF s c] by simp_all
  have claims: "\<exists>b' q. frees s b' = Some q \<and> e \<in> set (claims_of q)"
    if "((frees s)(a \<mapsto> Closing cs err)) b = Some p" "e \<in> set (claims_of p)" for b p e
  proof (cases "b = a")
    case True
    then have "e \<in> set (claims_of (Closing (c # cs) err))" using that by auto
    with f show ?thesis by blast
  qed (use that in auto)
  show "safe (holding c s0) s1"
    unfolding s1_def set_free_def
  proof (rule safe_frees [OF safe_holding [OF s]])
    show "claims_unique ((frees s)(a \<mapsto> Closing cs err)) (stopping s)"
      using u f unfolding claims_unique_def by (auto split: if_splits) fastforce+
    fix e
    assume "claimed (s\<lparr>frees := (frees s)(a \<mapsto> Closing cs err)\<rparr>) e"
    then have "claimed s e" by (rule claimed_mono) (use claims in simp_all)
    then show "entry_live s e \<and> unnamed s e \<and> Entry_kind e \<noteq> KIND_RUNTIME" using safe_claimed [OF s] by blast
  next
    fix b p
    assume "((frees s)(a \<mapsto> Closing cs err)) b = Some p"
    then show "unnamed s (Runtime b) \<and> (\<exists>x. runtimes s b = Some x \<and> free_state p (requests x))"
      using f safe_freed [OF s] by (cases "b = a") fastforce+
  next
    fix v x
    assume v: "servers s v = Some x" "handle_refs (sentry x) \<noteq> 0" "v \<notin> snd (holding c s0)"
    then have "v \<notin> snd s0" "c \<noteq> Ephemeral v" by (cases c; simp)+
    with safe_kept [OF s v(1,2)] have "kept s v (sruntime x)" by blast
    then show "kept (s\<lparr>frees := (frees s)(a \<mapsto> Closing cs err)\<rparr>) v (sruntime x)"
      by (rule kept_mono) (use f \<open>c \<noteq> Ephemeral v\<close> in auto)
  qed
  have "\<not> claimed s1 c" unfolding s1_def by (rule popped_unclaimed [OF s f])
  then show "detached s1 c"
    using live un kind by (cases c) (auto simp: detached_def unnamed_def s1_def set_free_def)
qed

lemma safe_pop_stopping:
  assumes s: "safe s0 s" and v: "v \<in> stopping s"
  defines "s1 \<equiv> s\<lparr>stopping := stopping s - {v}\<rparr>"
  shows "safe (holding (Ephemeral v) s0) s1" and "detached s1 (Ephemeral v)"
proof -
  note u = safeD(5) [OF s, unfolded claims_unique_def]
  have c: "claimed s (Ephemeral v)" using v unfolding claimed_def by blast
  have claims: "claimed s1 e \<Longrightarrow> claimed s e" for e unfolding claimed_def s1_def by auto
  have kept1: "kept s1 w b" if "kept s w b" "w \<noteq> v" for w b
    using that by (elim kept_mono) (auto simp: s1_def)
  have "safe (holding (Ephemeral v) s0) (s\<lparr>frees := frees s, stopping := stopping s - {v}\<rparr>)"
  proof (rule safe_claims [OF safe_holding [OF s]])
    show "claims_unique (frees s) (stopping s - {v})" using u unfolding claims_unique_def by simp
    show "entry_live s e \<and> unnamed s e \<and> Entry_kind e \<noteq> KIND_RUNTIME"
      if "claimed (s\<lparr>frees := frees s, stopping := stopping s - {v}\<rparr>) e" for e
      using safe_claimed [OF s claims] that by (simp add: s1_def)
    show "unnamed s (Runtime a) \<and> (\<exists>x. runtimes s a = Some x \<and> free_state pc (requests x))" if "frees s a = Some pc" for a pc
      using safe_freed [OF s that] by blast
    show "kept (s\<lparr>frees := frees s, stopping := stopping s - {v}\<rparr>) w (sruntime x)"
      if "servers s w = Some x" "handle_refs (sentry x) \<noteq> 0" "w \<notin> snd (holding (Ephemeral v) s0)" for w x
      using kept1 safe_kept [OF s that(1,2)] that(3) by (simp add: s1_def)
  qed
  then show "safe (holding (Ephemeral v) s0) s1" by (simp add: s1_def)
  have "\<not> claimed s1 (Ephemeral v)" using u v unfolding claimed_def s1_def by auto
  then show "detached s1 (Ephemeral v)"
    using safe_claimed [OF s c] by (simp add: detached_def unnamed_def s1_def)
qed

lemma set_free_frame [simp]:
  "servers (set_free a pc s) = servers s" "runtimes (set_free a pc s) = runtimes s" "handles (set_free a pc s) = handles s"
  "workers (set_free a pc s) = workers s" "ops (set_free a pc s) = ops s" "stopping (set_free a pc s) = stopping s"
  "frees (set_free a pc s) = (frees s)(a := pc)" "next_id (set_free a pc s) = next_id s"
  by (simp_all add: set_free_def)

lemma shutdown_child_ok:
  assumes "safe s0 s" and "detached s c" and "idle s c" and "shutdown_child env c s = (r, s')"
  shows "safe s0 s'" and "detached s' c" and "frees s' = frees s"
proof -
  have "safe s0 s' \<and> detached s' c \<and> frees s' = frees s"
  proof (cases c)
    case (Ephemeral v)
    then show ?thesis using assms server_shutdown_ok [OF assms(1), of v env r s'] by simp
  qed (use assms in \<open>simp_all add: give_def\<close>)
  then show "safe s0 s'" "detached s' c" "frees s' = frees s" by simp_all
qed

lemma free_child_safe:
  assumes s: "safe s0 s" and f: "frees s a = Some (Closing (c # cs) err)"
    and i: "\<And>v. c = Ephemeral v \<Longrightarrow> server_idle s v" and r: "free_child env a c cs err s = (Ok (), s')"
  shows "safe s0 s'"
proof -
  let ?s1 = "set_free a (Some (Closing cs err)) s"
  note p = safe_pop_child [OF s f]
  have "idle ?s1 c" using i by (simp add: idle_def server_idle_def)
  moreover obtain m s2 where 2: "shutdown_child env c ?s1 = (Ok m, s2)"
    and s': "s' = drop_entry c (Entry_close c (set_free a (Some (Closing cs (get_or_insert err m))) s2))"
    using r by (auto simp: free_child_def call_defs split: prod.splits outcome.splits)
  ultimately have ok: "safe (holding c s0) s2" "detached s2 c" "frees s2 a = Some (Closing cs err)"
    using shutdown_child_ok [OF p] by simp_all
  let ?s3 = "set_free a (Some (Closing cs (get_or_insert err m))) s2"
  have "safe (holding c s0) ?s3"
    by (rule safe_set_free [OF ok(1)]) (use ok(3) safe_freed [OF ok(1,3)] in auto)
  moreover have "detached ?s3 c"
  proof -
    have "claimed s2 c" if "claimed ?s3 c" using that
    proof (rule claimed_mono)
      fix b p
      assume "frees ?s3 b = Some p" "c \<in> set (claims_of p)"
      then show "\<exists>b' q. frees s2 b' = Some q \<and> c \<in> set (claims_of q)"
        using ok(3) by (cases "b = a") (auto intro: exI [of _ a])
    qed simp
    moreover have "Entry_kind c \<noteq> KIND_RUNTIME" using f safe_claimed(3) [OF s, of c] unfolding claimed_def by force
    ultimately show ?thesis
      using ok(2) entry_live_cong [of ?s3 s2 c] by (auto simp: detached_def unnamed_def set_free_def)
  qed
  ultimately show ?thesis unfolding s' by (rule safe_close)
qed

lemma server_free_end_safe:
  assumes s: "safe s0 s" and v: "v \<in> stopping s" and i: "server_idle s v"
    and r: "server_free_end env v s = (r, s')" and np: "\<not> panics r"
  shows "safe s0 s'"
proof -
  let ?s1 = "s\<lparr>stopping := stopping s - {v}\<rparr>"
  note p = safe_pop_stopping [OF s v]
  have "idle ?s1 (Ephemeral v)" using i by (simp add: idle_def server_idle_def)
  moreover obtain m s2 where 2: "server_shutdown env v ?s1 = (Ok m, s2)" and s': "s' = drop_entry (Ephemeral v) s2"
  proof -
    obtain q s2 where q: "server_shutdown env v ?s1 = (q, s2)" by (cases "server_shutdown env v ?s1")
    moreover have "\<not> (\<exists>e. q = Err e)"
      using q by (auto simp: server_shutdown_def deref_def call_defs split: option.splits if_splits outcome.splits)
    ultimately show ?thesis using r np that by (cases q) (auto simp: server_free_end_def call_defs)
  qed
  ultimately show ?thesis unfolding s' using server_shutdown_ok [OF p] safe_drop_entry by blast
qed

text \<open>The entries a runtime owns: each is known under a handle of its own, so they are distinct.\<close>

definition slot_entry :: "Table \<Rightarrow> nat \<Rightarrow> Entry" where
  "slot_entry t i = the (entry (slots t ! i))"

definition slot_handle :: "Table \<Rightarrow> nat \<Rightarrow> u64" where
  "slot_handle t i = make_handle (Entry_kind (slot_entry t i)) (generation (slots t ! i)) (of_nat i)"

lemma owned_entry:
  assumes "wf_table t" and "h \<noteq> 0" and "i \<in> set (owned_slots t h)"
  shows "lookup_handle t (slot_handle t i) = Some (h, slot_entry t i)" and "handle_index (slot_handle t i) = i"
proof -
  have e: "i < length (slots t)" "entry (slots t ! i) = Some (slot_entry t i)"
    using owned_slots_live [OF assms] by (auto simp: slot_entry_def)
  show "lookup_handle t (slot_handle t i) = Some (h, slot_entry t i)"
    using lookup_slot_handle [OF assms(1) e] assms(3) by (simp add: owned_slots_def slot_handle_def)
  have "i < 2 ^ 32" using e(1) assms(1) by (simp add: wf_table_def)
  then show "handle_index (slot_handle t i) = i" by (simp add: slot_handle_def)
qed

lemma owned_entries_distinct:
  assumes "wf_table t" and "handles_unique t" and "h \<noteq> 0"
  shows "distinct (map (slot_entry t) (owned_slots t h))"
proof -
  have "inj_on (slot_entry t) (set (owned_slots t h))"
  proof (rule inj_onI)
    fix i j
    assume i: "i \<in> set (owned_slots t h)" "j \<in> set (owned_slots t h)" "slot_entry t i = slot_entry t j"
    then have "slot_handle t i = slot_handle t j"
      using assms(2) owned_entry(1) [OF assms(1,3)] unfolding handles_unique_def by metis
    then show "i = j" using owned_entry(2) [OF assms(1,3)] i(1,2) by metis
  qed
  then show ?thesis by (simp add: distinct_map owned_slots_def)
qed

lemma remove_runtime_live:
  assumes s: "safe s0 s" and l: "lookup_handle (handles s) h = Some (own, Runtime a)"
  defines "t \<equiv> freed_all (handles s) (handle_index h # owned_slots (handles s) h)"
    and "cs \<equiv> map (slot_entry (handles s)) (owned_slots (handles s) h)"
  shows "remove_runtime (handles s) h = (Ok (a, cs), t)"
    and "lookup_handle t k = (if k = h \<or> (\<exists>e. lookup_handle (handles s) k = Some (h, e)) then None
      else lookup_handle (handles s) k)"
    and "table_ok t" and "handles_unique t" and "distinct cs"
    and "c \<in> set cs \<longleftrightarrow> (\<exists>k. lookup_handle (handles s) k = Some (h, c))"
proof -
  note d = safeD [OF s] and h = validate_lookup(7) [OF l]
  show "remove_runtime (handles s) h = (Ok (a, cs), t)"
    unfolding t_def cs_def slot_entry_def [abs_def] by (rule remove_runtime_eq [OF d(2,3) l])
  show lt: "lookup_handle t k = (if k = h \<or> (\<exists>e. lookup_handle (handles s) k = Some (h, e)) then None
      else lookup_handle (handles s) k)" for k
    unfolding t_def by (rule remove_runtime_lookup [OF d(2) l])
  show "table_ok t" unfolding table_ok_def t_def
    using remove_runtime_wf [OF d(2,3) l] owners_live_closed [OF d(2,3) l] by simp
  show "handles_unique t" using d(4) lt unfolding handles_unique_def by (metis option.distinct(1))
  show "distinct cs" unfolding cs_def by (rule owned_entries_distinct [OF d(2,4) h])
  show "c \<in> set cs \<longleftrightarrow> (\<exists>k. lookup_handle (handles s) k = Some (h, c))"
  proof
    assume "c \<in> set cs"
    then show "\<exists>k. lookup_handle (handles s) k = Some (h, c)" unfolding cs_def using owned_entry(1) [OF d(2) h] by auto
  next
    assume "\<exists>k. lookup_handle (handles s) k = Some (h, c)"
    then obtain k where k: "lookup_handle (handles s) k = Some (h, c)" ..
    have "handle_index k \<in> set (owned_slots (handles s) h)" using owned_slots_lookup [OF d(2) h, of k] k by blast
    moreover have "slot_entry (handles s) (handle_index k) = c" using validate_lookup(3) [OF k] by (simp add: slot_entry_def)
    ultimately show "c \<in> set cs" unfolding cs_def by (metis imageI set_map)
  qed
qed

text \<open>
  The runtime and its children leave the table and are claimed at once. \<open>closed_table\<close>: the table \<open>t\<close> is that of
  \<open>s\<close> without the handle \<open>h\<close> and those it owns, which were the handles of \<open>cs\<close>.
\<close>

definition closed_table :: "Bridge \<Rightarrow> u64 \<Rightarrow> Entry list \<Rightarrow> Table \<Rightarrow> bool" where
  "closed_table s h cs t \<longleftrightarrow> table_ok t \<and> handles_unique t \<and> distinct cs \<and>
     (\<forall>k. lookup_handle t k = (if k = h \<or> (\<exists>e. lookup_handle (handles s) k = Some (h, e)) then None
        else lookup_handle (handles s) k)) \<and>
     (\<forall>c. c \<in> set cs \<longleftrightarrow> (\<exists>k. lookup_handle (handles s) k = Some (h, c)))"

lemma closed_tableD:
  assumes "closed_table s h cs t"
  shows "table_ok t" "handles_unique t" "distinct cs"
    and "lookup_handle t k = (if k = h \<or> (\<exists>e. lookup_handle (handles s) k = Some (h, e)) then None
      else lookup_handle (handles s) k)"
    and "c \<in> set cs \<longleftrightarrow> (\<exists>k. lookup_handle (handles s) k = Some (h, c))"
    and "lookup_handle t k = Some v \<Longrightarrow> lookup_handle (handles s) k = Some v"
  using assms by (auto simp: closed_table_def split: if_splits)

lemma free_begin_closes:
  assumes s: "safe s0 s" and r: "free_begin h s = (Ok (a, cs), s')"
  obtains t own where "s' = set_free a (Some (Closing cs None)) (s\<lparr>handles := t\<rparr>)" and "closed_table s h cs t"
    and "lookup_handle (handles s) h = Some (own, Runtime a)"
proof -
  obtain t where t: "remove_runtime (handles s) h = (Ok (a, cs), t)" "s' = set_free a (Some (Closing cs None)) (s\<lparr>handles := t\<rparr>)"
    using r by (auto simp: free_begin_def remove_runtime_handles_def call_defs split: prod.splits outcome.splits)
  obtain own b where l: "lookup_handle (handles s) h = Some (own, Runtime b)"
  proof (cases "validate (handles s) h KIND_RUNTIME")
    case (Ok i)
    then show ?thesis using that by (rule validate_runtime_lookup)
  qed (use t(1) in \<open>auto simp: remove_runtime_def\<close>)
  note rm = remove_runtime_live [OF s l]
  have eqs: "b = a" "cs = map (slot_entry (handles s)) (owned_slots (handles s) h)"
    "t = freed_all (handles s) (handle_index h # owned_slots (handles s) h)"
    using rm(1) t(1) by simp_all
  note rm = rm [folded eqs(2,3)]
  have "closed_table s h cs t" unfolding closed_table_def using rm(2-6) by blast
  with that t(2) l eqs(1) show ?thesis by blast
qed

text \<open>The table without them: only the children's servers are not kept, and all that left it are detached.\<close>

lemma closed_table_safe:
  assumes s: "safe s0 s" and t: "closed_table s h cs t" and l: "lookup_handle (handles s) h = Some (own, Runtime a)"
  shows "safe (fst s0, snd s0 \<union> {v. Ephemeral v \<in> set cs}) (s\<lparr>handles := t\<rparr>)"
proof (rule safe_handles)
  show "safe (fst s0, snd s0 \<union> {v. Ephemeral v \<in> set cs}) s" using safe_more [of "fst s0" "snd s0" s] s by simp
  show "table_ok t" "handles_unique t" by (rule closed_tableD [OF t])+
next
  fix k o' e
  assume "lookup_handle t k = Some (o', e)"
  note k = closed_tableD(6) [OF t this]
  show "entry_live s e \<and> \<not> claimed s e \<and> (\<forall>a. e = Runtime a \<longrightarrow> frees s a = None)"
    using safe_live [OF s k] safe_named [OF s k] by simp
next
  fix v x
  assume v: "servers s v = Some x" "handle_refs (sentry x) \<noteq> 0" "v \<notin> snd (fst s0, snd s0 \<union> {v. Ephemeral v \<in> set cs})"
  then have "v \<notin> snd s0" "Ephemeral v \<notin> set cs" by simp_all
  show "kept (s\<lparr>handles := t\<rparr>) v (sruntime x)"
  proof (rule kept_handles [OF safe_kept [OF s v(1,2) \<open>v \<notin> snd s0\<close>]])
    fix j j' o'
    assume j: "lookup_handle (handles s) j = Some (j', Ephemeral v)" "lookup_handle (handles s) j' = Some (o', Runtime (sruntime x))"
    have "j' \<noteq> h" using j(1) \<open>Ephemeral v \<notin> set cs\<close> closed_tableD(5) [OF t] by auto
    moreover have "o' = 0" using owners_live_runtime [OF safeD(3) [OF s] j(2)] by simp
    ultimately show "lookup_handle t j = Some (j', Ephemeral v) \<and> lookup_handle t j' = Some (o', Runtime (sruntime x))"
      using j l validate_lookup(7) [OF l] by (auto simp: closed_tableD(4) [OF t])
  qed
qed

lemma closed_table_detached:
  assumes s: "safe s0 s" and t: "closed_table s h cs t" and l: "lookup_handle (handles s) h = Some (own, Runtime a)"
  shows "detached (s\<lparr>handles := t\<rparr>) (Runtime a)"
    and "e \<in> set cs \<Longrightarrow> detached (s\<lparr>handles := t\<rparr>) e \<and> Entry_kind e \<noteq> KIND_RUNTIME"
proof -
  have det: "detached (s\<lparr>handles := t\<rparr>) e" if "lookup_handle (handles s) k = Some (o', e)" "lookup_handle t k = None" for e k o'
    by (rule removed_detached [OF s that closed_tableD(6) [OF t]])
  show "detached (s\<lparr>handles := t\<rparr>) (Runtime a)" by (rule det [OF l]) (simp add: closed_tableD(4) [OF t])
  assume e: "e \<in> set cs"
  obtain k where k: "lookup_handle (handles s) k = Some (h, e)" using iffD1 [OF closed_tableD(5) [OF t] e] ..
  have "Entry_kind e \<noteq> KIND_RUNTIME" using safeD(3) [OF s] k validate_lookup(7) [OF l] unfolding owners_live_def by blast
  moreover have "lookup_handle t k = None" using k by (simp add: closed_tableD(4) [OF t])
  ultimately show "detached (s\<lparr>handles := t\<rparr>) e \<and> Entry_kind e \<noteq> KIND_RUNTIME" using det [OF k] by simp
qed

text \<open>A call of \<^verbatim>\<open>kt_runtime_free\<close> takes a detached runtime and detached children.\<close>

lemma safe_claim:
  assumes s: "safe s0 s" and "distinct cs" and rt: "detached s (Runtime a)"
    and child: "\<And>e. e \<in> set cs \<Longrightarrow> detached s e \<and> Entry_kind e \<noteq> KIND_RUNTIME"
  shows "safe s0 (set_free a (Some (Closing cs None)) s)"
  unfolding set_free_def
proof (rule safe_frees [OF s])
  let ?fs = "(frees s)(a \<mapsto> Closing cs None)"
  show "claims_unique ?fs (stopping s)"
    using safeD(5) [OF s] assms(2) child unfolding claims_unique_def detached_def claimed_def by (auto split: if_splits)
  fix e
  assume e: "claimed (s\<lparr>frees := ?fs\<rparr>) e"
  show "entry_live s e \<and> unnamed s e \<and> Entry_kind e \<noteq> KIND_RUNTIME"
  proof (cases "e \<in> set cs")
    case True
    then show ?thesis using child by (simp add: detached_def)
  next
    case False
    then have "claimed s e" by (intro claimed_mono [OF e]) (auto split: if_splits)
    then show ?thesis using safe_claimed [OF s] by blast
  qed
next
  fix b p
  assume "((frees s)(a \<mapsto> Closing cs None)) b = Some p"
  then show "unnamed s (Runtime b) \<and> (\<exists>x. runtimes s b = Some x \<and> free_state p (requests x))"
    using rt safe_freed [OF s, of b p] by (cases "b = a") (auto simp: detached_def)
next
  fix v x
  assume "servers s v = Some x" "handle_refs (sentry x) \<noteq> 0" "v \<notin> snd s0"
  from safe_kept [OF s this] show "kept (s\<lparr>frees := (frees s)(a \<mapsto> Closing cs None)\<rparr>) v (sruntime x)"
    by (rule kept_mono) (use rt in \<open>auto simp: detached_def\<close>)
qed

lemma free_begin_safe:
  assumes s: "safe s0 s" and r: "free_begin h s = (Ok (a, cs), s')"
  shows "safe s0 s'" and "frees s' = (frees s)(a \<mapsto> Closing cs None)" and "get_runtime (handles s) h = Ok a"
    and "lookup_handle (handles s') k = (if k = h \<or> (\<exists>e. lookup_handle (handles s) k = Some (h, e)) then None
      else lookup_handle (handles s) k)"
    and "c \<in> set cs \<longleftrightarrow> (\<exists>k. lookup_handle (handles s) k = Some (h, c))"
proof -
  obtain t own where s': "s' = set_free a (Some (Closing cs None)) (s\<lparr>handles := t\<rparr>)" and t: "closed_table s h cs t"
    and l: "lookup_handle (handles s) h = Some (own, Runtime a)" by (rule free_begin_closes [OF s r])
  show "frees s' = (frees s)(a \<mapsto> Closing cs None)" "get_runtime (handles s) h = Ok a"
    using s' lookup_getters(2) [OF l] by simp_all
  show "lookup_handle (handles s') k = (if k = h \<or> (\<exists>e. lookup_handle (handles s) k = Some (h, e)) then None
      else lookup_handle (handles s) k)" "c \<in> set cs \<longleftrightarrow> (\<exists>k. lookup_handle (handles s) k = Some (h, c))"
    using closed_tableD(4,5) [OF t] s' by simp_all
  note dt = closed_table_detached [OF s t l]
  have s2: "safe (fst s0, snd s0 \<union> {v. Ephemeral v \<in> set cs}) s'"
    unfolding s' by (rule safe_claim [OF closed_table_safe [OF s t l] closed_tableD(3) [OF t] dt])
  have "kept s' v (sruntime x)" if v: "servers s' v = Some x" "handle_refs (sentry x) \<noteq> 0" "v \<notin> snd s0" for v x
  proof (cases "Ephemeral v \<in> set cs")
    case True
    then obtain k where k: "lookup_handle (handles s) k = Some (h, Ephemeral v)" using iffD1 [OF closed_tableD(5) [OF t]] by blast
    have "servers s v = Some x" using v(1) s' by simp
    from safe_kept [OF s this v(2,3)] have "sruntime x = a"
      using k l safeD(4) [OF s] safe_named(1) [OF s k] unfolding kept_def handles_unique_def claimed_def by fastforce
    then show ?thesis using True s' by (simp add: kept_def)
  next
    case False
    then show ?thesis using safe_kept [OF s2 v(1,2)] v(3) by simp
  qed
  then show "safe s0 s'" using safe_tighten [OF s2, of "snd s0"] by simp
qed

lemma free_drain_safe:
  assumes s: "safe s0 s" and f: "frees s a = Some (Closing [] err)" and x: "runtimes s a = Some x"
    and ds: "drain_order (pending (requests x)) ds"
  shows "safe s0 (free_drain ds a err s)"
proof -
  let ?e = "(drain_pending_for_shutdown ds (requests x))\<lparr>tracker_closed := True\<rparr>"
  let ?y = "x\<lparr>requests := ?e\<rparr>"
  note q = safe_quiet [OF s x] and op = safe_freed [OF s f]
  have 1: "safe s0 (set_free a None s)" by (rule safe_set_free [OF s]) (simp_all add: f)
  have "runtime_step\<^sup>*\<^sup>* (requests x) (drain_pending_for_shutdown ds (requests x))"
    by (rule drain_path) (use q op(2) x ds in \<open>simp_all add: quiet_def\<close>)
  also have "runtime_step (drain_pending_for_shutdown ds (requests x)) ?e" by (rule step_tracker_close) simp_all
  finally have path: "runtime_step\<^sup>*\<^sup>* (requests x) (requests ?y)" by simp
  have 2: "safe s0 (put_runtime a ?y (set_free a None s))"
    by (rule safe_put_runtime [OF 1 _ path])
      (use x q op(1) safe_ids(1) [OF s x] in \<open>simp_all add: quiet_def unnamed_def\<close>)
  have "safe s0 (set_free a (Some (TaskWait err)) (put_runtime a ?y (set_free a None s)))"
    by (rule safe_set_free [OF 2]) (use op(1) in \<open>simp_all add: put_runtime_def unnamed_def\<close>)
  moreover have "set_free a (Some (TaskWait err)) (put_runtime a ?y (set_free a None s)) = free_drain ds a err s"
    using x by (simp add: free_drain_def set_free_def put_runtime_def)
  ultimately show ?thesis by simp
qed

lemma free_return_safe:
  assumes s: "safe s0 s" and f: "frees s a = Some (TaskWait err)" and t: "tracker_empty a s"
  shows "safe s0 (snd (free_return a err s))"
proof -
  obtain x where x: "runtimes s a = Some x" "tracker_closed (requests x)" using safe_freed(2) [OF s f] by auto
  have "tracker (requests x) = 0" using t x(1) by (simp add: tracker_empty_def)
  then have step: "runtime_step (requests x) ((requests x)\<lparr>rfreed := True\<rparr>)" using x(2) by (intro step_free_done)
  have "safe s0 (put_runtime a (x\<lparr>requests := (requests x)\<lparr>rfreed := True\<rparr>\<rparr>) s)"
    by (rule safe_same_tasks [OF s x(1)]) (use step in auto)
  then have "safe s0 (set_free a None (put_runtime a (x\<lparr>requests := (requests x)\<lparr>rfreed := True\<rparr>\<rparr>) s))"
    by (rule safe_set_free) (simp_all add: put_runtime_def f)
  then show ?thesis using x(1) by (simp add: free_return_def)
qed

lemma server_free_begin_safe:
  assumes s: "safe s0 s" and r: "server_free_begin h s = (Ok v, s')"
  shows "safe s0 s'"
proof -
  obtain t where t: "remove_of_kind (handles s) h KIND_EPHEMERAL = (Ok (Ephemeral v), t)"
    "s' = s\<lparr>handles := t, stopping := insert v (stopping s)\<rparr>"
    using r by (auto simp: server_free_begin_def remove_handle_def call_defs split: prod.splits outcome.splits Entry.splits)
  let ?s1 = "s\<lparr>handles := t\<rparr>"
  have s1: "safe (holding (Ephemeral v) s0) ?s1" "detached ?s1 (Ephemeral v)"
    using safe_remove(2) [OF s t(1), of "Ephemeral v"] by (simp_all add: kind_defs)
  let ?s2 = "?s1\<lparr>frees := frees s, stopping := insert v (stopping s)\<rparr>"
  have "safe (holding (Ephemeral v) s0) ?s2"
  proof (rule safe_claims [OF s1(1)])
    show "claims_unique (frees s) (insert v (stopping s))"
      using safeD(5) [OF s] s1(2) unfolding claims_unique_def detached_def claimed_def by auto
    fix e
    assume e: "claimed ?s2 e"
    show "entry_live ?s1 e \<and> unnamed ?s1 e \<and> Entry_kind e \<noteq> KIND_RUNTIME"
    proof (cases "e = Ephemeral v")
      case True
      then show ?thesis using s1(2) by (simp add: detached_def kind_defs)
    next
      case False
      then have "claimed ?s1 e" using e unfolding claimed_def by auto
      then show ?thesis using safe_claimed [OF s1(1)] by blast
    qed
  next
    fix b pc
    assume "frees s b = Some pc"
    then show "unnamed ?s1 (Runtime b) \<and> (\<exists>x. runtimes ?s1 b = Some x \<and> free_state pc (requests x))"
      using safe_freed [OF s1(1), of b pc] by simp
  next
    fix w x
    assume "servers ?s1 w = Some x" "handle_refs (sentry x) \<noteq> 0" "w \<notin> snd (holding (Ephemeral v) s0)"
    from safe_kept [OF s1(1) this] show "kept ?s2 w (sruntime x)" by (rule kept_mono) simp_all
  qed
  then have "safe (holding (Ephemeral v) s0) s'" by (simp add: t(2))
  then show ?thesis by (rule safe_let_go) (simp add: t(2) kept_def)
qed

text \<open>A refused handle changes nothing.\<close>

lemma free_refused:
  assumes "safe s0 s"
  shows "returns env (RuntimeFree h) s \<Longrightarrow> snd (kt_runtime_free env h s) = s"
    and "returns env (EphemeralFree h) s \<Longrightarrow> snd (kt_ephemeral_free env h s) = s"
proof -
  show "snd (kt_runtime_free env h s) = s" if r: "returns env (RuntimeFree h) s"
  proof (cases "validate (handles s) h KIND_RUNTIME")
    case (Ok i)
    then obtain own b where "lookup_handle (handles s) h = Some (own, Runtime b)" by (rule validate_runtime_lookup)
    from remove_runtime_live(1) [OF assms this] r show ?thesis by simp
  qed (simp_all add: kt_runtime_free_def free_begin_def remove_runtime_handles_def remove_runtime_def call_defs)
  obtain x t where x: "remove_of_kind (handles s) h KIND_EPHEMERAL = (x, t)" by (cases "remove_of_kind (handles s) h KIND_EPHEMERAL")
  show "snd (kt_ephemeral_free env h s) = s" if "returns env (EphemeralFree h) s"
    using that x safe_remove(1) [OF assms x]
    by (cases x) (simp_all add: kt_ephemeral_free_def server_free_begin_def remove_handle_def call_defs kind_defs)
qed

section \<open>Any entry point\<close>

lemmas keeps_entry_points = keeps_runtime_new keeps_runtime_info keeps_retrieve_metrics keeps_client_connect
  keeps_client_rpc keeps_client_free keeps_worker_new keeps_worker_validate keeps_worker_start keeps_worker_complete
  keeps_worker_heartbeat keeps_worker_initiate_shutdown keeps_worker_shutdown keeps_worker_free
  keeps_worker_update_resource keeps_ephemeral_start keeps_ephemeral_info keeps_ephemeral_shutdown
  keeps_poller_new keeps_poller_poll keeps_poller_wake keeps_poller_free keeps_cancel

lemma exec_safe:
  assumes "ready s0 s" and "returns env c s"
  shows "safe s0 (snd (exec env c s))"
proof (cases "(\<exists>h. c = RuntimeFree h) \<or> (\<exists>h. c = EphemeralFree h)")
  case True
  then show ?thesis using assms free_refused [OF readyD [OF assms(1)], of env] readyD [OF assms(1)] by auto
next
  case False
  then have "keeps s0 (ready s0) (exec env c)" by (cases c) (simp_all add: keeps_entry_points)
  then show ?thesis using assms(1) by (rule keeps_snd)
qed

end
