(* ===== verification/Kt_SystemRuns.thy ===== *)
theory Kt_SystemRuns
  imports Kt_SystemFree
begin

text \<open>
  Every run of the bridge: the invariant holds in each state of it, and each runtime, meter, worker and
  server in it behaves as its own step relation says. So what the theories of the components prove holds
  of every object of the whole program.
\<close>

section \<open>Background steps\<close>

lemma keeps_use: "keeps s0 P m \<Longrightarrow> P s \<Longrightarrow> m s = (r, s') \<Longrightarrow> safe s0 s'"
  using keeps_snd [of P m s0 s] by simp

lemma keeps_report_created:
  assumes "\<And>s. P s \<Longrightarrow> ready (holding e s0) s \<and> detached s e \<and> owner_ok h e s" and "Entry_kind e \<noteq> KIND_RUNTIME"
  shows "keeps s0 P (report_created r h e f)"
proof (rule keeps_safe)
  fix s
  assume "P s"
  then have "insert_owned_handle h e s = (x, s') \<Longrightarrow> safe s0 s'" for x s'
    using keeps_use [OF keeps_insert_owned_if [of P e s0 h]] assms by blast
  then show "safe s0 (snd (report_created r h e f s))"
    by (cases "insert_owned_handle h e s") (simp add: report_created_def split: outcome.split)
qed

lemma keeps_client_connected: "keeps s0 (ready s0) (client_connected r h ns)"
  unfolding client_connected_def
  by (rule kt_wp keeps_report_created | fastforce simp: kind_defs owner_ok_def)+

lemma keeps_server_started:
  "keeps s0 (\<lambda>s. ready s0 s \<and> (\<forall>b. get_runtime (handles s) h = Ok b \<longrightarrow> b = a)) (server_started enc r a h info)"
proof (rule keeps_safe)
  fix s
  let ?v = "\<lparr>sentry = EphemeralEntry_new, sinfo = info, sruntime = a\<rparr>"
  let ?s = "put_server (next_id s) ?v (s\<lparr>next_id := Suc (next_id s)\<rparr>)"
  let ?report = "\<lambda>k. Pending_payload (enc info) (Pending_aux0 k (Pending_kind EphemeralStarted (Pending_ack r)))"
  assume s: "ready s0 s \<and> (\<forall>b. get_runtime (handles s) h = Ok b \<longrightarrow> b = a)"
  then have "ready (holding (Ephemeral (next_id s)) s0) ?s \<and> detached ?s (Ephemeral (next_id s))"
    using new_server_object [of s0 s ?v] by simp
  moreover have "owner_ok h (Ephemeral (next_id s)) ?s" using s by (simp add: owner_ok_def put_server_def)
  ultimately have "safe s0 (snd (report_created r h (Ephemeral (next_id s)) ?report ?s))"
    by (intro keeps_snd [OF keeps_report_created [where P = "(=) ?s"]]) (auto simp: kind_defs)
  then show "safe s0 (snd (server_started enc r a h info s))"
    by (simp add: server_started_def alloc_def then_do_def)
qed

lemma op_result_safe: "op_result a op r t s p s' \<Longrightarrow> ready s0 s \<Longrightarrow> op_current a op s \<Longrightarrow> safe s0 s'"
proof (induction rule: op_result.induct)
  case (op_server_started open_file start_server options info encode_info r a runtime s p s' t)
  then show ?case using keeps_use [OF keeps_server_started _ op_server_started.hyps(2), of s0]
    by (auto simp: op_current_def split: outcome.splits)
qed (auto dest: keeps_use [OF keeps_client_connected])

text \<open>An operation reports on its own request, and what it creates touches no runtime.\<close>

lemma close_all_runtimes [simp]:
  "runtimes (fold (\<lambda>e s. drop_entry e (Entry_close e s)) es s) = runtimes s"
  by (induction es arbitrary: s) simp_all

lemma insert_owned_handle_runtimes: "insert_owned_handle h e s = (r, s') \<Longrightarrow> runtimes s' = runtimes s"
  by (auto simp: insert_owned_handle_def split: prod.splits)

lemma report_created_frame:
  assumes "report_created r h e f s = (Ok p, s')"
  shows "runtimes s' = runtimes s" and "(\<And>k. req_id (f k) = r) \<Longrightarrow> req_id p = r"
proof -
  obtain x s1 where i: "insert_owned_handle h e s = (x, s1)" by (cases "insert_owned_handle h e s")
  then have p: "s' = s1 \<and> (\<exists>k. p = f k) \<or> s' = s1 \<and> (\<exists>c m. p = Pending_error r c m)"
    using assms by (auto simp: report_created_def split: outcome.splits)
  then show "runtimes s' = runtimes s" using insert_owned_handle_runtimes [OF i] by auto
  show "req_id p = r" if "\<And>k. req_id (f k) = r" using p that by (auto simp: pending_defs)
qed

lemma connect_failure_req_id: "req_id (connect_failure enc r e) = r"
  by (cases e) (simp_all add: pending_defs)

lemma op_result_frame: "op_result a op r t s p s' \<Longrightarrow> runtimes s' = runtimes s \<and> req_id p = r"
proof (induction rule: op_result.induct)
  case (op_connected dial options ns conn ns' r runtime s p s' a t)
  from op_connected(2)
  have "report_created r runtime (Client (next_id s)) (\<lambda>h. Pending_aux0 h (Pending_kind ClientConnected (Pending_ack r)))
      (put_client (next_id s) ns' (s\<lparr>next_id := next_id s + 1\<rparr>)) = (Ok p, s')"
    by (simp add: client_connected_def alloc_def then_do_def)
  from report_created_frame [OF this] show ?case by (simp add: put_client_def pending_defs)
next
  case (op_server_started open_file start_server options info encode_info r a runtime s p s' t)
  from op_server_started(2)
  have "report_created r runtime (Ephemeral (next_id s)) (\<lambda>h. Pending_payload (encode_info info)
      (Pending_aux0 h (Pending_kind EphemeralStarted (Pending_ack r))))
      (put_server (next_id s) \<lparr>sentry = EphemeralEntry_new, sinfo = info, sruntime = a\<rparr> (s\<lparr>next_id := next_id s + 1\<rparr>)) = (Ok p, s')"
    by (simp add: server_started_def alloc_def then_do_def)
  from report_created_frame [OF this] show ?case by (simp add: put_server_def pending_defs)
qed (auto simp: connect_failure_req_id rpc_completion_def validate_completion_def unit_completion_def pending_defs
      split: outcome.splits if_splits)

lemma safe_set_phase:
  assumes "safe s0 s" and "runtimes s a = Some x" and "tasks (requests x) t = Some (r, Spawned)"
    and "runtime_step (requests x) (set_phase t r Spawned (Resolved p) (requests x))"
  shows "safe s0 (resolve a t r p s)"
proof -
  have "safe s0 (put_runtime a (x\<lparr>requests := set_phase t r Spawned (Resolved p) (requests x)\<rparr>) s)"
    by (rule safe_put_runtime [OF assms(1,2)])
      (use assms(3,4) safe_quiet [OF assms(1,2)] safe_ids(1) [OF assms(1,2)] in
        \<open>auto simp: quiet_def split: if_splits\<close>)
  then show ?thesis using assms(2) by (simp add: resolve_def)
qed

lemma push_event_frame [simp]:
  "tasks (push_event p e) = tasks e" "draining (push_event p e) = draining e" "rclosed (push_event p e) = rclosed e"
  by (simp_all add: push_event_def split: prod.split option.split)

lemma push_event_path: "req_id p = PUSHED \<Longrightarrow> runtime_step e (push_event p e)"
  using step_event [of p e] by (cases "Sender_push (rqueue e) p") (simp add: push_event_def)

lemma pump_event_req_id: "pump_event h k p \<Longrightarrow> req_id p = PUSHED"
  by (auto simp: pump_event_def task_event_def stream_end_def worker_failed_def pushed_event_def pending_defs)

lemma safe_push_event:
  assumes "safe s0 s" and "req_id p = PUSHED"
  shows "safe s0 (update_requests a (push_event p) s)"
proof (cases "runtimes s a")
  case (Some x)
  then show ?thesis using push_event_path [OF assms(2), of "requests x"]
    by (simp add: update_requests_def) (intro safe_same_tasks [OF assms(1) Some] r_into_rtranclp, simp_all)
qed (use assms in \<open>simp add: update_requests_def\<close>)

lemma safe_retire:
  assumes "safe s0 s" and x: "runtimes s a = Some x" and t: "tasks (requests x) t = Some (r, Resolved p)"
  shows "safe s0 (retire_op a t r p s)"
proof -
  let ?e = "set_phase t r (Resolved p) Finished (finish_request r p (requests x))"
  note q = safe_quiet [OF assms(1) x]
  have "runtime_step (requests x) ?e"
    by (rule step_task, rule task_finish) (use t q in \<open>simp_all add: quiet_def\<close>)
  then have "safe s0 (put_runtime a (x\<lparr>requests := ?e\<rparr>) s)"
    by (intro safe_put_runtime [OF assms(1) x])
      (use t q safe_ids(1) [OF assms(1) x] in \<open>auto simp: quiet_def split: if_splits\<close>)
  then show ?thesis using x by (simp add: retire_op_def Let_def safe_drop_pendings)
qed

lemma safe_worker_step:
  assumes "safe s0 s" and "workers s w = Some x" and "worker_step (wentry x) (f (wentry x))"
    and "shutdowns (f (wentry x)) = shutdowns (wentry x)"
  shows "safe s0 (update_worker w f s)"
  using assms safe_ids(2) [OF assms(1,2)] by (intro safe_update_worker) auto

text \<open>A shutdown becomes a background task only under a number of its own.\<close>

lemma shutdown_progress_background:
  "shutdown_progress e e' \<Longrightarrow> in_background (shutdowns e' t) \<Longrightarrow> in_background (shutdowns e t) \<or> shutdowns e t = None"
  by (induction rule: shutdown_progress.induct)
    (auto simp: worker_step_defs split: if_splits WorkerState.splits outcome.splits)

lemma safe_shutdown_progress:
  assumes "safe s0 s" and "workers s w = Some x" and "shutdown_progress (wentry x) e"
    and "dom (shutdowns e) \<subseteq> insert (next_id s) (dom (shutdowns (wentry x)))"
  shows "safe s0 (put_worker w (x\<lparr>wentry := e\<rparr>) (s\<lparr>next_id := Suc (next_id s)\<rparr>))"
proof (rule safe_put_worker [OF safe_next_id [OF assms(1)], where x = x])
  show "worker_step\<^sup>*\<^sup>* (wentry x) (wentry (x\<lparr>wentry := e\<rparr>))" using worker_shutdown [OF assms(3)] by simp
  have "dom (shutdowns e) \<subseteq> insert (next_id s) {..<next_id s}" using assms(4) safe_ids(2) [OF assms(1,2)] by blast
  then show "dom (shutdowns (wentry (x\<lparr>wentry := e\<rparr>))) \<subseteq> {..<next_id (s\<lparr>next_id := Suc (next_id s)\<rparr>)}"
    by (simp add: lessThan_Suc)
  fix t
  assume bg: "in_background (shutdowns (wentry (x\<lparr>wentry := e\<rparr>)) t)"
  then have "t \<in> dom (shutdowns e)" by (auto simp: in_background_def)
  then show "in_background (shutdowns (wentry x) t) \<or> ops (s\<lparr>next_id := Suc (next_id s)\<rparr>) t = None"
    using shutdown_progress_background [OF assms(3), of t] bg assms(4) safe_new_id(6) [OF assms(1)] by auto
qed (use assms(2) in simp_all)

lemma safe_core_answers:
  assumes "safe s0 s" and "workers s w = Some x" and "core_answers (wentry x) e"
  shows "safe s0 (put_worker w (x\<lparr>wentry := e\<rparr>) s)"
proof (rule safe_put_worker [OF assms(1), where x = x])
  show "worker_step\<^sup>*\<^sup>* (wentry x) (wentry (x\<lparr>wentry := e\<rparr>))" using worker_core_answers [OF assms(3)] by simp
  obtain t where e: "e = return_ok t (wentry x)" using assms(3) by cases
  show "dom (shutdowns (wentry (x\<lparr>wentry := e\<rparr>))) \<subseteq> {..<next_id s}"
    using safe_ids(2) [OF assms(1,2)] by (auto simp: e return_ok_def split: if_splits)
  show "in_background (shutdowns (wentry x) u) \<or> ops s u = None" if "in_background (shutdowns (wentry (x\<lparr>wentry := e\<rparr>)) u)" for u
    using that by (auto simp: e return_ok_def in_background_def split: if_splits)
qed (use assms(2) in simp_all)

lemma eph_progress_frame: "eph_progress e e' \<Longrightarrow> handle_refs e' = handle_refs e \<and> dom (ecalls e') \<subseteq> dom (ecalls e)"
  by (induction rule: eph_progress.induct) (auto split: if_splits)

lemma safe_eph_progress:
  assumes "safe s0 s" and "servers s a = Some x" and "eph_progress (sentry x) e"
  shows "safe s0 (put_server a (x\<lparr>sentry := e\<rparr>) s)"
  by (rule safe_put_server [OF assms(1,2)])
    (use eph_own [OF assms(3)] eph_progress_frame [OF assms(3)] safe_ids(3) [OF assms(1,2)] in \<open>auto 0 3\<close>)

section \<open>Every step\<close>

lemma end_op_runtimes [simp]: "runtimes (end_op op s) = runtimes s"
  by (cases op) (simp_all add: end_op_def)

lemma drop_op_runtimes [simp]: "runtimes (drop_op t op s) = runtimes s"
  by (cases op) (simp_all add: drop_op_def)

lemma background_step_safe: "background_step s s' \<Longrightarrow> bridge_inv s \<Longrightarrow> safe (s, {}) s'"
proof -
  have base: "bridge_inv s \<Longrightarrow> safe (s, {}) s" for s by (simp add: safe_def bridge_inv_def)
  show "background_step s s' \<Longrightarrow> bridge_inv s \<Longrightarrow> safe (s, {}) s'"
  proof (induction rule: background_step.induct)
    case (sys_op_returns s a x t r op p s')
    note f = op_result_frame [OF sys_op_returns(7)]
    have "safe (s, {}) s'"
      using op_result_safe [OF sys_op_returns(7), of "(s, {})"] sys_op_returns(5,6,8) by (simp add: ready_def base)
    then show ?case using sys_op_returns(1-3) f
      by (intro safe_set_phase [where x = x] safe_end_op step_op_returns) simp_all
  next
    case (sys_op_panics s a x t r op y)
    then show ?case by (intro safe_set_phase [where x = x] safe_drop_op base step_op_panics) simp_all
  next
    case (sys_op_cancelled s a x t r op)
    then show ?case by (intro safe_set_phase [where x = x] safe_drop_op base step_task task_cancelled) simp_all
  next
    case (sys_retire s a x t r p)
    then show ?case by (intro safe_retire base)
  next
    case (sys_event s w x k p)
    then show ?case by (intro safe_push_event base pump_event_req_id)
  next
    case (sys_pump_initiates s w x k)
    then show ?case by (intro safe_worker_step [where x = x] base worker_pump_initiates) simp_all
  next
    case (sys_pump_ends s w x k)
    then show ?case by (intro safe_worker_step [where x = x] base worker_pump_ends) simp_all
  next
    case (sys_pump_leaves s w x k)
    then show ?case by (intro safe_worker_step [where x = x] base worker_pump_leaves) simp_all
  next
    case (sys_shutdown s w x e)
    then show ?case using safe_shutdown_progress [OF base] by simp
  next
    case (sys_core_answers s w x e)
    then show ?case by (intro safe_core_answers base)
  next
    case (sys_server s a x e)
    then show ?case by (intro safe_eph_progress base)
  next
    case (sys_metric s a x m m')
    then show ?case by (intro safe_metrics [where x = x] base) auto
  next
    case (sys_free_child s a c cs err env s')
    then show ?case by (intro free_child_safe [OF base]) auto
  next
    case (sys_free_drain s a err x ds)
    then show ?case by (intro free_drain_safe base)
  next
    case (sys_free_return s a err)
    then show ?case by (intro free_return_safe base)
  next
    case (sys_server_free a s env r s')
    then show ?case by (intro server_free_end_safe [OF base])
  next
    case (sys_admit s n c)
    then show ?case by (intro safe_admit_entered base)
  qed (rule poller_poll_end_safe [OF base], assumption)+
qed

lemma bridge_step_safe: "bridge_step s s' \<Longrightarrow> bridge_inv s \<Longrightarrow> safe (s, {}) s'"
proof -
  have base: "bridge_inv s \<Longrightarrow> safe (s, {}) s" for s by (simp add: safe_def bridge_inv_def)
  show "bridge_step s s' \<Longrightarrow> bridge_inv s \<Longrightarrow> safe (s, {}) s'"
  proof (induction rule: bridge_step.induct)
    case (sys_call s env c)
    then show ?case by (intro exec_safe) (simp_all add: ready_def base)
  next
    case (sys_free_begin h s x s')
    then show ?case using free_begin_safe(1) [OF base, of s h "fst x" "snd x"] by simp
  next
    case (sys_server_free_begin h s a s')
    then show ?case by (intro server_free_begin_safe [OF base])
  next
    case (sys_enter s n env c x s')
    then show ?case by (intro enter_safe [OF base])
  next
    case (sys_poll_begin h c s p s')
    then show ?case by (intro poller_poll_begin_safe [OF base])
  next
    case (sys_background s s')
    then show ?case by (rule background_step_safe)
  qed
qed

lemma bridge_inv_init: "bridge_init s \<Longrightarrow> bridge_inv s"
  by (auto simp: bridge_init_def Bridge_init_def bridge_inv_def bridge_inv_defs handles_unique_def claims_ok_def claimed_def
      claims_unique_def frees_ok_def no_leak_def ops_ok_def table_ok_new [unfolded HandleTable_new_def]
      HandleTable_new_def lookup_handle_slot)

lemma pools_init:
  assumes "bridge_init s"
  shows "request_pool s = Map.empty" "meter_pool s = Map.empty" "worker_pool s = Map.empty" "server_pool s = Map.empty"
  using assms by (auto simp: bridge_init_def Bridge_init_def request_pool_def meter_pool_def worker_pool_def
      server_pool_def)

interpretation br: invariant_system bridge_init bridge_step bridge_inv
proof unfold_locales
  show "bridge_inv s" if "bridge_init s" for s by (rule bridge_inv_init [OF that])
  show "bridge_inv s'" if "bridge_inv s" "bridge_step s s'" for s s'
    using bridge_step_safe [OF that(2,1)] by (simp add: safe_def bridge_inv_def)
qed

lemma bridge_step_evo: "bridge_inv s \<Longrightarrow> bridge_step s s' \<Longrightarrow> evo s s'"
  using bridge_step_safe by (auto simp: safe_def)

interpretation request_tables: component_pool bridge_init bridge_step bridge_inv request_pool runtime_init runtime_step
  by unfold_locales (use bridge_step_evo in \<open>auto simp: pools_init evo_def\<close>)

interpretation meters: component_pool bridge_init bridge_step bridge_inv meter_pool meter_init meter_step
  by unfold_locales (use bridge_step_evo in \<open>auto simp: pools_init evo_def\<close>)

interpretation worker_objects: component_pool bridge_init bridge_step bridge_inv worker_pool worker_init worker_step
  by unfold_locales (use bridge_step_evo in \<open>auto simp: pools_init evo_def\<close>)

interpretation server_objects: component_pool bridge_init bridge_step bridge_inv server_pool eph_init eph_step
  by unfold_locales (use bridge_step_evo in \<open>auto simp: pools_init evo_def\<close>)

section \<open>Freeing a runtime\<close>

lemma keeps_runtimes [simp]: "runtimes (drop_pending p s) = runtimes s"
  by (simp add: drop_pending_def split: prod.split option.split)

lemma keeps_runtimes_fold [simp]: "runtimes (fold drop_pending ps s) = runtimes s"
  by (induction ps arbitrary: s) simp_all

lemma drain_order_exists: "finite (dom m) \<Longrightarrow> \<exists>ds. drain_order m ds"
proof -
  assume f: "finite (dom m)"
  let ?ks = "sorted_list_of_set (dom m)"
  have "map_of (map (\<lambda>k. (k, the (m k))) ?ks) = m"
  proof
    fix k
    show "map_of (map (\<lambda>k. (k, the (m k))) ?ks) k = m k"
      using f by (cases "m k") (auto simp: map_of_map_restrict restrict_map_def domIff)
  qed
  moreover have "distinct (map fst (map (\<lambda>k. (k, the (m k))) ?ks))" by (simp add: comp_def)
  ultimately show ?thesis unfolding drain_order_def by blast
qed

section \<open>A small run\<close>

text \<open>
  For the witnesses: answers of the outside, and the states after a runtime was created (handle
  \<open>0x0100000100000000\<close>, with a meter) and after a request to connect a client was accepted on it.
\<close>

definition demo_core :: "(u8 list, u8 list, u8 list, u8 list) core_api" where
  "demo_core = \<lparr>decode_activation_completion = Ok, decode_activity_completion = Ok, decode_nexus_completion = Ok,
     decode_heartbeat = Ok, complete_workflow_activation = (\<lambda>_. Ok ()), complete_activity_task = (\<lambda>_. Ok ()),
     complete_nexus_task = (\<lambda>_. Ok ()), record_activity_heartbeat = (\<lambda>_. None)\<rparr>"

definition demo_env :: env where
  "demo_env = \<lparr>env_decode_runtime = (\<lambda>_. Ok \<lparr>telemetry = Some \<lparr>forward_logs = False, log_filter = [],
       buffer_metrics = True\<rparr>, worker_heartbeat_interval_millis = None\<rparr>),
     env_decode_client = (\<lambda>_. Ok demo_client), env_decode_worker = (\<lambda>_. Err ''truncated message''),
     env_decode_server = (\<lambda>_. Err ''truncated message''), env_utf8 = (\<lambda>_. Ok ''ListNamespaces''),
     env_build_options = Ok, env_core_new = (\<lambda>_. Ok ()), env_platform = demo_platform, env_build_holder = Ok,
     env_build_tuner = Ok, env_build_config = Ok, env_init_worker = (\<lambda>_. Ok ()), env_core = demo_core,
     env_now = 0, env_core_version = ''0.1.0'', env_encode_info = (\<lambda>s. Ok []), env_encode_batch = (\<lambda>b. [10, 20, 30]),
     env_encode_server_info = (\<lambda>_. []), env_logs = [], env_to_json = Ok, env_reap = (\<lambda>_. Ok ()),
     env_drain_order = [(7, 1)], env_task_order = [1], env_slab = 4096\<rparr>"

definition demo_handle :: u64 where "demo_handle = 0x0100000100000000"

definition demo_opened :: Bridge where
  "demo_opened = (Bridge_init (\<lambda>_. 0))\<lparr>
     mem := store_u64 (\<lambda>_. 0) 8 demo_handle,
     handles := \<lparr>slots = [\<lparr>generation = 1, owner = 0, entry = Some (Runtime 0)\<rparr>], free = []\<rparr>,
     next_id := 1,
     runtimes := [0 \<mapsto> \<lparr>requests = RuntimeEntry_new, metrics = Some (BridgeMeter_default, []), metric_batch = None\<rparr>]\<rparr>"

definition demo_requests :: RuntimeEntry where
  "demo_requests = RuntimeEntry_new\<lparr>pending := [7 \<mapsto> 1], tasks := [1 \<mapsto> (7, Spawned)], tracker := 1, admitted := [7]\<rparr>"

definition demo_operation :: operation where
  "demo_operation = (case connection_options demo_platform demo_client of
     Ok o' \<Rightarrow> Connect o' ''default'' demo_handle | _ \<Rightarrow> Validate 0)"

definition demo_asked :: Bridge where
  "demo_asked = demo_opened\<lparr>next_id := 2, ops := [1 \<mapsto> (0, demo_operation)],
     runtimes := [0 \<mapsto> \<lparr>requests = demo_requests, metrics = Some (BridgeMeter_default, []), metric_batch = None\<rparr>]\<rparr>"

lemmas demo_defs = demo_env_def demo_handle_def demo_opened_def demo_requests_def demo_asked_def Bridge_init_def

lemma make_demo_handle: "make_handle 1 1 0 = demo_handle"
  by (simp add: make_handle_def demo_handle_def KIND_SHIFT_def GEN_SHIFT_def GEN_MASK_def push_bit_eq_mult)

lemma demo_open: "exec demo_env (RuntimeNew 0 0 8) (Bridge_init (\<lambda>_. 0)) = (Ok (), demo_opened)"
  by (simp add: kt_runtime_new_def call_defs map_err_def Let_def decoded_def read_slice_def slice_def new_runtime_def core_options_def
      alloc_def insert_handle_def insert_entry_def insert_into_def HandleTable_new_def vec_pop_def kind_defs
      make_demo_handle write_u64_def put_runtime_def demo_env_def demo_opened_def Bridge_init_def)

lemma demo_handle_fields: "handle_kind demo_handle = 1" "handle_gen demo_handle = 1" "handle_index demo_handle = 0"
  by (simp_all add: make_demo_handle [symmetric])

lemma demo_runtime:
  "get_runtime (handles demo_opened) demo_handle = Ok 0" "get_runtime (handles demo_asked) demo_handle = Ok 0"
  by (simp_all add: get_runtime_def with_entry_def validate_def demo_handle_fields demo_asked_def demo_opened_def
      kind_defs, simp_all add: demo_handle_def)

lemma demo_connect_args:
  "client_connect_args demo_env demo_handle 0 0 7 demo_opened = (Ok (0, 7, demo_operation), demo_opened)"
proof -
  obtain o' where "connection_options demo_platform demo_client = Ok o'"
    by (simp add: demo_platform_def demo_client_def connection_options_def)
  then show ?thesis
    using demo_runtime(1)
    by (simp add: client_connect_args_def call_defs map_err_def Let_def some_request_def the_runtime_def
        decoded_def read_slice_def slice_def demo_env_def demo_operation_def)
      (simp add: demo_client_def)
qed

lemma demo_begin: "begin_op t demo_operation s = s" "capture_op demo_operation s = s"
  by (simp_all add: demo_operation_def demo_platform_def demo_client_def connection_options_def begin_op_def capture_op_def)

lemma demo_connect: "exec demo_env (ClientConnect demo_handle 0 0 7) demo_opened = (Ok (), demo_asked)"
proof -
  have "spawn_request 1 7 RuntimeEntry_new = (Ok (), demo_requests)"
    by (simp add: spawn_request_def register_def RuntimeEntry_new_def set_phase_def tokens_def demo_requests_def fun_eq_iff)
  then have "admit (0, 7, demo_operation) demo_opened = (Ok (), demo_asked)"
    by (simp add: admit_def spawn_def spawn_with_def call_defs Let_def deref_def put_runtime_def demo_begin demo_asked_def
        demo_opened_def Bridge_init_def)
  then show ?thesis by (simp add: kt_client_connect_def then_do_def demo_connect_args)
qed

lemma demo_opened_runs: "runs bridge_init bridge_step demo_opened"
proof -
  have "runs bridge_init bridge_step (Bridge_init (\<lambda>_. 0))" by (rule runs_init) (auto simp: bridge_init_def)
  moreover have "bridge_step (Bridge_init (\<lambda>_. 0)) demo_opened"
    using sys_call [of "Bridge_init (\<lambda>_. 0)" demo_env "RuntimeNew 0 0 8"]
    by (simp add: demo_open del: exec.simps) (simp add: Bridge_init_def has_room_def HandleTable_new_def)
  ultimately show ?thesis by (rule runs_step)
qed

lemma demo_runs: "runs bridge_init bridge_step demo_asked"
proof (rule runs_step [OF demo_opened_runs])
  show "bridge_step demo_opened demo_asked"
    using sys_call [of demo_opened demo_env "ClientConnect demo_handle 0 0 7"]
    by (simp add: demo_connect del: exec.simps) (simp add: demo_opened_def has_room_def)
qed

end
