(* ===== verification/Kt_Shutdown.thy ===== *)
theory Kt_Shutdown
  imports Kt_SystemRuns
begin

text \<open>
  The end of a runtime. A thread in \<^verbatim>\<open>kt_runtime_free\<close> always gets to its return, whatever the state it finds
  the requests, workers and servers of the runtime in, and when it does the runtime is settled:
  every request is answered and the shutdown of every development server's child has ended.

  The proof of the first follows the thread: the children are closed one after the other, each as soon
  as its mutex is free; the drain; each task that still runs comes to a point where it awaits something
  and sees that it is cancelled; each server that was started on the runtime loses its last
  reference and its child is shut down.
\<close>

section \<open>One server\<close>

lemma eph_progress_path_frame:
  "eph_progress\<^sup>*\<^sup>* e e' \<Longrightarrow> handle_refs e' = handle_refs e \<and> dom (ecalls e') \<subseteq> dom (ecalls e)"
proof (induction rule: rtranclp_induct)
  case (step d e')
  show ?case
    using subset_trans [OF conjunct2 [OF eph_progress_frame [OF step.hyps(2)]] conjunct2 [OF step.IH]]
      step.IH eph_progress_frame [OF step.hyps(2)] by simp
qed simp

lemma eph_progress_path_inv: "eph_progress\<^sup>*\<^sup>* e e' \<Longrightarrow> eph_inv e \<Longrightarrow> eph_inv e'"
  by (induction rule: rtranclp_induct) (auto intro: eph.step_inv eph_own)

text \<open>The shutdown under way, if any, comes to its end.\<close>

lemma eph_unlocks:
  assumes "eph_lock_ok e"
  shows "\<exists>e'. eph_progress\<^sup>*\<^sup>* e e' \<and> (\<forall>u. ecalls e' u \<noteq> Some InShutdown) \<and>
    (\<forall>t. ecalls e t = Some WaitLock \<longrightarrow> ecalls e' t = Some WaitLock)"
proof (cases "\<exists>u. ecalls e u = Some InShutdown")
  case True
  then obtain u where u: "ecalls e u = Some InShutdown" ..
  let ?e = "e\<lparr>ecalls := (ecalls e)(u := None), has_server := False, shutdown_results := shutdown_results e @ [Ok ()]\<rparr>"
  have "eph_progress e ?e" by (rule eph_shutdown_done [OF u]) simp
  moreover have "ecalls ?e t \<noteq> Some InShutdown" for t using assms u unfolding eph_lock_ok_def by auto
  moreover have "ecalls e t = Some WaitLock \<Longrightarrow> ecalls ?e t = Some WaitLock" for t using u by auto
  ultimately show ?thesis by blast
qed auto

text \<open>One call less, and so in the end none.\<close>

lemma eph_call_ends:
  assumes "eph_inv e" and "ecalls e t = Some pc"
  shows "\<exists>e'. eph_progress\<^sup>*\<^sup>* e e' \<and> ecalls e' t = None"
proof (cases pc)
  case InShutdown
  let ?e = "e\<lparr>ecalls := (ecalls e)(t := None), has_server := False, shutdown_results := shutdown_results e @ [Ok ()]\<rparr>"
  have "eph_progress e ?e" using assms(2) InShutdown by (intro eph_shutdown_done) simp_all
  moreover have "ecalls ?e t = None" by simp
  ultimately show ?thesis by blast
next
  case WaitLock
  obtain d where d: "eph_progress\<^sup>*\<^sup>* e d" "\<forall>u. ecalls d u \<noteq> Some InShutdown" "ecalls d t = Some WaitLock"
    using eph_unlocks [of e] assms WaitLock by (auto simp: eph_inv_def)
  let ?d = "d\<lparr>ecalls := (ecalls d)(t := if has_server d then Some InShutdown else None)\<rparr>"
  have 1: "eph_progress d ?d" by (rule eph_locked [OF d(3,2)])
  show ?thesis
  proof (cases "has_server d")
    case True
    let ?e = "?d\<lparr>ecalls := (ecalls ?d)(t := None), has_server := False, shutdown_results := shutdown_results ?d @ [Ok ()]\<rparr>"
    have "eph_progress ?d ?e" by (rule eph_shutdown_done) (simp_all add: True)
    with rtranclp.rtrancl_into_rtrancl [OF d(1) 1] have "eph_progress\<^sup>*\<^sup>* e ?e" by (rule rtranclp.rtrancl_into_rtrancl)
    then show ?thesis by (intro exI [of _ ?e]) simp
  next
    case False
    with rtranclp.rtrancl_into_rtrancl [OF d(1) 1] show ?thesis by (intro exI [of _ ?d]) simp
  qed
qed

lemma eph_calls_end:
  assumes "eph_inv e" and "finite (dom (ecalls e))"
  shows "\<exists>e'. eph_progress\<^sup>*\<^sup>* e e' \<and> ecalls e' = Map.empty"
  using assms
proof (induction "card (dom (ecalls e))" arbitrary: e rule: less_induct)
  case less
  show ?case
  proof (cases "ecalls e = Map.empty")
    case False
    then obtain t pc where t: "ecalls e t = Some pc" by (meson not_None_eq ext)
    from eph_call_ends [OF less.prems(1) t] obtain d where d: "eph_progress\<^sup>*\<^sup>* e d" "ecalls d t = None" by blast
    have sub: "dom (ecalls d) \<subseteq> dom (ecalls e) - {t}" using eph_progress_path_frame [OF d(1)] d(2) by auto
    then have "card (dom (ecalls d)) < card (dom (ecalls e))"
      using t less.prems(2) by (intro psubset_card_mono psubsetI) blast+
    from less.hyps [OF this eph_progress_path_inv [OF d(1) less.prems(1)]] sub less.prems(2) d(1)
    show ?thesis by (meson finite_Diff finite_subset rtranclp_trans)
  qed blast
qed

text \<open>The child of an entry that nobody holds any more is shut down after its last call.\<close>

lemma eph_released:
  assumes "eph_inv e" and "finite (dom (ecalls e))" and "handle_refs e = 0"
  shows "\<exists>e'. eph_progress\<^sup>*\<^sup>* e e' \<and> ecalls e' = Map.empty \<and> \<not> token_held e'"
proof -
  obtain d where d: "eph_progress\<^sup>*\<^sup>* e d" "ecalls d = Map.empty" using eph_calls_end [OF assms(1,2)] by blast
  have "eph_token_ok d" "handle_refs d = 0"
    using eph_progress_path_inv [OF d(1) assms(1)] eph_progress_path_frame [OF d(1)] assms(3) by (simp_all add: eph_inv_def)
  from eph_ends [OF this d(2)] obtain e' where e': "eph_progress\<^sup>*\<^sup>* d e'" "\<not> token_held e'" by blast
  moreover have "ecalls e' = Map.empty" using eph_progress_path_frame [OF e'(1)] d(2) by auto
  ultimately show ?thesis using d(1) by (meson rtranclp_trans)
qed

section \<open>Steps of the background\<close>

abbreviation later :: "Bridge \<Rightarrow> Bridge \<Rightarrow> bool" where
  "later \<equiv> background_step\<^sup>*\<^sup>*"

abbreviation reachable :: "Bridge \<Rightarrow> bool" where
  "reachable \<equiv> runs bridge_init bridge_step"

lemma reachable_later: "later s s' \<Longrightarrow> reachable s \<Longrightarrow> reachable s'"
  by (induction rule: rtranclp_induct) (auto intro: runs_step sys_background)

lemma later_steps: "later s s' \<Longrightarrow> bridge_step\<^sup>*\<^sup>* s s'"
  using rtranclp_mono [of background_step bridge_step] by (auto intro: sys_background)

lemma reachable_safe: "reachable s \<Longrightarrow> safe (s, {}) s"
  using br.runs_inv by (simp add: safe_def bridge_inv_def)

lemma reachable_parts:
  assumes "reachable s"
  shows "runtimes s a = Some x \<Longrightarrow> runtime_inv (requests x) \<and> quiet (requests x)"
    and "servers s v = Some y \<Longrightarrow> eph_inv (sentry y) \<and> finite (dom (ecalls (sentry y)))"
    and "workers s w = Some z \<Longrightarrow> worker_inv (wentry z)"
proof -
  assume "runtimes s a = Some x"
  then show "runtime_inv (requests x) \<and> quiet (requests x)"
    using request_tables.member_runs [OF assms, of a] rt.runs_inv safe_quiet [OF reachable_safe [OF assms]]
    by (simp add: request_pool_def)
next
  assume y: "servers s v = Some y"
  have "finite (dom (ecalls (sentry y)))"
    using safe_ids(3) [OF reachable_safe [OF assms] y] by (rule finite_subset) simp
  then show "eph_inv (sentry y) \<and> finite (dom (ecalls (sentry y)))"
    using y server_objects.member_runs [OF assms, of v] eph.runs_inv by (simp add: server_pool_def)
next
  assume "workers s w = Some z"
  then show "worker_inv (wentry z)"
    using worker_objects.member_runs [OF assms, of w] wk.runs_inv by (simp add: worker_pool_def)
qed

lemma put_server_same: "servers s v = Some x \<Longrightarrow> put_server v x s = s"
  by (cases s) (simp add: put_server_def fun_upd_idem)

lemma put_server_twice [simp]: "put_server v y (put_server v x s) = put_server v y s"
  by (simp add: put_server_def)

lemma put_server_frame [simp]:
  "frees (put_server v x s) = frees s" "runtimes (put_server v x s) = runtimes s" "stopping (put_server v x s) = stopping s"
  "workers (put_server v x s) = workers s" "ops (put_server v x s) = ops s" "handles (put_server v x s) = handles s"
  "servers (put_server v x s) = (servers s)(v \<mapsto> x)"
  by (simp_all add: put_server_def)

lemma server_path:
  assumes "servers s v = Some x" and "eph_progress\<^sup>*\<^sup>* (sentry x) e"
  shows "later s (put_server v (x\<lparr>sentry := e\<rparr>) s)"
  using assms(2)
proof (induction rule: rtranclp_induct)
  case base
  then show ?case using put_server_same [OF assms(1)] by simp
next
  case (step d e)
  have "background_step (put_server v (x\<lparr>sentry := d\<rparr>) s) (put_server v (x\<lparr>sentry := e\<rparr>) s)"
    using sys_server [of "put_server v (x\<lparr>sentry := d\<rparr>) s" v "x\<lparr>sentry := d\<rparr>" e] step.hyps(2) by simp
  with step.IH show ?case by (rule rtranclp.rtrancl_into_rtrancl)
qed

text \<open>A thread that waits for a server's mutex gets it.\<close>

lemma server_gets_idle:
  assumes "reachable s" and x: "servers s v = Some x"
  shows "\<exists>e. later s (put_server v (x\<lparr>sentry := e\<rparr>) s) \<and> server_idle (put_server v (x\<lparr>sentry := e\<rparr>) s) v \<and>
    handle_refs e = handle_refs (sentry x)"
proof -
  have "eph_lock_ok (sentry x)" using reachable_parts(2) [OF assms] by (simp add: eph_inv_def)
  from eph_unlocks [OF this] obtain e where e: "eph_progress\<^sup>*\<^sup>* (sentry x) e" "\<forall>u. ecalls e u \<noteq> Some InShutdown" by blast
  with server_path [OF x e(1)] eph_progress_path_frame [OF e(1)] show ?thesis
    by (intro exI [of _ e]) (simp add: server_idle_def)
qed

section \<open>The children are closed\<close>

lemma update_frees [simp]:
  "frees (update_worker a f s) = frees s" "frees (update_server a g s) = frees s" "frees (put_runtime a x s) = frees s"
  "stopping (update_server a g s) = stopping s"
  by (simp_all add: update_worker_def update_server_def put_defs split: option.split)

lemma entry_frees [simp]: "frees (drop_entry e s) = frees s" "frees (Entry_close e s) = frees s"
  by (cases e; simp)+

lemma drop_op_frees [simp]: "frees (drop_op t op s) = frees s" "ops (drop_op t op s) = ops s"
  by (cases op; simp add: drop_op_def end_op_def)+

lemma drop_pending_frees [simp]: "frees (drop_pending p s) = frees s" "frees (fold drop_pending ps s) = frees s"
proof -
  show one: "frees (drop_pending p s) = frees s" for p s by (simp add: drop_pending_def split: prod.split option.split)
  show "frees (fold drop_pending ps s) = frees s" by (induction ps arbitrary: s) (simp_all add: one)
qed

text \<open>One answer of the outside: every shutdown of a child process succeeds.\<close>

definition reaping :: "env \<Rightarrow> env" where
  "reaping env = env\<lparr>env_reap := (\<lambda>_. Ok ())\<rparr>"

lemma server_shutdown_reaping:
  assumes "servers s v = Some x"
  shows "server_shutdown (reaping env) v s = (Ok None, update_server v (eph_shutdown_now (Ok ())) s)"
  using assms put_server_same [OF assms]
  by (simp add: server_shutdown_def reaping_def deref_def call_defs update_server_def eph_shutdown_now_def)

lemma free_child_reaping:
  assumes "\<And>v. c = Ephemeral v \<Longrightarrow> servers s v \<noteq> None"
  shows "\<exists>s'. free_child (reaping env) a c cs err s = (Ok (), s') \<and> frees s' = (frees s)(a \<mapsto> Closing cs err)"
proof (cases c)
  case (Ephemeral v)
  then obtain x where "servers (set_free a (Some (Closing cs err)) s) v = Some x" using assms by fastforce
  from server_shutdown_reaping [OF this] show ?thesis
    by (simp add: free_child_def Ephemeral call_defs get_or_insert_def split: option.split)
qed (simp_all add: free_child_def call_defs give_def get_or_insert_def split: option.split)

lemma children_close:
  assumes "reachable s" and "frees s a = Some (Closing cs err)"
  shows "\<exists>s'. later s s' \<and> frees s' a = Some (Closing [] err)"
  using assms
proof (induction cs arbitrary: s)
  case (Cons c cs)
  have "claimed s c" using Cons.prems(2) unfolding claimed_def by force
  then have live: "entry_live s c" using safe_claimed [OF reachable_safe [OF Cons.prems(1)]] by blast
  obtain s1 where s1: "later s s1" "frees s1 = frees s" "\<And>v. c = Ephemeral v \<Longrightarrow> server_idle s1 v \<and> servers s1 v \<noteq> None"
  proof (cases c)
    case (Ephemeral v)
    then obtain x where x: "servers s v = Some x" using live by auto
    from server_gets_idle [OF Cons.prems(1) x] show ?thesis using that Ephemeral by force
  qed (use that in auto)
  obtain s2 where s2: "free_child (reaping undefined) a c cs err s1 = (Ok (), s2)" "frees s2 = (frees s1)(a \<mapsto> Closing cs err)"
    using free_child_reaping [of c s1] s1(3) by blast
  have "background_step s1 s2"
    by (rule sys_free_child [OF _ _ s2(1)]) (use Cons.prems(2) s1 in auto)
  then have l: "later s s2" using s1(1) by (rule rtranclp.rtrancl_into_rtrancl [rotated])
  have "\<exists>s'. later s2 s' \<and> frees s' a = Some (Closing [] err)"
    by (rule Cons.IH [OF reachable_later [OF l Cons.prems(1)]]) (simp add: s2(2))
  with l show ?case by (meson rtranclp_trans)
qed auto

section \<open>The tasks end\<close>

lemma free_drains:
  assumes "reachable s" and "frees s a = Some (Closing [] err)"
  shows "\<exists>s'. later s s' \<and> frees s' a = Some (TaskWait err)"
proof -
  obtain x where x: "runtimes s a = Some x" using safe_freed(2) [OF reachable_safe [OF assms(1)] assms(2)] by blast
  have "finite (dom (pending (requests x)))"
    using reachable_parts(1) [OF assms(1) x] by (simp add: runtime_inv_def balanced_def)
  then obtain ds where "drain_order (pending (requests x)) ds" using drain_order_exists by blast
  from sys_free_drain [OF assms(2) x this] have "background_step s (free_drain ds a err s)" .
  moreover have "frees (free_drain ds a err s) a = Some (TaskWait err)" using x by (simp add: free_drain_def)
  ultimately show ?thesis by blast
qed

text \<open>
  A shutdown of a worker that is not at an await gets there by itself, by steps that start no background
  task (\<open>own_progress\<close>).
\<close>

lemma finalize_awaits:
  assumes "shutdowns e t = Some FinalizeCall"
  shows "\<exists>e'. own_progress e e' \<and> awaiting (shutdowns e' t)"
  using finalize_begins [OF assms] assms
  by (intro exI [of _ "go t Unwrapping (e\<lparr>wstate := Finalized\<rparr>)"]) (auto simp: own_progress_def go_def awaiting_def)

lemma shutdown_awaits:
  assumes "\<not> in_background (shutdowns e t)"
  shows "\<exists>e'. own_progress\<^sup>*\<^sup>* e e' \<and> awaiting (shutdowns e' t)"
proof (cases "shutdowns e t")
  case (Some pc)
  show ?thesis
  proof (cases pc)
    case (Taken started)
    then have "own_progress e (shutdown_initiate t started e)" using shutdown_initiated [of e t started] Some
      by (auto simp: own_progress_def shutdown_initiate_def go_def return_ok_def split: if_splits)
    moreover have "awaiting (shutdowns (shutdown_initiate t started e) t)"
      by (simp add: shutdown_initiate_def go_def return_ok_def awaiting_def)
    ultimately show ?thesis by blast
  next
    case PumpsEnded
    show ?thesis
    proof (cases "wstate e = Finalized")
      case True
      then have "own_progress e (return_ok t e)" using shutdown_already_freed [of e t] Some PumpsEnded
        by (auto simp: own_progress_def return_ok_def)
      moreover have "awaiting (shutdowns (return_ok t e) t)" by (simp add: return_ok_def awaiting_def)
      ultimately show ?thesis by blast
    next
      case False
      then have "own_progress e (go t FinalizeCall e)" using shutdown_finalizes [of e t] Some PumpsEnded
        by (auto simp: own_progress_def go_def)
      moreover obtain d where "own_progress (go t FinalizeCall e) d" "awaiting (shutdowns d t)"
        using finalize_awaits [of "go t FinalizeCall e" t] by (auto simp: go_def)
      ultimately show ?thesis by (meson converse_rtranclp_into_rtranclp r_into_rtranclp)
    qed
  next
    case FinalizeCall
    then show ?thesis using finalize_awaits Some by blast
  qed (use Some assms in \<open>auto simp: awaiting_def\<close>)
qed (auto simp: awaiting_def)

lemma worker_path:
  assumes "workers s w = Some x" and "own_progress\<^sup>*\<^sup>* (wentry x) e"
  shows "\<exists>n. later s (put_worker w (x\<lparr>wentry := e\<rparr>) (s\<lparr>next_id := n\<rparr>))"
  using assms(2)
proof (induction rule: rtranclp_induct)
  case base
  have "put_worker w (x\<lparr>wentry := wentry x\<rparr>) (s\<lparr>next_id := next_id s\<rparr>) = s"
    using assms(1) by (cases s) (simp add: put_worker_def fun_upd_idem)
  then show ?case by (metis rtranclp.rtrancl_refl)
next
  case (step d e)
  then obtain n where n: "later s (put_worker w (x\<lparr>wentry := d\<rparr>) (s\<lparr>next_id := n\<rparr>))" by blast
  have "background_step (put_worker w (x\<lparr>wentry := d\<rparr>) (s\<lparr>next_id := n\<rparr>)) (put_worker w (x\<lparr>wentry := e\<rparr>) (s\<lparr>next_id := n + 1\<rparr>))"
    using sys_shutdown [of "put_worker w (x\<lparr>wentry := d\<rparr>) (s\<lparr>next_id := n\<rparr>)" w "x\<lparr>wentry := d\<rparr>" e] step.hyps(2)
    by (simp add: own_progress_def put_worker_def subset_insertI2)
  with n show ?case by (meson rtranclp.rtrancl_into_rtrancl)
qed

lemma op_gets_to_await:
  assumes "reachable s" and op: "ops s t = Some (a, op)"
  shows "\<exists>s'. later s s' \<and> at_await t op s' \<and> runtimes s' = runtimes s \<and> frees s' = frees s \<and> ops s' = ops s"
proof (cases "\<exists>w g x. op = StopWorker w g \<and> workers s w = Some x")
  case True
  then obtain w g x where w: "op = StopWorker w g" "workers s w = Some x" by blast
  have "\<not> in_background (shutdowns (wentry x) t)"
    using reachable_safe [OF assms(1)] op w unfolding safe_def bridge_inv_in_def ops_ok_def by blast
  from shutdown_awaits [OF this] obtain e where e: "own_progress\<^sup>*\<^sup>* (wentry x) e" "awaiting (shutdowns e t)" by blast
  from worker_path [OF w(2) e(1)] obtain n where "later s (put_worker w (x\<lparr>wentry := e\<rparr>) (s\<lparr>next_id := n\<rparr>))" ..
  with e(2) w(1) show ?thesis
    by (intro exI [of _ "put_worker w (x\<lparr>wentry := e\<rparr>) (s\<lparr>next_id := n\<rparr>)"]) (simp add: at_await_def put_worker_def)
next
  case False
  then have "at_await t op s" by (cases op) (auto simp: at_await_def split: option.split)
  then show ?thesis by blast
qed

text \<open>One task of a runtime whose requests were drained: it is cancelled, and so it ends.\<close>

lemma closed_task_cancelled:
  assumes "runtime_inv e" and "rclosed e" and "quiet e" and "tasks e t = Some (r, Spawned)"
  shows "t \<in> cancelled e"
proof -
  have "pending e = Map.empty" "to_drain e = []"
    using assms(1-3) by (simp_all add: runtime_inv_def shut_def quiet_def to_drain_def)
  then show ?thesis using assms(1,4) by (fastforce simp: runtime_inv_def reachable_or_cancelled_def)
qed

lemma retire_op_frame:
  assumes "runtimes s a = Some x" and "tasks (requests x) t = Some (r, Resolved p)"
  shows "frees (retire_op a t r p s) = frees s"
    and "\<exists>y. runtimes (retire_op a t r p s) a = Some y \<and> tasks (requests y) = (tasks (requests x))(t \<mapsto> (r, Finished))"
  using assms by (simp_all add: retire_op_def Let_def put_runtime_def)

lemma task_ends:
  assumes s: "reachable s" and f: "frees s a = Some (TaskWait err)" and x: "runtimes s a = Some x"
    and t: "t \<in> unfinished (requests x)"
  shows "\<exists>s' y. later s s' \<and> frees s' = frees s \<and> runtimes s' a = Some y \<and> unfinished (requests y) = unfinished (requests x) - {t}"
proof -
  note parts = reachable_parts(1) [OF s x]
  have closed: "rclosed (requests x)" using safe_freed(2) [OF reachable_safe [OF s] f] x by simp
  have retire: "\<exists>s' y. later s1 s' \<and> frees s' = frees s1 \<and> runtimes s' a = Some y \<and> tasks (requests y) = (tasks (requests z))(t \<mapsto> (r, Finished))"
    if "runtimes s1 a = Some z" "tasks (requests z) t = Some (r, Resolved p)" for s1 z r p
    using sys_retire [OF that] retire_op_frame [OF that] by blast
  have gone: "unfinished y = unfinished (requests x) - {t}" if "tasks y = (tasks (requests x))(t \<mapsto> (r, Finished))" for y r
    using that by (auto simp: unfinished_def split: if_splits)
  obtain r ph where ph: "tasks (requests x) t = Some (r, ph)" "ph \<noteq> Finished" using t by (auto simp: unfinished_def)
  have "at_rest ph" using parts ph(1) by (simp add: quiet_def)
  with ph(2) consider p where "ph = Resolved p" | "ph = Spawned" by (cases ph) auto
  then show ?thesis
  proof cases
    case (1 p)
    then have "tasks (requests x) t = Some (r, Resolved p)" using ph(1) by simp
    from retire [OF x this] gone show ?thesis by metis
  next
    case 2
    have can: "t \<in> cancelled (requests x)" using closed_task_cancelled parts closed ph(1) 2 by blast
    obtain op where op: "ops s t = Some (a, op)"
      using reachable_safe [OF s] x ph(1) 2 unfolding safe_def bridge_inv_in_def ops_ok_def by blast
    obtain s1 where s1: "later s s1" "at_await t op s1" "runtimes s1 = runtimes s" "frees s1 = frees s" "ops s1 = ops s"
      using op_gets_to_await [OF s op] by blast
    let ?p = "cancelled_result r"
    let ?s2 = "resolve a t r ?p (drop_op t op s1)"
    let ?x2 = "x\<lparr>requests := set_phase t r Spawned (Resolved ?p) (requests x)\<rparr>"
    have "background_step s1 ?s2"
      by (rule sys_op_cancelled [where x = x]) (use s1 x ph(1) 2 can op in simp_all)
    then have l2: "later s ?s2" using s1(1) by (rule rtranclp.rtrancl_into_rtrancl [rotated])
    have r2: "runtimes ?s2 a = Some ?x2" "tasks (requests ?x2) t = Some (r, Resolved ?p)" "frees ?s2 = frees s"
      using s1 x by (simp_all add: resolve_def) (simp add: put_runtime_def)
    from retire [OF r2(1,2)] obtain s3 y where s3: "later ?s2 s3" "frees s3 = frees s" "runtimes s3 a = Some y"
      "tasks (requests y) = (tasks (requests ?x2))(t \<mapsto> (r, Finished))" using r2(3) by metis
    have "tasks (requests y) = (tasks (requests x))(t \<mapsto> (r, Finished))" using s3(4) by simp
    from gone [OF this] s3 l2 show ?thesis by (meson rtranclp_trans)
  qed
qed

lemma tasks_end:
  assumes "reachable s" and "frees s a = Some (TaskWait err)" and "runtimes s a = Some x"
  shows "\<exists>s' y. later s s' \<and> frees s' = frees s \<and> runtimes s' a = Some y \<and> tracker (requests y) = 0"
  using assms
proof (induction "card (unfinished (requests x))" arbitrary: s x rule: less_induct)
  case less
  note inv = conjunct1 [OF reachable_parts(1) [OF less.prems(1,3)]]
  show ?case
  proof (cases "unfinished (requests x) = {}")
    case True
    then have "tracker (requests x) = 0" using tracker_zero_iff [OF inv] by (auto simp: unfinished_def)
    with less.prems show ?thesis by blast
  next
    case False
    then obtain t where t: "t \<in> unfinished (requests x)" by blast
    from task_ends [OF less.prems t] obtain s1 y where s1: "later s s1" "frees s1 = frees s" "runtimes s1 a = Some y"
      "unfinished (requests y) = unfinished (requests x) - {t}" by blast
    have "unfinished (requests x) \<subseteq> dom (tasks (requests x))" by (auto simp: unfinished_def)
    then have "finite (unfinished (requests x))"
      using inv by (auto simp: runtime_inv_def tracked_all_def intro: finite_subset)
    then have "card (unfinished (requests y)) < card (unfinished (requests x))" unfolding s1(4) using t by (rule card_Diff1_less)
    from less.hyps [OF this reachable_later [OF s1(1) less.prems(1)] _ s1(3)] s1(1,2) less.prems(2)
    show ?thesis by (metis rtranclp_trans)
  qed
qed

section \<open>A cancelled request is answered\<close>

text \<open>The last step of a request whose runtime is open: its result becomes the next answer.\<close>

lemma retire_answers:
  assumes s: "reachable s" and x: "runtimes s a = Some x" and pend: "pending (requests x) r = Some t"
    and t: "tasks (requests x) t = Some (r, Resolved p)"
  shows "\<exists>s' y. later s s' \<and> runtimes s' a = Some y \<and> answered (requests y) = answered (requests x) @ [p] \<and>
    queue (rqueue (requests y)) = queue (rqueue (requests x)) @ [p] \<and>
    pending (requests y) = (pending (requests x))(r := None) \<and> tasks (requests y) t = Some (r, Finished)"
proof -
  have inv: "runtime_inv (requests x)" using reachable_parts(1) [OF s x] by blast
  then have "\<not> closed (rqueue (requests x))" using pend by (auto simp: runtime_inv_def shut_def)
  then have "\<exists>y. runtimes (retire_op a t r p s) a = Some y \<and> answered (requests y) = answered (requests x) @ [p] \<and>
      queue (rqueue (requests y)) = queue (rqueue (requests x)) @ [p] \<and>
      pending (requests y) = (pending (requests x))(r := None) \<and> tasks (requests y) t = Some (r, Finished)"
    using x pend
    by (simp add: retire_op_def Let_def put_runtime_def finish_request_def retire_def answer_def Sender_push_def set_phase_def)
  with sys_retire [OF x t] show ?thesis by blast
qed

lemma cancelled_request_answered:
  assumes s: "reachable s" and x: "runtimes s a = Some x" and pend: "pending (requests x) r = Some t"
    and can: "t \<in> cancelled (requests x)"
  shows "\<exists>s' y p. later s s' \<and> runtimes s' a = Some y \<and> req_id p = r \<and>
    (tasks (requests x) t = Some (r, Spawned) \<longrightarrow> p = cancelled_result r) \<and>
    answered (requests y) = answered (requests x) @ [p] \<and> queue (rqueue (requests y)) = queue (rqueue (requests x)) @ [p] \<and>
    pending (requests y) = (pending (requests x))(r := None) \<and> tasks (requests y) t = Some (r, Finished)"
proof -
  note inv = conjunct1 [OF reachable_parts(1) [OF s x]]
  obtain ph where ph: "tasks (requests x) t = Some (r, ph)" "active ph"
    using inv pend unfolding runtime_inv_def owned_def by blast
  have "at_rest ph" using reachable_parts(1) [OF s x] ph(1) by (simp add: quiet_def)
  with ph(2) consider p where "ph = Resolved p" | "ph = Spawned" by (cases ph) auto
  then show ?thesis
  proof cases
    case (1 p)
    then have p: "req_id p = r" using inv ph(1) unfolding runtime_inv_def owned_def by blast
    from retire_answers [OF s x pend] ph(1) 1 obtain s' y where "later s s'" "runtimes s' a = Some y"
      "answered (requests y) = answered (requests x) @ [p]" "queue (rqueue (requests y)) = queue (rqueue (requests x)) @ [p]"
      "pending (requests y) = (pending (requests x))(r := None)" "tasks (requests y) t = Some (r, Finished)" by blast
    with p ph(1) 1 show ?thesis by (intro exI [of _ s'] exI [of _ y] exI [of _ p]) simp
  next
    case 2
    let ?p = "cancelled_result r"
    obtain op where op: "ops s t = Some (a, op)"
      using reachable_safe [OF s] x ph(1) 2 unfolding safe_def bridge_inv_in_def ops_ok_def by blast
    obtain s1 where s1: "later s s1" "at_await t op s1" "runtimes s1 = runtimes s" "ops s1 = ops s"
      using op_gets_to_await [OF s op] by blast
    let ?s2 = "resolve a t r ?p (drop_op t op s1)"
    let ?x2 = "x\<lparr>requests := set_phase t r Spawned (Resolved ?p) (requests x)\<rparr>"
    have "background_step s1 ?s2"
      by (rule sys_op_cancelled [where x = x]) (use s1 x ph(1) 2 can op in simp_all)
    then have l2: "later s ?s2" using s1(1) by (rule rtranclp.rtrancl_into_rtrancl [rotated])
    have r2: "runtimes ?s2 a = Some ?x2" "pending (requests ?x2) r = Some t" "tasks (requests ?x2) t = Some (r, Resolved ?p)"
      using s1 x pend by (simp_all add: resolve_def) (simp_all add: put_runtime_def set_phase_def)
    from retire_answers [OF reachable_later [OF l2 s] r2] obtain s' y where "later ?s2 s'" "runtimes s' a = Some y"
      "answered (requests y) = answered (requests ?x2) @ [?p]" "queue (rqueue (requests y)) = queue (rqueue (requests ?x2)) @ [?p]"
      "pending (requests y) = (pending (requests ?x2))(r := None)" "tasks (requests y) t = Some (r, Finished)" by blast
    with l2 show ?thesis
      by (intro exI [of _ s'] exI [of _ y] exI [of _ ?p]) (auto intro: rtranclp_trans simp: set_phase_def)
  qed
qed

section \<open>The servers are shut down\<close>

text \<open>The servers of a runtime whose thread waits: only a thread in \<^verbatim>\<open>kt_ephemeral_free\<close> may still have one.\<close>

lemma held_server_stopping:
  assumes "reachable s" and "frees s a = Some (TaskWait err)" and "servers s v = Some x" and "sruntime x = a"
    and "handle_refs (sentry x) \<noteq> 0"
  shows "v \<in> stopping s"
proof -
  note s = reachable_safe [OF assms(1)]
  have "kept s v a" using safe_kept [OF s assms(3,5)] assms(4) by simp
  then show ?thesis using safe_freed(1) [OF s assms(2)] assms(2) by (auto simp: kept_def unnamed_def)
qed

text \<open>Only the servers of the runtime change, and none of them is new.\<close>

definition servers_moved :: "arc \<Rightarrow> Bridge \<Rightarrow> Bridge \<Rightarrow> bool" where
  "servers_moved v s s' \<longleftrightarrow> runtimes s' = runtimes s \<and> frees s' = frees s \<and>
     (\<forall>w. w \<noteq> v \<longrightarrow> servers s' w = servers s w) \<and> map_option sruntime (servers s' v) = map_option sruntime (servers s v)"

lemma servers_moved_trans: "servers_moved v s s' \<Longrightarrow> servers_moved v s' s'' \<Longrightarrow> servers_moved v s s''"
  by (simp add: servers_moved_def)

lemma servers_moved_put: "servers s v = Some x \<Longrightarrow> servers_moved v s (put_server v (x\<lparr>sentry := e\<rparr>) s)"
  by (simp add: servers_moved_def)

text \<open>The thread in \<^verbatim>\<open>kt_ephemeral_free\<close> comes back and drops its reference.\<close>

lemma stopping_server_freed:
  assumes s: "reachable s" and v: "v \<in> stopping s"
  shows "\<exists>s' y. later s s' \<and> servers_moved v s s' \<and> servers s' v = Some y \<and> handle_refs (sentry y) = 0"
proof -
  have "claimed s (Ephemeral v)" using v unfolding claimed_def by blast
  then obtain x where x: "servers s v = Some x" "handle_refs (sentry x) = 1"
    using safe_claimed(1) [OF reachable_safe [OF s]] by fastforce
  from server_gets_idle [OF s x(1)] x(2) obtain e where
    e: "later s (put_server v (x\<lparr>sentry := e\<rparr>) s)" "server_idle (put_server v (x\<lparr>sentry := e\<rparr>) s) v" "handle_refs e = 1" by auto
  let ?s1 = "put_server v (x\<lparr>sentry := e\<rparr>) s"
  let ?y = "x\<lparr>sentry := (eph_shutdown_now (Ok ()) e)\<lparr>handle_refs := 0\<rparr>\<rparr>"
  let ?s2 = "put_server v ?y (s\<lparr>stopping := stopping s - {v}\<rparr>)"
  have refs: "handle_refs (eph_shutdown_now (Ok ()) e) = 1" using e(3) by (simp add: eph_shutdown_now_def)
  have eq: "(put_server v y s)\<lparr>stopping := vs\<rparr> = put_server v y (s\<lparr>stopping := vs\<rparr>)" for y vs
    by (simp add: put_server_def)
  have "server_free_end (reaping undefined) v ?s1 = (Ok (), ?s2)"
    unfolding server_free_end_def
    using server_shutdown_reaping [of "put_server v (x\<lparr>sentry := e\<rparr>) (s\<lparr>stopping := stopping s - {v}\<rparr>)" v "x\<lparr>sentry := e\<rparr>"] refs
    by (simp add: call_defs eq) (simp add: update_server_def)
  from sys_server_free [OF _ e(2) this] v have "background_step ?s1 ?s2" by simp
  with e(1) have "later s ?s2" by (rule rtranclp.rtrancl_into_rtrancl)
  moreover have "servers_moved v s ?s2" using x(1) by (simp add: servers_moved_def)
  moreover have "servers ?s2 v = Some ?y" "handle_refs (sentry ?y) = 0" by simp_all
  ultimately show ?thesis by blast
qed

lemma server_released_later:
  assumes s: "reachable s" and f: "frees s a = Some (TaskWait err)" and x: "servers s v = Some x" and a: "sruntime x = a"
  shows "\<exists>s' y. later s s' \<and> servers_moved v s s' \<and> servers s' v = Some y \<and> server_released y"
proof -
  obtain s1 y where s1: "later s s1" "servers_moved v s s1" "servers s1 v = Some y" "handle_refs (sentry y) = 0"
  proof (cases "handle_refs (sentry x) = 0")
    case True
    then show ?thesis using that [of s x] x by (simp add: servers_moved_def)
  next
    case False
    from stopping_server_freed [OF s held_server_stopping [OF s f x a False]] that show ?thesis by blast
  qed
  have "eph_inv (sentry y) \<and> finite (dom (ecalls (sentry y)))" using reachable_parts(2) [OF reachable_later [OF s1(1) s] s1(3)] .
  then obtain e where e: "eph_progress\<^sup>*\<^sup>* (sentry y) e" "ecalls e = Map.empty" "\<not> token_held e"
    using eph_released s1(4) by blast
  let ?s2 = "put_server v (y\<lparr>sentry := e\<rparr>) s1"
  have "later s ?s2" using s1(1) server_path [OF s1(3) e(1)] by (rule rtranclp_trans)
  moreover have "servers_moved v s ?s2" using servers_moved_trans [OF s1(2) servers_moved_put [OF s1(3)]] .
  moreover have "servers ?s2 v = Some (y\<lparr>sentry := e\<rparr>)" "server_released (y\<lparr>sentry := e\<rparr>)"
    using e(2,3) by (simp_all add: server_released_def)
  ultimately show ?thesis by blast
qed

definition unreleased :: "arc \<Rightarrow> Bridge \<Rightarrow> arc set" where
  "unreleased a s = {v. \<exists>x. servers s v = Some x \<and> sruntime x = a \<and> \<not> server_released x}"

lemma finite_unreleased: "reachable s \<Longrightarrow> finite (unreleased a s)"
proof -
  assume "reachable s"
  then have "\<forall>v \<ge> next_id s. servers s v = None"
    using reachable_safe unfolding safe_def bridge_inv_in_def ids_fresh_def by blast
  then have "unreleased a s \<subseteq> {..<next_id s}" unfolding unreleased_def by (auto simp: not_less [symmetric])
  then show ?thesis by (rule finite_subset) simp
qed

lemma servers_end:
  assumes "reachable s" and "frees s a = Some (TaskWait err)"
  shows "\<exists>s'. later s s' \<and> frees s' = frees s \<and> runtimes s' = runtimes s \<and> unreleased a s' = {}"
  using assms
proof (induction "card (unreleased a s)" arbitrary: s rule: less_induct)
  case less
  show ?case
  proof (cases "unreleased a s = {}")
    case False
    then obtain v x where v: "v \<in> unreleased a s" "servers s v = Some x" "sruntime x = a" by (auto simp: unreleased_def)
    from server_released_later [OF less.prems v(2,3)] obtain s1 y where
      s1: "later s s1" "servers_moved v s s1" "servers s1 v = Some y" "server_released y" by blast
    have sub: "unreleased a s1 \<subseteq> unreleased a s - {v}"
    proof
      fix w
      assume "w \<in> unreleased a s1"
      then show "w \<in> unreleased a s - {v}" using s1(2-4) unfolding unreleased_def servers_moved_def by (cases "w = v") auto
    qed
    have "card (unreleased a s1) < card (unreleased a s)"
      using sub v(1) finite_unreleased [OF less.prems(1)] by (meson card_mono card_Diff1_less finite_Diff le_less_trans)
    moreover have "frees s1 = frees s" "runtimes s1 = runtimes s" using s1(2) by (simp_all add: servers_moved_def)
    ultimately show ?thesis
      using less.hyps [OF _ reachable_later [OF s1(1) less.prems(1)]] less.prems(2) s1(1) by (metis rtranclp_trans)
  qed auto
qed

section \<open>The call returns\<close>

lemma runtime_free_reaches_return:
  assumes "reachable s" and "frees s a = Some pc"
  shows "\<exists>s' err. later s s' \<and> frees s' a = Some (TaskWait err) \<and> tracker_empty a s'"
proof -
  obtain s1 err where 1: "later s s1" "frees s1 a = Some (TaskWait err)"
  proof (cases pc)
    case (Closing cs err)
    obtain s' where s': "later s s'" "frees s' a = Some (Closing [] err)" using children_close assms Closing by blast
    obtain s'' where "later s' s''" "frees s'' a = Some (TaskWait err)"
      using free_drains [OF reachable_later [OF s'(1) assms(1)] s'(2)] by blast
    with s'(1) show ?thesis using that by (meson rtranclp_trans)
  qed (use assms that in blast)
  note r1 = reachable_later [OF 1(1) assms(1)]
  obtain x where x: "runtimes s1 a = Some x" using safe_freed(2) [OF reachable_safe [OF r1] 1(2)] by blast
  obtain s2 y where 2: "later s1 s2" "frees s2 = frees s1" "runtimes s2 a = Some y" "tracker (requests y) = 0"
    using tasks_end [OF r1 1(2) x] by blast
  have f2: "frees s2 a = Some (TaskWait err)" using 1(2) 2(2) by simp
  obtain s3 where 3: "later s2 s3" "frees s3 = frees s2" "runtimes s3 = runtimes s2" "unreleased a s3 = {}"
    using servers_end [OF reachable_later [OF 2(1) r1] f2] by blast
  have "tracker_empty a s3" using 2(3,4) 3(3,4) by (auto simp: tracker_empty_def unreleased_def)
  moreover have "later s s3" using 1(1) 2(1) 3(1) by (meson rtranclp_trans)
  ultimately show ?thesis using f2 3(2) by auto
qed

text \<open>What the wait for the tracker means for the requests and for the servers of the runtime.\<close>

lemma waited_requests:
  assumes "reachable s" and "frees s a = Some (TaskWait err)" and "tracker_empty a s"
  shows "\<exists>x. runtimes s a = Some x \<and> pending (requests x) = Map.empty \<and> closed (rqueue (requests x)) \<and>
    mset (admitted (requests x)) = image_mset req_id (mset (answered (requests x))) \<and>
    (\<forall>t q ph. tasks (requests x) t = Some (q, ph) \<longrightarrow> ph = Finished)"
proof -
  obtain x where x: "runtimes s a = Some x" "rclosed (requests x)"
    using safe_freed(2) [OF reachable_safe [OF assms(1)] assms(2)] by auto
  note parts = reachable_parts(1) [OF assms(1) x(1)]
  have "tracker (requests x) = 0" using assms(3) x(1) by (simp add: tracker_empty_def)
  then have "\<forall>t q ph. tasks (requests x) t = Some (q, ph) \<longrightarrow> ph = Finished" using tracker_zero_iff parts by blast
  moreover have "to_drain (requests x) = []" using parts by (simp add: quiet_def to_drain_def)
  ultimately show ?thesis using parts x by (simp add: runtime_inv_def shut_def quiet_def balanced_def)
qed

lemma waited_server:
  assumes "reachable s" and "frees s a = Some (TaskWait err)" and "tracker_empty a s"
    and y: "servers s v = Some y" "sruntime y = a"
  shows "(\<exists>q. shutdown_results (sentry y) = [q]) \<and> ecalls (sentry y) = Map.empty \<and> (\<forall>h. get_ephemeral (handles s) h \<noteq> Ok v)"
proof -
  note s = reachable_safe [OF assms(1)]
  have "server_released y" using assms(3) y by (simp add: tracker_empty_def)
  then have "length (shutdown_results (sentry y)) = 1" "ecalls (sentry y) = Map.empty"
    using reachable_parts(2) [OF assms(1) y(1)] by (simp_all add: server_released_def eph_inv_def eph_token_ok_def)
  then have "\<exists>q. shutdown_results (sentry y) = [q]" "ecalls (sentry y) = Map.empty" by (auto simp: length_Suc_conv)
  moreover have "get_ephemeral (handles s) h \<noteq> Ok v" for h
  proof
    assume "get_ephemeral (handles s) h = Ok v"
    then obtain own where l: "lookup_handle (handles s) h = Some (own, Ephemeral v)" using getters_lookup(4) by blast
    then have "handle_refs (sentry y) \<noteq> 0" using safe_live [OF s l] y(1) by simp
    then have "v \<in> stopping s" by (rule held_server_stopping [OF assms(1,2) y])
    then show False using safe_named(1) [OF s l] unfolding claimed_def by blast
  qed
  ultimately show ?thesis by blast
qed

section \<open>The call on its own\<close>

text \<open>
  \<^verbatim>\<open>kt_runtime_free\<close> as one function, with the tasks it waits for in between, is one of the schedules of its steps,
  when no server it closes is in a shutdown and every operation is at an await.
\<close>

definition calm :: "Bridge \<Rightarrow> bool" where
  "calm s \<longleftrightarrow> (\<forall>t b op. ops s t = Some (b, op) \<longrightarrow> at_await t op s)"

definition calls_kept :: "Bridge \<Rightarrow> Bridge \<Rightarrow> bool" where
  "calls_kept s s' \<longleftrightarrow> ops s' = ops s \<and> (\<forall>w y. workers s' w = Some y \<longrightarrow>
     (\<exists>x. workers s w = Some x \<and> (\<forall>t. shutdowns (wentry y) t = shutdowns (wentry x) t \<or> shutdowns (wentry y) t = None)))"

lemma calm_kept: "calm s \<Longrightarrow> calls_kept s s' \<Longrightarrow> calm s'"
proof -
  assume "calm s" and k: "calls_kept s s'"
  have "at_await t op s'" if a: "at_await t op s" for t op
  proof (cases op)
    case (StopWorker w g)
    show ?thesis
    proof (cases "workers s' w")
      case (Some y)
      then obtain x where "workers s w = Some x" "shutdowns (wentry y) t = shutdowns (wentry x) t \<or> shutdowns (wentry y) t = None"
        using k unfolding calls_kept_def by blast
      then show ?thesis using a StopWorker Some by (auto simp: at_await_def awaiting_def)
    qed (simp add: at_await_def StopWorker)
  qed (simp_all add: at_await_def)
  with \<open>calm s\<close> k show ?thesis by (simp add: calm_def calls_kept_def)
qed

lemma calls_kept_trans: "calls_kept s s' \<Longrightarrow> calls_kept s' s'' \<Longrightarrow> calls_kept s s''"
  unfolding calls_kept_def by (metis (no_types, lifting))

lemma calls_kept_same: "ops s' = ops s \<Longrightarrow> workers s' = workers s \<Longrightarrow> calls_kept s s'"
  by (simp add: calls_kept_def)

lemma calls_kept_worker:
  "(\<And>e t. shutdowns (f e) t = shutdowns e t \<or> shutdowns (f e) t = None) \<Longrightarrow> calls_kept s (update_worker w f s)"
  by (auto simp: calls_kept_def update_worker_def put_worker_def split: option.split)

lemma update_server_workers [simp]: "workers (update_server a g s) = workers s"
  by (simp add: update_server_def put_server_def split: option.split)

lemma calls_kept_close: "calls_kept s (drop_entry e (Entry_close e s))"
  by (cases e) (auto intro: calls_kept_same calls_kept_worker simp: worker_free_def)

lemma calls_kept_drop_op: "calls_kept s (drop_op t op s)"
  by (cases op) (auto simp: drop_op_def end_op_def intro!: calls_kept_same calls_kept_worker split: if_splits)

lemma drop_entry_workers [simp]: "workers (drop_entry e s) = workers s"
  by (cases e) simp_all

lemma drop_pending_workers [simp]: "workers (fold drop_pending ps s) = workers s" "ops (fold drop_pending ps s) = ops s"
proof -
  have "workers (drop_pending p s) = workers s" "ops (drop_pending p s) = ops s" for p s
    by (simp_all add: drop_pending_def split: prod.split option.split)
  then show "workers (fold drop_pending ps s) = workers s" "ops (fold drop_pending ps s) = ops s"
    by (induction ps arbitrary: s; simp)+
qed

lemma retire_op_calls [simp]: "workers (retire_op a t r p s) = workers s" "ops (retire_op a t r p s) = ops s"
  by (simp_all add: retire_op_def Let_def put_runtime_def split: option.split)

lemma resolve_calls [simp]: "workers (resolve a t r p s) = workers s" "ops (resolve a t r p s) = ops s"
  by (simp_all add: resolve_def put_runtime_def split: option.split)

text \<open>The loop over the children.\<close>

lemma server_shutdown_frame:
  assumes "server_shutdown env v s = (r, s')"
  shows "workers s' = workers s" "ops s' = ops s" "runtimes s' = runtimes s" "\<And>w. w \<noteq> v \<Longrightarrow> servers s' w = servers s w"
    "\<nexists>e. r = Err e"
proof -
  have "(s' = s \<or> (\<exists>q. s' = update_server v (eph_shutdown_now q) s)) \<and> (\<nexists>e. r = Err e)"
    using assms by (auto simp: server_shutdown_def deref_def call_defs split: option.splits if_splits outcome.splits)
  then show "workers s' = workers s" "ops s' = ops s" "runtimes s' = runtimes s" "\<And>w. w \<noteq> v \<Longrightarrow> servers s' w = servers s w"
    "\<nexists>e. r = Err e" by auto
qed

lemma free_child_frame:
  assumes "free_child env a c cs err s = (r, s')" and "\<not> panics r"
  shows "r = Ok ()" and "calls_kept s s'" and "runtimes s' = runtimes s" and "\<And>v. c \<noteq> Ephemeral v \<Longrightarrow> servers s' v = servers s v"
    and "\<exists>err'. frees s' = (frees s)(a \<mapsto> Closing cs err')"
proof -
  let ?s1 = "set_free a (Some (Closing cs err)) s"
  obtain q s2 where q: "shutdown_child env c ?s1 = (q, s2)" by (cases "shutdown_child env c ?s1")
  have f: "workers s2 = workers s \<and> ops s2 = ops s \<and> runtimes s2 = runtimes s \<and> frees s2 = frees ?s1 \<and>
      (\<forall>v. c \<noteq> Ephemeral v \<longrightarrow> servers s2 v = servers s v) \<and> (\<nexists>e. q = Err e)"
  proof (cases c)
    case (Ephemeral v)
    then have "server_shutdown env v ?s1 = (q, s2)" using q by simp
    moreover from this have "frees s2 = frees ?s1"
      by (auto simp: server_shutdown_def deref_def call_defs split: option.splits if_splits outcome.splits)
    ultimately show ?thesis using server_shutdown_frame [of env v ?s1 q s2] Ephemeral by auto
  qed (use q in \<open>auto simp: give_def\<close>)
  then obtain m where m: "q = Ok m" using assms q by (cases q) (auto simp: free_child_def call_defs)
  let ?s3 = "set_free a (Some (Closing cs (get_or_insert err m))) s2"
  have s': "r = Ok ()" "s' = drop_entry c (Entry_close c ?s3)" using assms(1) q m by (auto simp: free_child_def call_defs)
  show "r = Ok ()" by (rule s'(1))
  have "calls_kept s ?s3" using f by (intro calls_kept_same) simp_all
  then show "calls_kept s s'" unfolding s'(2) using calls_kept_close by (rule calls_kept_trans)
  show "runtimes s' = runtimes s" "\<exists>err'. frees s' = (frees s)(a \<mapsto> Closing cs err')" using f by (auto simp: s'(2))
  show "servers s' v = servers s v" if "c \<noteq> Ephemeral v" for v
    using f that close_servers [OF that, of ?s3] by (simp add: s'(2))
qed

lemma close_children_path:
  assumes "reachable s" and "frees s a = Some (Closing cs err)" and "calm s" and "\<forall>c \<in> set cs. idle s c"
    and "close_children env a cs s = (r, s')" and "\<not> panics r"
  shows "r = Ok () \<and> later s s' \<and> (\<exists>err'. frees s' a = Some (Closing [] err')) \<and> calm s' \<and> runtimes s' = runtimes s"
  using assms
proof (induction cs arbitrary: s err)
  case Nil
  then show ?case by (simp add: give_def)
next
  case (Cons c cs)
  obtain q s1 where q: "free_child env a c cs err s = (q, s1)" by (cases "free_child env a c cs err s")
  have np: "\<not> panics q" using Cons.prems(2,5,6) q by (cases q) (auto simp: call_defs)
  note f = free_child_frame [OF q np]
  have "background_step s s1"
    by (rule sys_free_child [OF Cons.prems(2) _ q [unfolded f(1)]]) (use Cons.prems(4) in \<open>simp add: idle_def\<close>)
  then have l: "later s s1" by blast
  obtain err' where e: "frees s1 a = Some (Closing cs err')" using f(5) by auto
  have "distinct (c # cs)"
    using safeD(5) [OF reachable_safe [OF Cons.prems(1)]] Cons.prems(2) unfolding claims_unique_def by fastforce
  have idle: "\<forall>d \<in> set cs. idle s1 d"
  proof
    fix d
    assume d: "d \<in> set cs"
    then have "c \<noteq> d" using \<open>distinct (c # cs)\<close> by auto
    then show "idle s1 d" using Cons.prems(4) d f(4) by (cases d) (simp_all add: idle_def server_idle_def)
  qed
  have rest: "close_children env a cs s1 = (r, s')" using Cons.prems(2,5) q f(1) by (simp add: call_defs)
  from Cons.IH [OF reachable_later [OF l Cons.prems(1)] e calm_kept [OF Cons.prems(3) f(2)] idle rest Cons.prems(6)] l f(3)
  show ?case by (auto intro: rtranclp_trans)
qed

text \<open>The tasks, in any order.\<close>

lemma settle_op_path:
  assumes s: "reachable s" and f: "frees s a = Some (TaskWait err)" and "calm s"
  shows "later s (settle_op a t s)" and "frees (settle_op a t s) = frees s" and "calm (settle_op a t s)"
proof -
  obtain x where x: "runtimes s a = Some x" and closed: "rclosed (requests x)"
    using safe_freed(2) [OF reachable_safe [OF s] f] by auto
  note parts = reachable_parts(1) [OF s x]
  have "later s (settle_op a t s) \<and> frees (settle_op a t s) = frees s \<and> calm (settle_op a t s)"
  proof (cases "\<exists>r. tasks (requests x) t = Some (r, Spawned)")
    case True
    then obtain r where t: "tasks (requests x) t = Some (r, Spawned)" ..
    have can: "t \<in> cancelled (requests x)" using closed_task_cancelled parts closed t by blast
    obtain op where op: "ops s t = Some (a, op)"
      using reachable_safe [OF s] x t unfolding safe_def bridge_inv_in_def ops_ok_def by blast
    let ?p = "cancelled_result r"
    let ?s2 = "resolve a t r ?p (drop_op t op s)"
    let ?x2 = "x\<lparr>requests := set_phase t r Spawned (Resolved ?p) (requests x)\<rparr>"
    have "background_step s ?s2"
      by (rule sys_op_cancelled [OF x t can op]) (use assms(3) op in \<open>simp add: calm_def\<close>)
    moreover have r2: "runtimes ?s2 a = Some ?x2" "tasks (requests ?x2) t = Some (r, Resolved ?p)"
      using x by (simp_all add: resolve_def) (simp add: put_runtime_def)
    moreover have "settle_op a t s = retire_op a t r ?p ?s2" using x t op by (simp add: settle_op_def)
    moreover have "calm (retire_op a t r ?p ?s2)"
      by (rule calm_kept [OF calm_kept [OF assms(3) calls_kept_drop_op]], rule calls_kept_same) simp_all
    moreover have "frees ?s2 = frees s" by (simp add: resolve_def split: option.split)
    ultimately show ?thesis using sys_retire [OF r2] retire_op_frame(1) [OF r2]
      by (auto intro: converse_rtranclp_into_rtranclp)
  next
    case False
    show ?thesis
    proof (cases "\<exists>r p. tasks (requests x) t = Some (r, Resolved p)")
      case True
      then obtain r p where t: "tasks (requests x) t = Some (r, Resolved p)" by blast
      then have eq: "settle_op a t s = retire_op a t r p s" using x by (simp add: settle_op_def)
      have "calm (retire_op a t r p s)" by (rule calm_kept [OF assms(3)], rule calls_kept_same) simp_all
      then show ?thesis unfolding eq using sys_retire [OF x t] retire_op_frame(1) [OF x t] by blast
    next
      case no: False
      then have "settle_op a t s = s" using x False
        by (cases "tasks (requests x) t") (auto simp: settle_op_def split: phase.splits)
      then show ?thesis using assms(3) by simp
    qed
  qed
  then show "later s (settle_op a t s)" "frees (settle_op a t s) = frees s" "calm (settle_op a t s)" by simp_all
qed

lemma settle_ops_path:
  assumes "reachable s" and "frees s a = Some (TaskWait err)" and "calm s"
  shows "later s (fold (settle_op a) ts s) \<and> frees (fold (settle_op a) ts s) = frees s"
  using assms
proof (induction ts arbitrary: s)
  case (Cons t ts)
  note p = settle_op_path [OF Cons.prems, of t]
  from Cons.IH [OF reachable_later [OF p(1) Cons.prems(1)] _ p(3)] p(1,2) Cons.prems(2) show ?case
    by (auto intro: rtranclp_trans)
qed simp

lemma runtime_free_path:
  assumes s: "reachable s" and g: "get_runtime (handles s) h = Ok a" and x: "runtimes s a = Some x"
    and ds: "drain_order (pending (requests x)) (env_drain_order env)"
    and idle: "\<forall>k v. lookup_handle (handles s) k = Some (h, Ephemeral v) \<longrightarrow> server_idle s v" and calm: "calm s"
    and r: "kt_runtime_free env h s = (r, s')" and np: "\<not> panics r"
  shows "\<exists>cs s1 s2 err. free_begin h s = (Ok (a, cs), s1) \<and> bridge_step s s1 \<and> later s1 s2 \<and>
    frees s2 a = Some (TaskWait err) \<and> tracker_empty a s2 \<and> free_return a err s2 = (r, s')"
proof -
  obtain own where l: "lookup_handle (handles s) h = Some (own, Runtime a)" using getters_lookup(1) [OF g] ..
  obtain q s1 where q: "free_begin h s = (q, s1)" by (cases "free_begin h s")
  obtain cs where cs: "q = Ok (a, cs)"
    using q remove_runtime_live(1) [OF reachable_safe [OF s] l]
    by (auto simp: free_begin_def remove_runtime_handles_def call_defs)
  note b = free_begin_safe [OF reachable_safe [OF s] q [unfolded cs]]
  have step: "bridge_step s s1" using sys_free_begin [of h s "(a, cs)" s1] q cs by simp
  note s1 = runs_step [OF s step]
  have same: "servers s1 = servers s" "workers s1 = workers s" "ops s1 = ops s" "runtimes s1 = runtimes s"
    using q by (auto simp: free_begin_def remove_runtime_handles_def call_defs split: prod.splits outcome.splits)
  have "\<forall>c \<in> set cs. idle s1 c"
  proof
    fix c
    assume "c \<in> set cs"
    then obtain k where "lookup_handle (handles s) k = Some (h, c)" using iffD1 [OF b(5)] by blast
    then show "idle s1 c" using idle by (auto simp: idle_def server_idle_def same)
  qed
  moreover have "calm s1" by (rule calm_kept [OF calm calls_kept_same]) (simp_all add: same)
  moreover obtain q2 s2 where q2: "close_children env a cs s1 = (q2, s2)" by (cases "close_children env a cs s1")
  moreover have np2: "\<not> panics q2" using r np q cs q2 by (cases q2) (auto simp: kt_runtime_free_def call_defs)
  moreover have "frees s1 a = Some (Closing cs None)" using b(2) by simp
  ultimately obtain err where c: "q2 = Ok ()" "later s1 s2" "frees s2 a = Some (Closing [] err)" "calm s2" "runtimes s2 = runtimes s1"
    using close_children_path [OF s1] by metis
  have x2: "runtimes s2 a = Some x" using c(5) same(4) x by simp
  let ?s3 = "free_drain (env_drain_order env) a err s2"
  let ?s4 = "fold (settle_op a) (env_task_order env) ?s3"
  have d: "background_step s2 ?s3" by (rule sys_free_drain [OF c(3) x2 ds])
  have l3: "later s1 ?s3" using c(2) d by (rule rtranclp.rtrancl_into_rtrancl)
  have f3: "frees ?s3 a = Some (TaskWait err)" using x2 by (simp add: free_drain_def)
  have "calm ?s3" by (rule calm_kept [OF c(4) calls_kept_same]) (simp_all add: free_drain_def x2 put_runtime_def)
  from settle_ops_path [OF reachable_later [OF l3 s1] f3 this, of "env_task_order env"]
  have 4: "later s1 ?s4" "frees ?s4 a = Some (TaskWait err)" using l3 f3 by (auto intro: rtranclp_trans)
  have fr: "free_runtime_of env a s2 = (r, s')" using r q cs q2 c(1) by (simp add: kt_runtime_free_def call_defs)
  have te: "tracker_empty a ?s4" using fr np c(3) by (auto simp: free_runtime_of_def Let_def split: if_splits)
  then have "free_return a err ?s4 = (r, s')" using fr c(3) by (simp add: free_runtime_of_def Let_def)
  with step 4 te q cs show ?thesis by blast
qed

lemma ephemeral_free_path:
  assumes s: "reachable s" and g: "get_ephemeral (handles s) h = Ok v" and idle: "server_idle s v"
    and r: "kt_ephemeral_free env h s = (r, s')" and np: "\<not> panics r"
  shows "\<exists>s1. bridge_step s s1 \<and> v \<in> stopping s1 \<and> background_step s1 s'"
proof -
  obtain own where l: "lookup_handle (handles s) h = Some (own, Ephemeral v)" using getters_lookup(4) [OF g] ..
  have "handle_kind h = KIND_EPHEMERAL" using validate_lookup(6) [OF l] by (simp add: kind_defs)
  then obtain t where t: "remove_of_kind (handles s) h KIND_EPHEMERAL = (Ok (Ephemeral v), t)"
    using remove_of_kind_live [OF l] by simp
  let ?s1 = "s\<lparr>handles := t, stopping := insert v (stopping s)\<rparr>"
  have b: "server_free_begin h s = (Ok v, ?s1)" using t by (simp add: server_free_begin_def remove_handle_def call_defs)
  then have e: "server_free_end env v ?s1 = (r, s')" using r by (simp add: kt_ephemeral_free_def call_defs)
  have "server_idle ?s1 v" using idle by (simp add: server_idle_def)
  from sys_server_free [OF _ this e np] sys_server_free_begin [OF b] show ?thesis by auto
qed

text \<open>No server comes or goes.\<close>

lemma update_server_None [simp]: "servers (update_server a g s) v = None \<longleftrightarrow> servers s v = None"
  by (simp add: update_server_def put_server_def split: option.split)

lemma drop_None [simp]:
  "servers (drop_entry e s) v = None \<longleftrightarrow> servers s v = None" "servers (drop_op t op s) v = None \<longleftrightarrow> servers s v = None"
  "servers (drop_pending p s) v = None \<longleftrightarrow> servers s v = None"
proof -
  show entry: "servers (drop_entry e s) v = None \<longleftrightarrow> servers s v = None" for e s by (cases e) simp_all
  show "servers (drop_op t op s) v = None \<longleftrightarrow> servers s v = None" by (cases op) (simp_all add: drop_op_def end_op_def)
  show "servers (drop_pending p s) v = None \<longleftrightarrow> servers s v = None"
    by (simp add: drop_pending_def entry split: prod.split option.split)
qed

lemma drop_pendings_None [simp]: "servers (fold drop_pending ps s) v = None \<longleftrightarrow> servers s v = None"
  by (induction ps arbitrary: s) simp_all

lemma settle_op_None [simp]: "servers (settle_op a t s) v = None \<longleftrightarrow> servers s v = None"
  by (auto simp: settle_op_def retire_op_def resolve_def put_runtime_def Let_def split: option.split phase.split)

section \<open>The small run, to its end\<close>

text \<open>The runtime of the small run after a thread called \<^verbatim>\<open>kt_runtime_free\<close> on it, and when that thread's wait is over.\<close>

definition demo_freeing :: Bridge where
  "demo_freeing = demo_asked\<lparr>handles := \<lparr>slots = [\<lparr>generation = 2, owner = 0, entry = None\<rparr>], free = [0]\<rparr>,
     frees := [0 \<mapsto> Closing [] None]\<rparr>"

definition demo_drained :: Bridge where
  "demo_drained = fold (settle_op 0) [1] (free_drain [(7, 1)] 0 None demo_freeing)"

lemma demo_free_begin: "free_begin demo_handle demo_asked = (Ok (0, []), demo_freeing)"
proof -
  have "take_slot \<lparr>slots = [\<lparr>generation = 1, owner = 0, entry = Some (Runtime 0)\<rparr>], free = []\<rparr> 0 =
      (Ok (Runtime 0), \<lparr>slots = [\<lparr>generation = 2, owner = 0, entry = None\<rparr>], free = [0]\<rparr>)"
    by (simp add: take_slot_def next_generation_def GEN_MASK_def)
  moreover have "demo_handle \<noteq> 0" by (simp add: demo_handle_def)
  ultimately show ?thesis
    by (simp add: free_begin_def remove_runtime_handles_def call_defs remove_runtime_def validate_def demo_handle_fields
        demo_asked_def demo_opened_def demo_freeing_def kind_defs Let_def set_free_def Bridge_init_def)
qed

lemma demo_calm: "calm demo_freeing" "calm demo_asked"
  by (auto simp: calm_def demo_freeing_def demo_asked_def at_await_def demo_operation_def split: outcome.split if_splits)

lemma demo_free_runs: "runs bridge_init bridge_step demo_freeing"
  using runs_step [OF demo_runs sys_free_begin [OF demo_free_begin]] .

lemma demo_drained_path: "background_step\<^sup>*\<^sup>* demo_freeing demo_drained" "frees demo_drained 0 = Some (TaskWait None)"
proof -
  let ?s = "free_drain [(7, 1)] 0 None demo_freeing"
  let ?x = "\<lparr>requests = demo_requests, metrics = Some (BridgeMeter_default, []), metric_batch = None\<rparr> :: RuntimeObject"
  have x: "runtimes demo_freeing 0 = Some ?x" by (simp add: demo_freeing_def demo_asked_def)
  have "drain_order (pending (requests ?x)) [(7, 1)]" by (simp add: drain_order_def demo_requests_def)
  from sys_free_drain [OF _ x this, of None] have step: "later demo_freeing ?s" by (simp add: demo_freeing_def r_into_rtranclp)
  have f: "frees ?s 0 = Some (TaskWait None)" using x by (simp add: free_drain_def)
  have "calm ?s" by (rule calm_kept [OF demo_calm(1) calls_kept_same]) (simp_all add: free_drain_def x put_runtime_def)
  note p = settle_op_path [OF reachable_later [OF step demo_free_runs] f this, of 1]
  show "later demo_freeing demo_drained" "frees demo_drained 0 = Some (TaskWait None)"
    using rtranclp_trans [OF step p(1)] p(2) f by (simp_all add: demo_drained_def)
qed

lemma demo_drained_runs:
  "runs bridge_init bridge_step demo_drained" "frees demo_drained 0 = Some (TaskWait None)" "tracker_empty 0 demo_drained"
proof -
  let ?s = "free_drain [(7, 1)] 0 None demo_freeing"
  let ?x = "\<lparr>requests = demo_requests, metrics = Some (BridgeMeter_default, []), metric_batch = None\<rparr> :: RuntimeObject"
  show "reachable demo_drained" "frees demo_drained 0 = Some (TaskWait None)"
    using reachable_later [OF demo_drained_path(1) demo_free_runs] demo_drained_path(2) .
  have x: "runtimes demo_freeing 0 = Some ?x" by (simp add: demo_freeing_def demo_asked_def)
  let ?y = "(drain_pending_for_shutdown [(7, 1)] demo_requests)\<lparr>tracker_closed := True\<rparr>"
  have y: "runtimes ?s 0 = Some (?x\<lparr>requests := ?y\<rparr>)" "servers ?s = Map.empty" "ops ?s = [1 \<mapsto> (0, demo_operation)]"
    using x by (simp_all add: free_drain_def put_runtime_def) (simp_all add: demo_freeing_def demo_asked_def demo_opened_def Bridge_init_def)
  have "tasks ?y = [1 \<mapsto> (7, Spawned)]" "tracker ?y = 1"
    by (simp_all add: drain_pending_for_shutdown_def runtime_op_defs answer_def Sender_push_def demo_requests_def RuntimeEntry_new_def)
  then have t: "tasks (requests (?x\<lparr>requests := ?y\<rparr>)) 1 = Some (7, Spawned)" by simp
  let ?p = "cancelled_result 7"
  let ?s2 = "resolve 0 1 7 ?p (drop_op 1 demo_operation ?s)"
  let ?x2 = "?x\<lparr>requests := set_phase 1 7 Spawned (Resolved ?p) ?y\<rparr>"
  have d: "demo_drained = retire_op 0 1 7 ?p ?s2" using y t by (simp add: demo_drained_def settle_op_def)
  have "runtimes ?s2 0 = Some ?x2" "tasks (requests ?x2) 1 = Some (7, Resolved ?p)"
    using y by (simp_all add: resolve_def) (simp add: put_runtime_def)
  from retire_op_frame(2) [OF this] obtain z where z: "runtimes demo_drained 0 = Some z"
    "tasks (requests z) = [1 \<mapsto> (7, Finished)]" using t \<open>tasks ?y = _\<close> unfolding d by auto
  have "tracker (requests z) = 0"
    using tracker_zero_iff reachable_parts(1) [OF \<open>reachable demo_drained\<close> z(1)] z(2) by auto
  moreover have "servers demo_drained v = None" for v using y(2) by (simp add: demo_drained_def)
  ultimately show "tracker_empty 0 demo_drained" using z(1) by (simp add: tracker_empty_def)
qed

lemma demo_free: "\<exists>s'. kt_runtime_free demo_env demo_handle demo_asked = (Ok (), s')"
proof -
  have "free_runtime_of demo_env 0 demo_freeing = free_return 0 None demo_drained"
    using demo_drained_runs(3)
    by (simp add: free_runtime_of_def demo_freeing_def demo_env_def) (simp add: demo_drained_def demo_freeing_def)
  then show ?thesis by (simp add: kt_runtime_free_def call_defs demo_free_begin give_def free_return_def)
qed

end
