(* ===== verification/Kt_PollMemory.thy ===== *)
theory Kt_PollMemory
  imports Kt_SystemRuns
begin

text \<open>
  What the caller of \<^verbatim>\<open>kt_poller_poll\<close> finds in its memory: the count, the records, and behind each record's
  pointer the bytes of its payload. The regions the call writes (the caller's array and counter, and the
  poller's slab) must not overlap, which is part of the contract of the entry point.
\<close>

definition received :: "memory \<Rightarrow> Pending \<Rightarrow> KtCompletion \<Rightarrow> bool" where
  "received m p c \<longleftrightarrow>
     kc_req_id c = req_id p \<and> kc_kind c = KtKind_u32 (kind p) \<and> kc_status c = status p \<and>
     kc_aux0 c = aux0 p \<and> kc_aux1 c = aux1 p \<and>
     load_bytes m (kc_payload c) (unat (kc_payload_len c)) = payload p"

lemma load_store_within:
  assumes "off + k \<le> length bs" and "length bs < 2 ^ 64"
  shows "load_bytes (store_bytes m a bs) (a + of_nat off) k = take k (drop off bs)"
proof (rule nth_equalityI)
  fix i
  assume "i < length (load_bytes (store_bytes m a bs) (a + of_nat off) k)"
  then have i: "off + i < length bs" "i < k" using assms(1) by simp_all
  have "a + of_nat off + of_nat i - a = (of_nat (off + i) :: u64)" by simp
  moreover have "unat (of_nat (off + i) :: u64) = off + i"
    by (rule unat_of_nat_u64) (use i(1) assms(2) in simp)
  ultimately show "load_bytes (store_bytes m a bs) (a + of_nat off) k ! i = take k (drop off bs) ! i"
    using i by (simp add: load_bytes_def store_bytes_def)
qed (use assms(1) in simp)

lemma disjoint_within:
  assumes "disjoint_regions a n b k" and "off + i \<le> n"
  shows "disjoint_regions (a + of_nat off) i b k"
proof -
  have "a + of_nat off + of_nat j \<noteq> b + of_nat l" if "j < i" "l < k" for j l
  proof -
    have "a + of_nat (off + j) \<noteq> b + of_nat l"
      using assms that by (simp add: disjoint_regions_def list_all_iff del: of_nat_add)
    then show ?thesis by (simp add: add.assoc)
  qed
  then show ?thesis by (simp add: disjoint_regions_def list_all_iff)
qed

lemma length_completion_bytes [simp]: "length (completion_bytes c) = 48"
  by (simp add: completion_bytes_def)

lemma length_records: "length (concat (map completion_bytes cs)) = 48 * length cs"
  by (induction cs) simp_all

lemma poll_emit_used: "poll_emit ps buf = (Ok x, buf') \<Longrightarrow> used buf' = used buf + batch_size ps"
proof (induction ps arbitrary: buf x)
  case (Cons p ps)
  let ?put = "if payload p = [] then (Ok (0, 0), buf) else BatchBuf_put buf (payload p)"
  obtain q b1 where put: "?put = (Ok q, b1)"
    using Cons.prems by (cases ?put; cases "fst ?put") (auto split: if_splits)
  then have "used b1 = used buf + length (payload p)"
    by (auto simp: BatchBuf_put_def Let_def split: if_splits)
  moreover obtain y where "poll_emit ps b1 = (Ok y, buf')"
    using Cons.prems put by (cases q; cases "poll_emit ps b1"; cases "fst (poll_emit ps b1)") auto
  ultimately show ?case using Cons.IH by simp
qed simp

lemma records_received:
  assumes "\<And>off k. off + k \<le> length bs \<Longrightarrow> load_bytes m (b + of_nat off) k = take k (drop off bs)"
    and "length bs < 2 ^ 64" and "drop u bs = concat (map payload ps)" and "u \<le> length bs"
  shows "list_all2 (received m) ps (batch_records b u ps)"
  using assms(3,4)
proof (induction ps arbitrary: u)
  case (Cons p ps)
  let ?k = "length (payload p)"
  have len: "length bs - u = ?k + length (concat (map payload ps))"
    using arg_cong [OF Cons.prems(1), of length] by simp
  then have k: "u + ?k \<le> length bs" using Cons.prems(2) by simp
  have "load_bytes m (b + of_nat u) ?k = payload p" using assms(1) [OF k] Cons.prems(1) by simp
  moreover have "unat (of_nat ?k :: u64) = ?k" using k assms(2) by (simp add: unat_of_nat_u64)
  ultimately have "received m p (completion_of p (if payload p = [] then 0 else b + of_nat u) (of_nat ?k))"
    by (simp add: received_def completion_of_def load_bytes_def)
  moreover have "drop (u + ?k) bs = concat (map payload ps)"
    using arg_cong [OF Cons.prems(1), of "drop ?k"] by (simp add: add.commute)
  ultimately show ?case using Cons.IH [of "u + ?k"] k by simp
qed simp

lemma poll_deliver_records:
  fixes nb :: u64 and buf :: BatchBuf
  assumes "ps \<noteq> []"
  defines "sl \<equiv> BatchBuf_reserve (batch_size ps) nb (BatchBuf_reset buf)"
  shows "\<exists>left buf'. poll_deliver ps was_closed nb buf = (Ok (batch_records (base sl) 0 ps, left), buf') \<and>
    base buf' = base sl \<and> take (used buf') (bytes buf') = concat (map payload ps)"
proof -
  have "used sl + batch_size ps \<le> length (bytes sl)"
    using BatchBuf_reserve_enough [of "batch_size ps" nb] by (simp add: sl_def)
  from poll_emit_ok [OF this] obtain buf' where
    em: "poll_emit ps sl = (Ok (batch_records (base sl) 0 ps, map (\<lambda>p. p\<lparr>aux0 := 0\<rparr>) ps), buf')"
    and b: "base buf' = base sl" "take (batch_size ps) (bytes buf') = concat (map payload ps)"
    by (auto simp: sl_def)
  have "used buf' = batch_size ps" using poll_emit_used [OF em] by (simp add: sl_def)
  moreover have "poll_deliver ps was_closed nb buf = poll_emit ps sl"
    using assms(1) by (simp add: poll_deliver_def sl_def Let_def batch_size_def)
  ultimately show ?thesis using em b by auto
qed

lemma length_batch_records [simp]: "length (batch_records a u ps) = length ps"
  by (induction ps arbitrary: u) simp_all

text \<open>
  The memory after the three writes of a call: the payloads into the slab at \<open>sl\<close>, the records into \<open>out\<close>, the
  counter.
\<close>

lemma written_batch_readable:
  fixes m :: memory
  assumes len: "batch_size ps < 2 ^ 64" "48 * length ps < 2 ^ 64"
    and apart: "disjoint_regions sl (batch_size ps) out (48 * length ps)"
      "disjoint_regions sl (batch_size ps) out_count 4" "disjoint_regions out (48 * length ps) out_count 4"
  defines "recs \<equiv> concat (map completion_bytes (batch_records sl 0 ps))"
  defines "m3 \<equiv> store_u32 (store_bytes (store_bytes m sl (concat (map payload ps))) out recs) out_count (of_nat (length ps))"
  shows "load_bytes m3 out_count 4 = u32_bytes (of_nat (length ps))" "load_bytes m3 out (48 * length ps) = recs"
    "list_all2 (received m3) ps (batch_records sl 0 ps)"
proof -
  let ?pay = "concat (map payload ps)"
  let ?m1 = "store_bytes m sl ?pay"
  let ?m2 = "store_bytes ?m1 out recs"
  have recs: "length recs = 48 * length ps" using length_records by (simp add: recs_def)
  have pay: "length ?pay = batch_size ps" by (simp add: batch_size_def length_concat comp_def)
  show "load_bytes m3 out_count 4 = u32_bytes (of_nat (length ps))"
    using load_store_same [of "u32_bytes (of_nat (length ps))" ?m2 out_count] by (simp add: m3_def store_u32_def)
  show "load_bytes m3 out (48 * length ps) = recs"
    using load_store_other [of out "48 * length ps" out_count "u32_bytes (of_nat (length ps))" ?m2] apart(3)
      load_store_same [of recs ?m1 out] recs len(2) by (simp add: m3_def store_u32_def)
  have "load_bytes m3 (sl + of_nat off) k = take k (drop off ?pay)" if "off + k \<le> length ?pay" for off k
  proof -
    have "load_bytes m3 (sl + of_nat off) k = load_bytes ?m1 (sl + of_nat off) k"
      unfolding m3_def store_u32_def
      by (subst load_store_other, use disjoint_within [OF apart(2)] that pay in simp)
        (subst load_store_other, use disjoint_within [OF apart(1)] that pay recs in simp_all)
    also have "\<dots> = take k (drop off ?pay)" using load_store_within [OF that] len(1) pay by simp
    finally show ?thesis .
  qed
  then show "list_all2 (received m3) ps (batch_records sl 0 ps)"
    by (rule records_received [where bs = ?pay]) (use len(1) pay in simp_all)
qed

text \<open>What a thread that is in a poll leaves when it finds completions in the queue.\<close>

lemma poll_batch_result:
  fixes env :: env and s :: Bridge and po :: PollerObject
  assumes ps_def: "ps = take (unat cap) (queue q)" and ne: "ps \<noteq> []"
    and sl_def: "sl = base (BatchBuf_reserve (batch_size ps) (env_slab env) (BatchBuf_reset (po_buf po)))"
  shows "\<exists>buf. poll_batch env p po x q out cap s = (Ok (of_nat (length ps)),
    (put_poller p (po\<lparr>po_buf := buf, po_in_poll := None\<rparr>) (put_runtime (po_runtime po) (x\<lparr>requests :=
      (requests x)\<lparr>rqueue := q\<lparr>queue := drop (unat cap) (queue q)\<rparr>, polled := polled (requests x) @ ps\<rparr>\<rparr>) s))
    \<lparr>mem := store_bytes (store_bytes (mem s) sl (concat (map payload ps))) out
       (concat (map completion_bytes (batch_records sl 0 ps)))\<rparr>)"
proof -
  let ?n = "min (unat cap) (length (queue q))"
  have ps': "take ?n (queue q) = ps" "drop ?n (queue q) = drop (unat cap) (queue q)" by (simp_all add: ps_def min_def)
  let ?cs = "batch_records sl 0 ps"
  obtain left buf' where d: "poll_deliver ps (closed q) (env_slab env) (po_buf po) = (Ok (?cs, left), buf')"
    and b: "base buf' = sl" "take (used buf') (bytes buf') = concat (map payload ps)"
    using poll_deliver_records [OF ne, of "closed q" "env_slab env" "po_buf po"] by (auto simp: sl_def)
  have "?cs \<noteq> []" using ne length_batch_records [of sl 0 ps] by (metis length_0_conv)
  then show ?thesis using d b ps' by (intro exI [of _ buf']) (simp add: poll_batch_def poll_drain_def Let_def)
qed

text \<open>C12: A polled batch can be read back. When completions are queued, \<^verbatim>\<open>kt_poller_poll\<close> returns success, and in
  the memory it leaves the counter holds the number of completions taken, the array holds their records in
  order, and reading \<open>payload_len\<close> bytes at each record's pointer gives exactly that completion's payload;
  the queue holds what did not fit, and the poller can be polled again.\<close>

theorem polled_batch_readable:
  assumes h: "get_poller (handles s) h = Ok p" and po: "pollers s p = Some po" "po_in_poll po = None"
    and x: "runtimes s (po_runtime po) = Some x" and nz: "out \<noteq> 0" "out_count \<noteq> 0" "cap \<noteq> 0"
    and ps_def: "ps = take (unat cap) (queue (rqueue (requests x)))"
    and sl_def: "sl = base (BatchBuf_reserve (batch_size ps) (env_slab env) (BatchBuf_reset (po_buf po)))"
    and ne: "ps \<noteq> []" and len: "batch_size ps < 2 ^ 64" "48 * length ps < 2 ^ 64"
    and apart: "disjoint_regions sl (batch_size ps) out (48 * length ps)"
      "disjoint_regions sl (batch_size ps) out_count 4" "disjoint_regions out (48 * length ps) out_count 4"
  shows "\<exists>s' cs x' po'. exec env (PollerPoll h out cap timeout_millis out_count) s = (Ok (), s') \<and>
    load_bytes (mem s') out_count 4 = u32_bytes (of_nat (length ps)) \<and>
    load_bytes (mem s') out (48 * length ps) = concat (map completion_bytes cs) \<and>
    list_all2 (received (mem s')) ps cs \<and>
    runtimes s' (po_runtime po) = Some x' \<and> polled (requests x') = polled (requests x) @ ps \<and>
    queue (rqueue (requests x')) = drop (unat cap) (queue (rqueue (requests x))) \<and>
    pollers s' p = Some po' \<and> po_in_poll po' = None"
proof -
  let ?c = "\<lparr>pa_out = out, pa_cap = cap, pa_timeout = timeout_millis, pa_count = out_count\<rparr>"
  let ?q = "rqueue (requests x)"
  let ?po = "po\<lparr>po_in_poll := Some ?c\<rparr>"
  let ?s1 = "put_poller p ?po s"
  let ?cs = "batch_records sl 0 ps"
  have "queue ?q \<noteq> []" using ne by (auto simp: ps_def)
  then have q: "poll_check ?q timeout_millis = (Leave, ?q)" by (simp add: poll_check_def)
  have begun: "poll_start p ?c s = (Ok None, ?s1)"
    using po nz by (simp add: poll_start_def poll_enter_def deref_def call_defs)
  obtain buf where b: "poll_batch env p ?po x ?q out cap ?s1 = (Ok (of_nat (length ps)),
      (put_poller p (?po\<lparr>po_buf := buf, po_in_poll := None\<rparr>) (put_runtime (po_runtime ?po) (x\<lparr>requests :=
        (requests x)\<lparr>rqueue := ?q\<lparr>queue := drop (unat cap) (queue ?q)\<rparr>, polled := polled (requests x) @ ps\<rparr>\<rparr>) ?s1))
      \<lparr>mem := store_bytes (store_bytes (mem ?s1) sl (concat (map payload ps))) out (concat (map completion_bytes ?cs))\<rparr>)"
    using poll_batch_result [OF ps_def ne, of sl env ?po p x out ?s1] sl_def by (simp, blast)
  have "pollers ?s1 p = Some ?po" "runtimes ?s1 (po_runtime po) = Some x" using x by (simp_all add: put_poller_def)
  then have "poll env p ?c s = poll_batch env p ?po x ?q out cap ?s1"
    using q begun by (simp add: poll_def poll_finish_def deref_def ask_def then_do_def)
  then have "\<exists>s'. exec env (PollerPoll h out cap timeout_millis out_count) s = (Ok (), s') \<and>
      mem s' = store_u32 (store_bytes (store_bytes (mem s) sl (concat (map payload ps))) out
        (concat (map completion_bytes ?cs))) out_count (of_nat (length ps)) \<and>
      runtimes s' (po_runtime po) = Some (x\<lparr>requests := (requests x)\<lparr>rqueue := ?q\<lparr>queue := drop (unat cap) (queue ?q)\<rparr>,
        polled := polled (requests x) @ ps\<rparr>\<rparr>) \<and> pollers s' p = Some (po\<lparr>po_buf := buf, po_in_poll := None\<rparr>)"
    using h nz b by (simp add: kt_poller_poll_def the_poller_def write_u32_def call_defs put_defs)
  then show ?thesis using written_batch_readable [OF len apart, of "mem s"] by fastforce
qed

definition demo_poller :: u64 where "demo_poller = 0x0500000100000001"

definition demo_queued :: Bridge where
  "demo_queued = (Bridge_init (\<lambda>_. 0))\<lparr>next_id := 2,
     handles := \<lparr>slots = [\<lparr>generation = 1, owner = 0, entry = Some (Runtime 0)\<rparr>,
       \<lparr>generation = 1, owner = 0, entry = Some (Poller 1)\<rparr>], free = []\<rparr>,
     runtimes := [0 \<mapsto> \<lparr>requests = RuntimeEntry_new\<lparr>rqueue := Queue_new\<lparr>queue := [demo_pending]\<rparr>\<rparr>,
       metrics = None, metric_batch = None\<rparr>],
     pollers := [1 \<mapsto> \<lparr>po_runtime = 0, po_buf = BatchBuf_default, po_in_poll = None\<rparr>]\<rparr>"

lemma demo_poller_fields: "handle_kind demo_poller = 5" "handle_gen demo_poller = 1" "handle_index demo_poller = 1"
proof -
  have "make_handle 5 1 1 = demo_poller"
    by (simp add: make_handle_def demo_poller_def KIND_SHIFT_def GEN_SHIFT_def GEN_MASK_def push_bit_eq_mult)
  then show "handle_kind demo_poller = 5" "handle_gen demo_poller = 1" "handle_index demo_poller = 1"
    using handle_kind_make [of 5 1 1] handle_gen_make [of 1 5 1] handle_index_make [of 5 1 1] by simp_all
qed

lemma demo_get_poller: "get_poller (handles demo_queued) demo_poller = Ok 1"
  by (simp add: get_poller_def with_entry_def validate_def demo_poller_fields demo_queued_def kind_defs)
    (simp add: demo_poller_def)

theorem polled_batch_readable_witness:
  "\<exists>s' cs. exec demo_env (PollerPoll demo_poller 0x20000 8 0 0x30000) demo_queued = (Ok (), s') \<and>
     load_bytes (mem s') 0x30000 4 = u32_bytes 1 \<and> list_all2 (received (mem s')) [demo_pending] cs"
proof -
  let ?po = "\<lparr>po_runtime = 0, po_buf = BatchBuf_default, po_in_poll = None\<rparr> :: PollerObject"
  let ?x = "\<lparr>requests = RuntimeEntry_new\<lparr>rqueue := Queue_new\<lparr>queue := [demo_pending]\<rparr>\<rparr>,
      metrics = None, metric_batch = None\<rparr> :: RuntimeObject"
  have 3: "batch_size [demo_pending] = 3" by (simp add: demo_pending_def pending_defs)
  have sl: "base (BatchBuf_reserve (batch_size [demo_pending]) (env_slab demo_env) (BatchBuf_reset BatchBuf_default)) = 4096"
    unfolding 3 by (simp add: BatchBuf_reserve_def BatchBuf_reset_def BatchBuf_default_def demo_env_def Let_def)
  have apart: "disjoint_regions 4096 3 0x20000 48" "disjoint_regions 4096 3 0x30000 4" "disjoint_regions 0x20000 48 0x30000 4"
    by code_simp+
  show ?thesis
    using polled_batch_readable [OF demo_get_poller, of ?po ?x "0x20000" "0x30000" 8 "[demo_pending]" 4096 demo_env 0]
      sl 3 apart by (simp add: demo_queued_def) blast
qed

end
