(* ===== verification/Kt_Polls.thy ===== *)
theory Kt_Polls
  imports Kt_Shutdown Kt_PollMemory
begin

text \<open>
  Threads that are parked in \<^verbatim>\<open>kt_poller_poll\<close>, inside the whole bridge. Such a thread comes back as soon as its queue
  has something for it, a wake is left for it, or the queue is closed; so a wake releases a parked
  thread, and freeing a runtime releases all that are parked on it.
\<close>

section \<open>What the rest of the bridge does to a poller\<close>

lemma update_pollers [simp]:
  "pollers (update_worker a f s) = pollers s" "pollers (update_server a g s) = pollers s" "pollers (put_runtime a x s) = pollers s"
  "pollers (put_worker a w s) = pollers s" "pollers (put_server a v s) = pollers s" "pollers (put_client a n s) = pollers s"
  "pollers (set_free a pc s) = pollers s" "pollers (update_requests a h s) = pollers s" "pollers (resolve a t r p s) = pollers s"
  by (simp_all add: update_worker_def update_server_def set_free_def update_requests_def resolve_def put_defs split: option.split)

lemma entry_pollers [simp]: "pollers (drop_entry e s) = pollers s" "pollers (Entry_close e s) = pollers s"
  by (cases e; simp)+

lemma op_pollers [simp]: "pollers (drop_op t op s) = pollers s" "pollers (end_op op s) = pollers s"
  by (cases op; simp add: drop_op_def end_op_def)+

lemma drop_pending_pollers [simp]: "pollers (fold drop_pending ps s) = pollers s"
proof -
  have "pollers (drop_pending p s) = pollers s" for p s by (simp add: drop_pending_def split: prod.split option.split)
  then show ?thesis by (induction ps arbitrary: s) simp_all
qed

lemma close_pollers [simp]: "pollers (fold (\<lambda>e s. drop_entry e (Entry_close e s)) es s) = pollers s"
  by (induction es arbitrary: s) simp_all

lemma created_pollers:
  "report_created r runtime e report s = (x, s') \<Longrightarrow> pollers s' = pollers s"
  by (auto simp: report_created_def insert_owned_handle_def split: prod.splits outcome.splits)

lemma op_result_pollers: "op_result a op r t s p s' \<Longrightarrow> pollers s' = pollers s"
  by (induction rule: op_result.induct)
    (auto simp: client_connected_def server_started_def alloc_def call_defs dest!: created_pollers)

lemma shutdown_child_pollers: "shutdown_child env c s = (r, s') \<Longrightarrow> pollers s' = pollers s"
  by (cases c) (auto simp: server_shutdown_def deref_def call_defs split: option.splits if_splits outcome.splits)

lemma free_pollers:
  "free_child env a c cs err s = (r, s') \<Longrightarrow> pollers s' = pollers s" "pollers (free_drain ds a err s) = pollers s"
  "pollers (snd (free_return a err s)) = pollers s" "server_free_end env v s = (r, s') \<Longrightarrow> pollers s' = pollers s"
  using shutdown_child_pollers [of env c] shutdown_child_pollers [of env "Ephemeral v"]
  by (auto simp: free_child_def server_free_end_def free_drain_def free_return_def call_defs
      split: prod.splits outcome.splits option.splits)

section \<open>The end of a poll\<close>

text \<open>Whatever ends the wait, the call returns, gives the poller free, and touches no other poller.\<close>

lemma poll_batch_returns:
  "\<exists>r s' buf q'. poll_batch env p po x q out cap s = (r, s') \<and>
    ((\<exists>n. r = Ok n) \<or> r = Err Shutdown \<and> closed q \<and> take (unat cap) (queue q) = []) \<and> frees s' = frees s \<and>
    pollers s' = (pollers s)(p \<mapsto> po\<lparr>po_buf := buf, po_in_poll := None\<rparr>) \<and> closed q' = closed q \<and>
    runtimes s' = (runtimes s)(po_runtime po \<mapsto> x\<lparr>requests := (requests x)\<lparr>rqueue := q',
      polled := polled (requests x) @ take (unat cap) (queue q)\<rparr>\<rparr>)"
proof (cases "take (unat cap) (queue q) = []")
  case True
  let ?q = "q\<lparr>queue := drop (min (unat cap) (length (queue q))) (queue q)\<rparr>"
  let ?s1 = "put_poller p (po\<lparr>po_buf := po_buf po, po_in_poll := None\<rparr>) (put_runtime (po_runtime po) (x\<lparr>requests :=
    (requests x)\<lparr>rqueue := ?q, polled := polled (requests x) @ []\<rparr>\<rparr>) s)"
  have "take (min (unat cap) (length (queue q))) (queue q) = []" using True by (auto simp: min_def)
  then have "poll_drain q cap = (([], closed q), ?q)" by (simp add: poll_drain_def Let_def)
  then have "poll_batch env p po x q out cap s = (if closed q then (Err Shutdown, ?s1)
      else (Ok 0, ?s1\<lparr>mem := store_bytes (mem s) out []\<rparr>))"
    by (simp add: poll_batch_def poll_deliver_def Let_def)
  with True show ?thesis
    by (intro exI [of _ "if closed q then Err Shutdown else Ok 0"] exI [of _ "if closed q then ?s1 else ?s1\<lparr>mem := store_bytes (mem s) out []\<rparr>"]
        exI [of _ "po_buf po"] exI [of _ ?q]) (auto simp: put_defs)
next
  case False
  from poll_batch_result [OF refl False refl, where env = env and po = po and p = p and x = x and out = out and s = s] obtain buf where
    "poll_batch env p po x q out cap s = (Ok (of_nat (length (take (unat cap) (queue q)))),
      (put_poller p (po\<lparr>po_buf := buf, po_in_poll := None\<rparr>) (put_runtime (po_runtime po) (x\<lparr>requests :=
        (requests x)\<lparr>rqueue := q\<lparr>queue := drop (unat cap) (queue q)\<rparr>, polled := polled (requests x) @ take (unat cap) (queue q)\<rparr>\<rparr>) s))
      \<lparr>mem := store_bytes (store_bytes (mem s) (base (BatchBuf_reserve (batch_size (take (unat cap) (queue q))) (env_slab env)
          (BatchBuf_reset (po_buf po)))) (concat (map payload (take (unat cap) (queue q))))) out
        (concat (map completion_bytes (batch_records (base (BatchBuf_reserve (batch_size (take (unat cap) (queue q)))
          (env_slab env) (BatchBuf_reset (po_buf po)))) 0 (take (unat cap) (queue q)))))\<rparr>)" by blast
  then show ?thesis by (intro exI conjI, assumption) (auto simp: put_defs)
qed

lemma poll_end_returns:
  assumes po: "pollers s p = Some po" and x: "runtimes s (po_runtime po) = Some x"
  shows "\<exists>r s' buf q. poller_poll_end env timed_out p c s = (r, s') \<and>
    (r = Ok () \<or> r = Err Shutdown \<and> closed (rqueue (requests x)) \<and> take (unat (pa_cap c)) (queue (rqueue (requests x))) = []) \<and>
    frees s' = frees s \<and> pollers s' = (pollers s)(p \<mapsto> po\<lparr>po_buf := buf, po_in_poll := None\<rparr>) \<and>
    closed q = closed (rqueue (requests x)) \<and>
    runtimes s' = (runtimes s)(po_runtime po \<mapsto> x\<lparr>requests := (requests x)\<lparr>rqueue := q,
      polled := polled (requests x) @ take (unat (pa_cap c)) (queue (rqueue (requests x)))\<rparr>\<rparr>)"
proof -
  let ?q0 = "rqueue (requests x)"
  define q where "q = (if timed_out then ?q0 else snd (poll_check ?q0 (pa_timeout c)))"
  have q: "queue q = queue ?q0" "closed q = closed ?q0" by (simp_all add: q_def poll_check_def)
  have fin: "poll_finish env timed_out p c s = poll_batch env p po x q (pa_out c) (pa_cap c) s"
    using po x by (simp add: poll_finish_def deref_def call_defs Let_def q_def)
  from poll_batch_returns [of env p po x q "pa_out c" "pa_cap c" s] obtain r s' buf q' where
    b: "poll_batch env p po x q (pa_out c) (pa_cap c) s = (r, s')"
      "(\<exists>n. r = Ok n) \<or> r = Err Shutdown \<and> closed q \<and> take (unat (pa_cap c)) (queue q) = []" "frees s' = frees s"
      "pollers s' = (pollers s)(p \<mapsto> po\<lparr>po_buf := buf, po_in_poll := None\<rparr>)" "closed q' = closed q"
      "runtimes s' = (runtimes s)(po_runtime po \<mapsto> x\<lparr>requests := (requests x)\<lparr>rqueue := q',
        polled := polled (requests x) @ take (unat (pa_cap c)) (queue q)\<rparr>\<rparr>)" by blast
  show ?thesis using b(2) unfolding poller_poll_end_def then_do_def fin b(1) write_u32_def change_def
    by (rule disjE) (use b(3-6) q in \<open>auto intro!: exI [of _ buf] exI [of _ q']\<close>)
qed

text \<open>A parked thread whose turn of the loop finds something to do comes back.\<close>

definition waiting_on :: "arc \<Rightarrow> Bridge \<Rightarrow> arc set" where
  "waiting_on a s = {p. \<exists>po c. pollers s p = Some po \<and> po_runtime po = a \<and> po_in_poll po = Some c}"

lemma finite_waiting_on: "reachable s \<Longrightarrow> finite (waiting_on a s)"
proof -
  assume "reachable s"
  then have "waiting_on a s \<subseteq> {..<next_id s}" using safe_poller_id [OF reachable_safe] by (auto simp: waiting_on_def)
  then show ?thesis by (rule finite_subset) simp
qed

lemma closed_polls_return:
  assumes "reachable s" and "runtimes s a = Some x" and "closed (rqueue (requests x))"
  shows "\<exists>s'. later s s' \<and> waiting_on a s' = {} \<and> frees s' = frees s"
  using assms
proof (induction "card (waiting_on a s)" arbitrary: s x rule: less_induct)
  case less
  show ?case
  proof (cases "waiting_on a s = {}")
    case False
    then obtain p po c where p: "pollers s p = Some po" "po_runtime po = a" "po_in_poll po = Some c"
      by (auto simp: waiting_on_def)
    have x: "runtimes s (po_runtime po) = Some x" using less.prems(2) p(2) by simp
    obtain r s' buf q where e: "poller_poll_end undefined False p c s = (r, s')" "frees s' = frees s"
      "pollers s' = (pollers s)(p \<mapsto> po\<lparr>po_buf := buf, po_in_poll := None\<rparr>)" "closed q = closed (rqueue (requests x))"
      "runtimes s' = (runtimes s)(po_runtime po \<mapsto> x\<lparr>requests := (requests x)\<lparr>rqueue := q,
        polled := polled (requests x) @ take (unat (pa_cap c)) (queue (rqueue (requests x)))\<rparr>\<rparr>)"
      using poll_end_returns [OF p(1) x, of undefined False c] by blast
    have step: "background_step s s'"
      using sys_poll_leaves [OF p(1,3) x, of undefined] less.prems(3) e(1) by (simp add: poll_check_def)
    have "waiting_on a s' = waiting_on a s - {p}" using e(3) by (auto simp: waiting_on_def)
    moreover have "p \<in> waiting_on a s" using p by (auto simp: waiting_on_def)
    ultimately have "card (waiting_on a s') < card (waiting_on a s)"
      using card_Diff1_less [OF finite_waiting_on [OF less.prems(1)]] by simp
    moreover have "reachable s'" using less.prems(1) step by (blast intro: runs_step sys_background)
    ultimately obtain s'' where "later s' s''" "waiting_on a s'' = {}" "frees s'' = frees s'"
      using less.hyps [of s'] e(4,5) p(2) less.prems(3) by auto
    then show ?thesis using step e(2) by (metis converse_rtranclp_into_rtranclp)
  qed blast
qed

text \<open>A poller stays on its runtime, and only a call from outside starts a poll.\<close>

lemma poll_end_keeps:
  assumes "pollers s b = Some po"
  shows "\<exists>po'. pollers (snd (poller_poll_end env timed_out p c s)) b = Some po' \<and> po_runtime po' = po_runtime po \<and>
    (po_in_poll po' = po_in_poll po \<or> po_in_poll po' = None)"
proof (cases "\<exists>pp x. pollers s p = Some pp \<and> runtimes s (po_runtime pp) = Some x")
  case True
  then obtain pp x where pp: "pollers s p = Some pp" "runtimes s (po_runtime pp) = Some x" by blast
  from poll_end_returns [OF this, of env timed_out c] obtain r s' buf where
    "poller_poll_end env timed_out p c s = (r, s')" "pollers s' = (pollers s)(p \<mapsto> pp\<lparr>po_buf := buf, po_in_poll := None\<rparr>)" by blast
  then show ?thesis using assms pp(1) by (cases "b = p") auto
next
  case False
  then have "snd (poller_poll_end env timed_out p c s) = s"
    by (cases "pollers s p") (auto simp: poller_poll_end_def poll_finish_def deref_def call_defs split: option.split)
  then show ?thesis using assms by simp
qed

lemma retire_op_pollers [simp]: "pollers (retire_op a t r p s) = pollers s"
  by (simp add: retire_op_def Let_def split: option.split)

lemma admit_entered_pollers [simp]: "pollers (snd (admit_entered n s)) = pollers s"
proof -
  have "pollers (run_captured t op s) = pollers s" for t op s
    by (simp add: run_captured_def begin_op_def split: operation.split)
  then show ?thesis
    by (simp add: admit_entered_def spawn_with_def deref_def call_defs put_runtime_def Let_def
        split: option.split prod.split outcome.split)
qed

lemma background_pollers:
  "background_step s s' \<Longrightarrow> pollers s b = Some po \<Longrightarrow>
   \<exists>po'. pollers s' b = Some po' \<and> po_runtime po' = po_runtime po \<and> (po_in_poll po' = po_in_poll po \<or> po_in_poll po' = None)"
proof (induction rule: background_step.induct)
  case (sys_op_returns s a x t r op p s')
  then show ?case using op_result_pollers [OF sys_op_returns(7)] by simp
next
  case (sys_free_child s a c cs err env s')
  then show ?case using free_pollers(1) [OF sys_free_child(3)] by simp
next
  case (sys_server_free a s env r s')
  then show ?case using free_pollers(4) [OF sys_server_free(3)] by simp
next
  case (sys_poll_leaves s p po' c x env)
  then show ?case by (intro poll_end_keeps)
next
  case (sys_poll_times_out s p po' c env)
  then show ?case by (intro poll_end_keeps)
qed (simp_all add: free_pollers(2,3))

lemma later_pollers:
  "later s s' \<Longrightarrow> pollers s b = Some po \<Longrightarrow>
   \<exists>po'. pollers s' b = Some po' \<and> po_runtime po' = po_runtime po \<and> (po_in_poll po' = po_in_poll po \<or> po_in_poll po' = None)"
proof (induction rule: rtranclp_induct)
  case (step s1 s2)
  then obtain po1 where "pollers s1 b = Some po1" "po_runtime po1 = po_runtime po"
    "po_in_poll po1 = po_in_poll po \<or> po_in_poll po1 = None" by blast
  with background_pollers [OF step.hyps(2)] show ?case by metis
qed simp

section \<open>Freeing a runtime\<close>

text \<open>A thread in \<^verbatim>\<open>kt_runtime_free\<close> comes back, and after it every thread that was parked on the runtime's queue.\<close>

lemma free_lets_polls_go:
  assumes "reachable s" and "frees s a = Some pc"
  shows "\<exists>s'. later s s' \<and> frees s' a = None \<and> waiting_on a s' = {}"
proof -
  obtain s1 err where 1: "later s s1" "frees s1 a = Some (TaskWait err)" "tracker_empty a s1"
    using runtime_free_reaches_return [OF assms] by blast
  note r1 = reachable_later [OF 1(1) assms(1)]
  obtain x where x: "runtimes s1 a = Some x" "closed (rqueue (requests x))" using waited_requests [OF r1 1(2,3)] by blast
  let ?s2 = "snd (free_return a err s1)"
  have step: "background_step s1 ?s2" by (rule sys_free_return [OF 1(2,3)])
  have f: "frees ?s2 a = None" "runtimes ?s2 a = Some (x\<lparr>requests := (requests x)\<lparr>rfreed := True\<rparr>\<rparr>)"
    using x(1) by (simp_all add: free_return_def set_free_def put_runtime_def)
  have l2: "later s ?s2" using 1(1) step by (rule rtranclp.rtrancl_into_rtrancl)
  obtain s' where "later ?s2 s'" "waiting_on a s' = {}" "frees s' = frees ?s2"
    using closed_polls_return [OF reachable_later [OF l2 assms(1)] f(2)] x(2) by auto
  then show ?thesis using l2 f(1) by (metis rtranclp_trans)
qed

text \<open>C13: Freeing a runtime leaves no thread of the caller parked on it. From every reachable state in which a thread is in
  \<^verbatim>\<open>kt_runtime_free\<close>, what goes on by itself can bring that call to its return and every thread that is parked in
  \<^verbatim>\<open>kt_poller_poll\<close> on a poller of that runtime out of its wait, also on a poller whose handle was freed.\<close>

theorem free_releases_polls:
  assumes "runs bridge_init bridge_step s" and "frees s a = Some pc"
  shows "\<exists>s'. background_step\<^sup>*\<^sup>* s s' \<and> frees s' a = None \<and>
    (\<forall>p po. pollers s p = Some po \<and> po_runtime po = a \<longrightarrow> (\<exists>po'. pollers s' p = Some po' \<and> po_in_poll po' = None))"
proof -
  obtain s' where s': "later s s'" "frees s' a = None" "waiting_on a s' = {}" using free_lets_polls_go [OF assms] by blast
  have "\<exists>po'. pollers s' p = Some po' \<and> po_in_poll po' = None" if p: "pollers s p = Some po" "po_runtime po = a" for p po
  proof -
    obtain po' where "pollers s' p = Some po'" "po_runtime po' = a" using later_pollers [OF s'(1) p(1)] p(2) by blast
    then show ?thesis using s'(3) by (cases "po_in_poll po'") (auto simp: waiting_on_def)
  qed
  with s' show ?thesis by blast
qed

definition demo_call :: poll_args where
  "demo_call = \<lparr>pa_out = 0x20000, pa_cap = 8, pa_timeout = - 1, pa_count = 0x30000\<rparr>"

definition demo_listening :: "poll_args option \<Rightarrow> Bridge" where
  "demo_listening c = demo_asked\<lparr>mem := store_u64 (mem demo_asked) 8 demo_poller, next_id := 3,
     handles := \<lparr>slots = [\<lparr>generation = 1, owner = 0, entry = Some (Runtime 0)\<rparr>,
       \<lparr>generation = 1, owner = 0, entry = Some (Poller 2)\<rparr>], free = []\<rparr>,
     pollers := [2 \<mapsto> \<lparr>po_runtime = 0, po_buf = BatchBuf_default, po_in_poll = c\<rparr>]\<rparr>"

lemma demo_poller_make: "make_handle 5 1 1 = demo_poller"
  by (simp add: make_handle_def demo_poller_def KIND_SHIFT_def GEN_SHIFT_def GEN_MASK_def push_bit_eq_mult)

lemma demo_new_poller: "exec demo_env (PollerNew demo_handle 0 8) demo_asked = (Ok (), demo_listening None)"
  using demo_runtime(2)
  by (simp add: kt_poller_new_def the_runtime_def call_defs alloc_def insert_handle_def insert_entry_def insert_into_def
      vec_pop_def kind_defs write_u64_def put_poller_def demo_asked_def demo_opened_def demo_listening_def Bridge_init_def
      demo_poller_make Let_def)

lemma demo_listening_poller: "get_poller (handles (demo_listening c)) demo_poller = Ok 2"
  by (simp add: get_poller_def with_entry_def validate_def demo_poller_fields demo_listening_def kind_defs)
    (simp add: demo_poller_def)

lemma demo_parks: "poller_poll_begin demo_poller demo_call (demo_listening None) = (Ok (2, None), demo_listening (Some demo_call))"
  using demo_listening_poller [of None]
  by (simp add: poller_poll_begin_def poll_start_def the_poller_def deref_def poll_enter_def demo_call_def call_defs put_poller_def)
    (simp add: demo_listening_def call_defs put_poller_def)

lemma demo_parked_runs: "runs bridge_init bridge_step (demo_listening (Some demo_call))"
proof -
  have "bridge_step demo_asked (demo_listening None)"
    using sys_call [of demo_asked demo_env "PollerNew demo_handle 0 8"]
    by (simp add: demo_new_poller del: exec.simps) (simp add: demo_asked_def demo_opened_def has_room_def)
  then show ?thesis using demo_runs sys_poll_begin [OF demo_parks] by (blast intro: runs_step)
qed

definition demo_parked_free :: Bridge where
  "demo_parked_free = (demo_listening (Some demo_call))\<lparr>handles := \<lparr>slots = [\<lparr>generation = 2, owner = 0, entry = None\<rparr>,
       \<lparr>generation = 1, owner = 0, entry = Some (Poller 2)\<rparr>], free = [0]\<rparr>, frees := [0 \<mapsto> Closing [] None]\<rparr>"

lemma demo_parked_free_runs: "runs bridge_init bridge_step demo_parked_free"
proof -
  have "take_slot \<lparr>slots = [\<lparr>generation = 1, owner = 0, entry = Some (Runtime 0)\<rparr>,
        \<lparr>generation = 1, owner = 0, entry = Some (Poller 2)\<rparr>], free = []\<rparr> 0 =
      (Ok (Runtime 0), \<lparr>slots = [\<lparr>generation = 2, owner = 0, entry = None\<rparr>,
        \<lparr>generation = 1, owner = 0, entry = Some (Poller 2)\<rparr>], free = [0]\<rparr>)"
    by (simp add: take_slot_def next_generation_def GEN_MASK_def)
  moreover have "demo_handle \<noteq> 0" by (simp add: demo_handle_def)
  ultimately have "free_begin demo_handle (demo_listening (Some demo_call)) = (Ok (0, []), demo_parked_free)"
    by (simp add: free_begin_def remove_runtime_handles_def call_defs remove_runtime_def validate_def demo_handle_fields
        demo_listening_def demo_asked_def demo_opened_def demo_parked_free_def kind_defs Let_def set_free_def Bridge_init_def)
  from runs_step [OF demo_parked_runs sys_free_begin [OF this]] show ?thesis .
qed

theorem free_releases_polls_witness:
  "\<exists>s' po. background_step\<^sup>*\<^sup>* demo_parked_free s' \<and> pollers s' 2 = Some po \<and> po_in_poll po = None"
proof -
  have "frees demo_parked_free 0 = Some (Closing [] None)"
    "pollers demo_parked_free 2 = Some \<lparr>po_runtime = 0, po_buf = BatchBuf_default, po_in_poll = Some demo_call\<rparr>"
    by (simp_all add: demo_parked_free_def demo_listening_def)
  with free_releases_polls [OF demo_parked_free_runs this(1)] show ?thesis by fastforce
qed

text \<open>C14: \<^verbatim>\<open>kt_poller_wake\<close> releases a parked thread. In every reachable state, when a thread is parked in \<^verbatim>\<open>kt_poller_poll\<close> on a
  poller and the poller is woken (fewer than \<open>2^64 - 1\<close> wakes being outstanding), the thread can come back
  at once; it takes what is queued, up to its capacity, and returns success, or the shutdown error
  when the queue is closed and there is nothing left to take.\<close>

theorem wake_releases_poll:
  assumes "runs bridge_init bridge_step s" and "has_room (handles s)" and h: "get_poller (handles s) h = Ok p"
    and po: "pollers s p = Some po" "po_in_poll po = Some c" and x: "runtimes s (po_runtime po) = Some x"
    and w: "wakes (rqueue (requests x)) \<noteq> - 1"
  shows "\<exists>s1 s2 r po' y. exec env (PollerWake h) s = (Ok (), s1) \<and> bridge_step s s1 \<and>
    poller_poll_end env False p c s1 = (r, s2) \<and> background_step s1 s2 \<and>
    pollers s2 p = Some po' \<and> po_in_poll po' = None \<and> runtimes s2 (po_runtime po) = Some y \<and>
    polled (requests y) = polled (requests x) @ take (unat (pa_cap c)) (queue (rqueue (requests x))) \<and>
    (r = Ok () \<or> r = Err Shutdown \<and> closed (rqueue (requests x)) \<and>
      take (unat (pa_cap c)) (queue (rqueue (requests x))) = [])"
proof -
  let ?q = "PollerEntry_wake (rqueue (requests x))"
  let ?x = "x\<lparr>requests := (requests x)\<lparr>rqueue := ?q\<rparr>\<rparr>"
  let ?s1 = "put_runtime (po_runtime po) ?x s"
  have q: "queue ?q = queue (rqueue (requests x))" "closed ?q = closed (rqueue (requests x))" "wakes ?q > 0"
    using w by (simp_all add: PollerEntry_wake_def word_gt_0 add_eq_0_iff2)
  have e: "exec env (PollerWake h) s = (Ok (), ?s1)"
    using h po(1) x by (simp add: kt_poller_wake_def the_poller_def deref_def call_defs)
  have step: "bridge_step s ?s1" using sys_call [OF assms(2), of env "PollerWake h"] e by simp
  have s1: "pollers ?s1 p = Some po" "runtimes ?s1 (po_runtime po) = Some ?x" using po(1) by simp_all (simp add: put_runtime_def)
  from poll_end_returns [OF s1, of env False c] obtain r s2 buf q2 where
    r: "poller_poll_end env False p c ?s1 = (r, s2)" and
    res: "r = Ok () \<or> r = Err Shutdown \<and> closed ?q \<and> take (unat (pa_cap c)) (queue ?q) = []" and
    p2: "pollers s2 = (pollers ?s1)(p \<mapsto> po\<lparr>po_buf := buf, po_in_poll := None\<rparr>)" and
    y: "runtimes s2 = (runtimes ?s1)(po_runtime po \<mapsto> ?x\<lparr>requests := (requests ?x)\<lparr>rqueue := q2,
      polled := polled (requests ?x) @ take (unat (pa_cap c)) (queue ?q)\<rparr>\<rparr>)" by auto
  have "background_step ?s1 s2"
    using sys_poll_leaves [OF s1(1) po(2) s1(2), of env] q(3) r by (simp add: poll_check_def)
  with e step r res p2 y q show ?thesis by fastforce
qed

theorem wake_releases_poll_witness:
  "\<exists>s1 s2 r. exec demo_env (PollerWake demo_poller) (demo_listening (Some demo_call)) = (Ok (), s1) \<and>
     poller_poll_end demo_env False 2 demo_call s1 = (r, s2) \<and> background_step s1 s2"
proof -
  let ?s = "demo_listening (Some demo_call)"
  let ?x = "\<lparr>requests = demo_requests, metrics = Some (BridgeMeter_default, []), metric_batch = None\<rparr> :: RuntimeObject"
  let ?po = "\<lparr>po_runtime = 0, po_buf = BatchBuf_default, po_in_poll = Some demo_call\<rparr> :: PollerObject"
  have "has_room (handles ?s)" "pollers ?s 2 = Some ?po" "po_in_poll ?po = Some demo_call" "runtimes ?s (po_runtime ?po) = Some ?x"
    "wakes (rqueue (requests ?x)) \<noteq> - 1"
    by (simp_all add: demo_listening_def has_room_def demo_asked_def demo_requests_def RuntimeEntry_new_def Queue_new_def)
  from wake_releases_poll [OF demo_parked_runs this(1) demo_listening_poller this(2-5), of demo_env] show ?thesis by blast
qed

end
