(* ===== verification/Kt_Entered.thy ===== *)
theory Kt_Entered
  imports Kt_Shutdown
begin

text \<open>
  A request and the shutdown of its runtime. An entry point that starts a request looks up its handles,
  reads its arguments and only then calls \<^verbatim>\<open>spawn_request\<close>; other threads run in between
  (\<open>sys_enter\<close>, \<open>sys_admit\<close> of \<open>Kt_System\<close>). This theory shows that the two parts with nothing in between are the
  function that a thread on its own sees, and that a request that comes after the drain is turned away and
  leaves nothing behind.
\<close>

section \<open>The two parts\<close>

text \<open>The checks change nothing, and the runtime they hand over is alive.\<close>

lemma checks_keep:
  assumes "safe s0 s"
  shows "triple ((=) s) (request_args env c)
    (\<lambda>x s'. s' = s \<and> fst x \<in> dom (runtimes s) \<and> (\<forall>v. snd (snd x) \<noteq> StopServer v)) ((=) s)"
proof (cases c)
  case (ClientConnect h cfg n r)
  show ?thesis unfolding ClientConnect request_args.simps client_connect_args_def
    by (rule triple_checked kt_wp | fastforce dest: live_runtime [OF assms])+
next
  case (ClientRpc h c sv np nl rp rl t r)
  show ?thesis unfolding ClientRpc request_args.simps client_rpc_args_def
    by (rule triple_checked kt_wp | fastforce dest: live_runtime [OF assms])+
next
  case (WorkerValidate h w r)
  show ?thesis unfolding WorkerValidate request_args.simps worker_validate_args_def
    by (rule triple_checked kt_wp | fastforce dest: live_runtime [OF assms])+
next
  case (WorkerComplete h w k b n r)
  show ?thesis unfolding WorkerComplete request_args.simps worker_complete_args_def
    by (rule triple_checked kt_wp | fastforce dest: live_runtime [OF assms])+
next
  case (WorkerShutdown h w g r)
  show ?thesis unfolding WorkerShutdown request_args.simps worker_shutdown_args_def
    by (rule triple_checked kt_wp | fastforce dest: live_runtime [OF assms])+
next
  case (EphemeralStart h cfg n r)
  show ?thesis unfolding EphemeralStart request_args.simps ephemeral_start_args_def
    by (rule triple_checked kt_wp | fastforce dest: live_runtime [OF assms])+
qed (simp_all add: triple_def give_def)

lemma checked_request:
  assumes "reachable s" and "request_args env c s = (Ok (a, r, op), s')"
  shows "s' = s" "a \<in> dom (runtimes s)" "op \<noteq> StopServer v"
  using triple_use [OF checks_keep [OF reachable_safe [OF assms(1)]] refl assms(2)] by simp_all

lemma exec_request: "request_args env c s = (Ok x, s) \<Longrightarrow> exec env c s = admit x s"
  by (cases c) (simp_all add: kt_client_connect_def kt_client_rpc_def kt_worker_validate_def kt_worker_complete_def
    kt_worker_shutdown_def kt_ephemeral_start_def then_do_def give_def)

text \<open>Captures that are made first and moved or given back later come to the same.\<close>

lemma update_worker_frame:
  "update_worker w f (s\<lparr>entered := es\<rparr>) = (update_worker w f s)\<lparr>entered := es\<rparr>"
  "update_worker w f (s\<lparr>next_id := i\<rparr>) = (update_worker w f s)\<lparr>next_id := i\<rparr>"
  "update_worker w f (s\<lparr>ops := os\<rparr>) = (update_worker w f s)\<lparr>ops := os\<rparr>"
  "update_worker w f (put_runtime a x s) = put_runtime a x (update_worker w f s)"
  by (simp_all add: update_worker_def put_worker_def put_runtime_def split: option.split)

lemma update_worker_back:
  "(\<And>e. f (g e) = e) \<Longrightarrow> update_worker w f (update_worker w g s) = s"
  by (cases "workers s w") (auto simp: update_worker_def put_worker_def intro!: Bridge.equality)

lemma entered_frame [simp]: "entered (put_runtime a x s) = entered s" "entered (update_worker w f s) = entered s"
  by (simp_all add: put_runtime_def update_worker_def put_worker_def split: option.split)

lemma admit_in_two_steps:
  assumes "entered s n = None" and "\<And>v. op \<noteq> StopServer v" and "a \<in> dom (runtimes s)"
  shows "admit_entered n (enter n (a, r, op) s) = spawn a r op s"
proof -
  have [simp]: "(entered s)(n := None) = entered s" using assms(1) by (simp add: fun_upd_idem)
  have [simp]: "entered u = entered s \<Longrightarrow> u\<lparr>entered := entered s\<rparr> = u" for u by simp
  have [simp]: "put_runtime b x (u\<lparr>entered := es\<rparr>) = (put_runtime b x u)\<lparr>entered := es\<rparr>" for b x u es
    by (simp add: put_runtime_def)
  obtain x where "runtimes s a = Some x" using assms(3) by blast
  then show ?thesis
    using assms(2)
    by (cases op)
      (simp_all add: admit_entered_def enter_def spawn_def spawn_with_def capture_op_def run_captured_def begin_op_def end_op_def
        deref_def call_defs update_worker_frame update_worker_back Let_def split: prod.split outcome.split, blast)
qed

text \<open>For every entry point that starts a request (\<^verbatim>\<open>kt_client_connect\<close>, \<^verbatim>\<open>kt_client_rpc\<close>, \<^verbatim>\<open>kt_worker_validate\<close>,
  \<^verbatim>\<open>kt_worker_complete\<close>, \<^verbatim>\<open>kt_worker_shutdown\<close>, \<^verbatim>\<open>kt_ephemeral_start\<close>) in every reachable state: its checks change nothing,
  and when they pass, a thread that stops after them and goes on with \<^verbatim>\<open>spawn_request\<close>, with no other thread
  in between, returns the same result and leaves the same state as the call in one go, the captured
  worker reference and a rejected future included.\<close>

theorem request_in_two_steps:
  assumes "runs bridge_init bridge_step s" and "request_args env c s = (Ok x, s')" and "entered s n = None"
  shows "s' = s \<and> admit_entered n (enter n x s') = exec env c s"
proof -
  obtain a r op where x: "x = (a, r, op)" by (cases x)
  note c = checked_request [OF assms(1) assms(2) [unfolded x]]
  show ?thesis
    using admit_in_two_steps [OF assms(3) c(3,2)] exec_request [of env c s x] assms(2) c(1)
    by (simp add: x admit_def)
qed

section \<open>A request that comes too late\<close>

lemma spawn_request_closed:
  "rclosed e \<Longrightarrow> spawn_request t r e = (Err Shutdown, e\<lparr>tasks := (tasks e)(t \<mapsto> (r, Finished))\<rparr>)"
  by (simp add: spawn_request_def register_def Let_def set_phase_def tokens_def)

lemma steps_evo: "bridge_step\<^sup>*\<^sup>* s s' \<Longrightarrow> reachable s \<Longrightarrow> evo s s' \<and> reachable s'"
proof (induction rule: rtranclp_induct)
  case (step s1 s2)
  then show ?case using bridge_step_evo [OF br.runs_inv] by (blast intro: evo_trans runs_step)
qed simp

lemma stays_closed:
  assumes "reachable s0" and "frees s0 a = Some (TaskWait err)" and "bridge_step\<^sup>*\<^sup>* s0 s"
  shows "\<exists>x. runtimes s a = Some x \<and> rclosed (requests x)"
proof -
  obtain x where x: "runtimes s0 a = Some x" "rclosed (requests x)"
    using safe_freed(2) [OF reachable_safe [OF assms(1)] assms(2)] by auto
  have "evolves runtime_init runtime_step (request_pool s0) (request_pool s)"
    using steps_evo [OF assms(3,1)] by (simp add: evo_def)
  from evolves_Some [OF this, of a "requests x"] x(1) obtain e where
    "request_pool s a = Some e" "runtime_step\<^sup>*\<^sup>* (requests x) e" by (auto simp: request_pool_def)
  then show ?thesis using runtime_step_mono x(2) by (auto simp: request_pool_def)
qed

text \<open>C15: Once \<^verbatim>\<open>kt_runtime_free\<close> has drained a runtime, from then on and after it returned, a thread that passed the
  checks of a request before that is refused: \<^verbatim>\<open>spawn_request\<close> returns the shutdown error, no operation is
  started, the runtime's queue, pending table, tracker and history stay as they are (the task it reserved
  is finished at once), and the worker reference it held, if any, is given back.\<close>

theorem late_request_refused:
  assumes "runs bridge_init bridge_step s0" and "frees s0 a = Some (TaskWait err)" and "bridge_step\<^sup>*\<^sup>* s0 s"
    and "entered s n = Some (a, r, op)"
  shows "\<exists>s' x. admit_entered n s = (Err Shutdown, s') \<and> background_step s s' \<and> runtimes s a = Some x \<and>
    runtimes s' = (runtimes s)(a \<mapsto> x\<lparr>requests := (requests x)\<lparr>tasks := (tasks (requests x))(next_id s \<mapsto> (r, Finished))\<rparr>\<rparr>) \<and>
    entered s' = (entered s)(n := None) \<and> ops s' = ops s \<and> workers s' = workers (end_op op s)"
proof -
  obtain x where x: "runtimes s a = Some x" "rclosed (requests x)" using stays_closed [OF assms(1-3)] by blast
  have w: "workers (end_op op t) = workers (end_op op s)" if "workers t = workers s" for t
    using that by (cases op) (simp_all add: end_op_def update_worker_def put_worker_def split: option.split)
  have f: "ops (end_op op t) = ops t" "entered (end_op op t) = entered t" for t
    by (cases op; simp add: end_op_def update_worker_def put_worker_def split: option.split)+
  have "admit_entered n s = (Err Shutdown, snd (admit_entered n s))" and
    "runtimes (snd (admit_entered n s)) =
      (runtimes s)(a \<mapsto> x\<lparr>requests := (requests x)\<lparr>tasks := (tasks (requests x))(next_id s \<mapsto> (r, Finished))\<rparr>\<rparr>)" and
    "entered (snd (admit_entered n s)) = (entered s)(n := None)" "ops (snd (admit_entered n s)) = ops s"
    "workers (snd (admit_entered n s)) = workers (end_op op s)"
    using x assms(4)
    by (simp_all add: admit_entered_def spawn_with_def deref_def call_defs Let_def spawn_request_closed put_runtime_def f)
      (rule w, simp)
  with sys_admit [OF assms(4)] x(1) show ?thesis by blast
qed

section \<open>The small run\<close>

text \<open>A thread passes the checks of \<^verbatim>\<open>kt_client_connect\<close>; before it goes on, another frees the runtime and drains it.\<close>

definition demo_entered :: Bridge where
  "demo_entered = demo_opened\<lparr>entered := [5 \<mapsto> (0, 7, demo_operation)]\<rparr>"

definition demo_late :: Bridge where
  "demo_late = free_drain [] 0 None (demo_entered\<lparr>handles := \<lparr>slots = [\<lparr>generation = 2, owner = 0, entry = None\<rparr>], free = [0]\<rparr>,
     frees := [0 \<mapsto> Closing [] None]\<rparr>)"

lemma demo_entered_step: "bridge_step demo_opened demo_entered"
proof -
  have "request_args demo_env (ClientConnect demo_handle 0 0 7) demo_opened = (Ok (0, 7, demo_operation), demo_opened)"
    "enter 5 (0, 7, demo_operation) demo_opened = demo_entered" "entered demo_opened 5 = None"
    by (simp_all add: demo_connect_args enter_def demo_begin) (simp_all add: demo_entered_def demo_opened_def Bridge_init_def)
  with sys_enter show ?thesis by metis
qed

lemma demo_late_runs: "runs bridge_init bridge_step demo_late" "frees demo_late 0 = Some (TaskWait None)"
  "entered demo_late 5 = Some (0, 7, demo_operation)"
proof -
  let ?f = "demo_entered\<lparr>handles := \<lparr>slots = [\<lparr>generation = 2, owner = 0, entry = None\<rparr>], free = [0]\<rparr>,
     frees := [0 \<mapsto> Closing [] None]\<rparr>"
  let ?x = "\<lparr>requests = RuntimeEntry_new, metrics = Some (BridgeMeter_default, []), metric_batch = None\<rparr> :: RuntimeObject"
  have x: "runtimes ?f 0 = Some ?x" "frees ?f 0 = Some (Closing [] None)" by (simp_all add: demo_entered_def demo_opened_def)
  have "take_slot \<lparr>slots = [\<lparr>generation = 1, owner = 0, entry = Some (Runtime 0)\<rparr>], free = []\<rparr> 0 =
      (Ok (Runtime 0), \<lparr>slots = [\<lparr>generation = 2, owner = 0, entry = None\<rparr>], free = [0]\<rparr>)"
    by (simp add: take_slot_def next_generation_def GEN_MASK_def)
  moreover have "demo_handle \<noteq> 0" by (simp add: demo_handle_def)
  ultimately have "free_begin demo_handle demo_entered = (Ok (0, []), ?f)"
    by (simp add: free_begin_def remove_runtime_handles_def call_defs remove_runtime_def validate_def demo_handle_fields
        demo_entered_def demo_opened_def kind_defs Let_def set_free_def Bridge_init_def)
  from sys_free_begin [OF this] have b: "bridge_step demo_entered ?f" .
  have "drain_order (pending (requests ?x)) []" by (simp add: drain_order_def RuntimeEntry_new_def)
  from sys_free_drain [OF x(2,1) this] have "bridge_step ?f demo_late" unfolding demo_late_def by (rule sys_background)
  with b demo_entered_step demo_opened_runs show "runs bridge_init bridge_step demo_late" by (blast intro: runs_step)
  show "frees demo_late 0 = Some (TaskWait None)" using x(1) by (simp add: demo_late_def free_drain_def)
  show "entered demo_late 5 = Some (0, 7, demo_operation)"
    using x(1) by (simp add: demo_late_def free_drain_def set_free_def put_runtime_def) (simp add: demo_entered_def)
qed

theorem request_in_two_steps_witness:
  "admit_entered 5 (enter 5 (0, 7, demo_operation) demo_opened) = (Ok (), demo_asked)"
proof -
  have "request_args demo_env (ClientConnect demo_handle 0 0 7) demo_opened = (Ok (0, 7, demo_operation), demo_opened)"
    "entered demo_opened 5 = None"
    by (simp_all add: demo_connect_args) (simp add: demo_opened_def Bridge_init_def)
  from request_in_two_steps [OF demo_opened_runs this] demo_connect show ?thesis by simp
qed

theorem late_request_refused_witness:
  "\<exists>s'. admit_entered 5 demo_late = (Err Shutdown, s') \<and> background_step demo_late s' \<and> entered s' 5 = None"
  using late_request_refused [OF demo_late_runs(1,2) rtranclp.rtrancl_refl demo_late_runs(3)] by auto

end
