(* ===== verification/Kt_Calls.thy ===== *)
theory Kt_Calls
  imports Kt_Entered
begin

text \<open>
  Who uses a worker's core. A validation and a completion hold a clone of it from the entry point's
  checks to the end of their future, and \<^verbatim>\<open>shutdown\<close> finalizes the core only when it is the last to hold it
  (\<open>Kt_Worker\<close>, with the number \<open>inflight\<close>). This theory shows that in the whole bridge that number is exactly the
  number of threads on their way to \<^verbatim>\<open>spawn_request\<close> and of requests whose future still runs.
\<close>

section \<open>The users of a core\<close>

fun calls_core :: "operation \<Rightarrow> arc \<Rightarrow> bool" where
  "calls_core (Validate v) w = (v = w)"
| "calls_core (Complete v k b) w = (v = w)"
| "calls_core _ w = False"

definition core_users :: "(nat \<rightharpoonup> operation) \<Rightarrow> arc \<Rightarrow> nat set" where
  "core_users m w = {k. \<exists>op. m k = Some op \<and> calls_core op w}"

text \<open>The futures of the threads that passed their checks, and of the accepted requests that have not ended.\<close>

definition arriving :: "Bridge \<Rightarrow> nat \<rightharpoonup> operation" where
  "arriving s n = map_option (snd \<circ> snd) (entered s n)"

definition spawned :: "RuntimeEntry \<Rightarrow> nat \<Rightarrow> bool" where
  "spawned e t \<longleftrightarrow> (\<exists>r. tasks e t = Some (r, Spawned))"

definition running :: "Bridge \<Rightarrow> nat \<rightharpoonup> operation" where
  "running s t = (case ops s t of
      Some (a, op) \<Rightarrow> (case runtimes s a of
          Some x \<Rightarrow> if spawned (requests x) t then Some op else None | None \<Rightarrow> None)
    | None \<Rightarrow> None)"

definition flight :: "Bridge \<Rightarrow> arc \<Rightarrow> nat" where
  "flight s w = (case workers s w of Some x \<Rightarrow> inflight (wentry x) | None \<Rightarrow> 0)"

definition counted :: "Bridge \<Rightarrow> bool" where
  "counted s \<longleftrightarrow> (\<forall>w. finite (core_users (arriving s) w) \<and> finite (core_users (running s) w) \<and>
     flight s w = card (core_users (arriving s) w) + card (core_users (running s) w))"

text \<open>A user comes, goes, or moves from the thread to the future.\<close>

lemma core_users_new: "m k = None \<Longrightarrow> core_users (m(k \<mapsto> op)) w = (if calls_core op w then insert k (core_users m w) else core_users m w)"
  by (auto simp: core_users_def)

lemma core_users_gone: "core_users (m(k := None)) w = core_users m w - {k}"
  by (auto simp: core_users_def)

lemma in_core_users: "m k = Some op \<Longrightarrow> k \<in> core_users m w \<longleftrightarrow> calls_core op w"
  by (simp add: core_users_def)

lemma not_in_core_users: "m k = None \<Longrightarrow> k \<notin> core_users m w"
  by (simp add: core_users_def)

lemma card_gone:
  "m k = Some op \<Longrightarrow> finite (core_users m w) \<Longrightarrow>
   card (core_users m w) = card (core_users (m(k := None)) w) + (if calls_core op w then 1 else 0)"
  using card_Suc_Diff1 [of "core_users m w" k] by (simp add: core_users_gone in_core_users)

lemma card_new:
  "m k = None \<Longrightarrow> finite (core_users m w) \<Longrightarrow>
   card (core_users (m(k \<mapsto> op)) w) = card (core_users m w) + (if calls_core op w then 1 else 0)"
  by (simp add: core_users_new not_in_core_users)

lemma finite_core_users: "finite (core_users m w) \<Longrightarrow> finite (core_users (m(k := x)) w)"
  by (rule finite_subset [of _ "insert k (core_users m w)"]) (auto simp: core_users_def split: if_splits)

lemma counted_starts:
  assumes "counted s" and "arriving s' = arriving s" and "running s' = (running s)(t \<mapsto> op)" and "running s t = None"
    and "\<And>w. flight s' w = flight s w + (if calls_core op w then 1 else 0)"
  shows "counted s'"
  using assms card_new [of "running s" t] by (simp add: counted_def finite_core_users)

lemma counted_enters:
  assumes "counted s" and "arriving s' = (arriving s)(n \<mapsto> op)" and "running s' = running s" and "arriving s n = None"
    and "\<And>w. flight s' w = flight s w + (if calls_core op w then 1 else 0)"
  shows "counted s'"
  using assms card_new [of "arriving s" n] by (simp add: counted_def finite_core_users)

lemma counted_ends:
  assumes "counted s" and "arriving s' = arriving s" and "running s' = (running s)(t := None)" and "running s t = Some op"
    and "\<And>w. flight s' w = flight s w - (if calls_core op w then 1 else 0)"
  shows "counted s'"
  using assms card_gone [of "running s" t op] by (simp add: counted_def finite_core_users)

lemma counted_leaves:
  assumes "counted s" and "arriving s' = (arriving s)(n := None)" and "running s' = running s" and "arriving s n = Some op"
    and "\<And>w. flight s' w = flight s w - (if calls_core op w then 1 else 0)"
  shows "counted s'"
  using assms card_gone [of "arriving s" n op] by (simp add: counted_def finite_core_users)

lemma counted_moves:
  assumes "counted s" and "arriving s' = (arriving s)(n := None)" and "arriving s n = Some op"
    and "running s' = (running s)(t \<mapsto> op)" and "running s t = None" and "\<And>w. flight s' w = flight s w"
  shows "counted s'"
  using assms card_gone [of "arriving s" n op] card_new [where m = "running s" and k = t and op = op] by (simp add: counted_def finite_core_users)

section \<open>What leaves them alone\<close>

definition same_calls :: "Bridge \<Rightarrow> Bridge \<Rightarrow> bool" where
  "same_calls s s' \<longleftrightarrow> entered s' = entered s \<and> running s' = running s \<and> flight s' = flight s"

lemma same_calls_refl: "same_calls s s"
  by (simp add: same_calls_def)

lemma same_calls_trans: "same_calls s s1 \<Longrightarrow> same_calls s1 s2 \<Longrightarrow> same_calls s s2"
  by (simp add: same_calls_def)

lemma arriving_cong: "entered s' = entered s \<Longrightarrow> arriving s' = arriving s"
  by (simp add: arriving_def fun_eq_iff)

lemma counted_same: "counted s \<Longrightarrow> same_calls s s' \<Longrightarrow> counted s'"
  using arriving_cong [of s' s] by (simp add: counted_def same_calls_def)

lemma same_calls_frame:
  "entered s' = entered s \<Longrightarrow> ops s' = ops s \<Longrightarrow> runtimes s' = runtimes s \<Longrightarrow> workers s' = workers s \<Longrightarrow> same_calls s s'"
  by (auto simp: same_calls_def running_def flight_def fun_eq_iff split: option.split)

lemma same_calls_put_runtime:
  "runtimes s a = Some x \<Longrightarrow> (\<And>t. spawned (requests y) t = spawned (requests x) t) \<Longrightarrow> same_calls s (put_runtime a y s)"
  by (auto simp: same_calls_def running_def flight_def fun_eq_iff put_runtime_def split: option.split)

lemma same_calls_new_runtime:
  "runtimes s a = None \<Longrightarrow> (\<And>t. \<not> spawned (requests y) t) \<Longrightarrow> same_calls s (put_runtime a y s)"
  by (auto simp: same_calls_def running_def flight_def fun_eq_iff put_runtime_def split: option.split)

lemma same_calls_put_worker:
  "flight s w = inflight (wentry x) \<Longrightarrow> same_calls s (put_worker w x s)"
  by (auto simp: same_calls_def running_def flight_def fun_eq_iff put_worker_def split: option.split)

lemma same_calls_update_worker: "(\<And>e. inflight (f e) = inflight e) \<Longrightarrow> same_calls s (update_worker w f s)"
  by (auto simp: update_worker_def same_calls_refl flight_def intro: same_calls_put_worker split: option.split)

lemma same_calls_update_server: "same_calls s (update_server v f s)"
  by (rule same_calls_frame) (simp_all add: update_server_def put_server_def split: option.split)

lemma same_calls_set_free: "same_calls s (set_free a pc s)"
  by (rule same_calls_frame) (simp_all add: set_free_def)

lemma same_calls_entry: "same_calls s (drop_entry e s)" "same_calls s (Entry_close e s)"
  by (cases e; auto simp: worker_free_def intro: same_calls_refl same_calls_update_worker same_calls_update_server
      same_calls_trans [OF same_calls_frame same_calls_update_server])+

lemma same_calls_close_all: "same_calls s (fold (\<lambda>e s. drop_entry e (Entry_close e s)) es s)"
proof (induction es arbitrary: s)
  case (Cons e es)
  show ?case unfolding fold_Cons comp_apply
    by (rule same_calls_trans [OF same_calls_trans [OF same_calls_entry(2) same_calls_entry(1)] Cons.IH])
qed (simp add: same_calls_refl)

lemma same_calls_handles: "same_calls s (s\<lparr>handles := t\<rparr>)"
  by (rule same_calls_frame) simp_all

lemma same_calls_drop_pending: "same_calls s (drop_pending p s)"
  unfolding drop_pending_def
  by (auto split: prod.split option.split intro: same_calls_handles same_calls_trans [OF same_calls_handles same_calls_entry(1)])

lemma same_calls_drop_all: "same_calls s (fold drop_pending ps s)"
proof (induction ps arbitrary: s)
  case (Cons p ps)
  show ?case unfolding fold_Cons comp_apply by (rule same_calls_trans [OF same_calls_drop_pending Cons.IH])
qed (simp add: same_calls_refl)

text \<open>Calls that leave them alone, from a state that already has.\<close>

abbreviation unseen :: "Bridge \<Rightarrow> (Bridge \<Rightarrow> bool) \<Rightarrow> (Bridge, 'a) api_call \<Rightarrow> bool" where
  "unseen s P m \<equiv> triple P m (\<lambda>_. same_calls s) (same_calls s)"

lemma unseen_snd: "(\<And>s1. P s1 \<Longrightarrow> same_calls s (snd (m s1))) \<Longrightarrow> unseen s P m"
  unfolding triple_def by (auto split: prod.splits outcome.splits) (metis snd_conv)+

lemma unseen_after:
  "(\<And>s1. P s1 \<Longrightarrow> same_calls s s1) \<Longrightarrow> (\<And>s1. P s1 \<Longrightarrow> same_calls s1 (snd (m s1))) \<Longrightarrow> unseen s P m"
  by (rule unseen_snd) (blast intro: same_calls_trans)

lemma unseen_table:
  assumes "\<And>s1. P s1 \<Longrightarrow> same_calls s s1"
  shows "unseen s P (insert_handle e)" and "unseen s P (insert_owned_handle h e)" and "unseen s P (remove_handle h k)"
    and "unseen s P (remove_runtime_handles h)"
proof -
  show "unseen s P (insert_handle e)" "unseen s P (remove_handle h k)" "unseen s P (remove_runtime_handles h)"
    by (rule unseen_after [OF assms], assumption,
        simp add: insert_handle_def remove_handle_def remove_runtime_handles_def same_calls_handles split: prod.split)+
  show "unseen s P (insert_owned_handle h e)"
    by (rule unseen_after [OF assms], assumption)
      (auto simp: insert_owned_handle_def split: prod.split intro: same_calls_trans [OF same_calls_handles same_calls_close_all])
qed

lemma unseen_mem:
  assumes "\<And>s1. P s1 \<Longrightarrow> same_calls s s1"
  shows "unseen s P (copy_out b out cap n)" and "unseen s P (write_u64 p v)" and "unseen s P (write_u32 q u)"
    and "unseen s P (give r)"
  by (rule unseen_after [OF assms], assumption,
      auto simp: copy_out_def write_u64_def write_u32_def give_def change_def split: prod.split intro!: same_calls_frame)+

lemma unseen_change:
  "(\<And>s1. P s1 \<Longrightarrow> same_calls s s1) \<Longrightarrow> (\<And>s1. P s1 \<Longrightarrow> same_calls s1 (f s1)) \<Longrightarrow> unseen s P (change f)"
  by (rule unseen_after) (simp_all add: change_def)

lemma unseen_alloc:
  assumes "\<And>s1. P s1 \<Longrightarrow> same_calls s s1"
    and "\<And>s1. P s1 \<Longrightarrow> same_calls s1 (put (next_id s1) x (s1\<lparr>next_id := Suc (next_id s1)\<rparr>))"
  shows "unseen s P (alloc put x)"
  by (rule unseen_after [OF assms(1)], assumption) (use assms(2) in \<open>simp add: alloc_def\<close>)

lemmas unseen_rules = unseen_table unseen_mem

lemmas query_rules = triple_then_do triple_ask triple_require triple_the triple_queries triple_decoded triple_core_behind
  triple_deref triple_give

lemma spawned_cong: "tasks e = tasks e' \<Longrightarrow> spawned e t = spawned e' t"
  by (simp add: spawned_def)

lemma same_calls_requests:
  "runtimes s a = Some x \<Longrightarrow> tasks e = tasks (requests x) \<Longrightarrow> same_calls s (put_runtime a (x\<lparr>requests := e\<rparr>) s)"
  by (rule same_calls_put_runtime) (simp_all add: spawned_def)

lemma start_inflight: "start e = (r, e') \<Longrightarrow> inflight e' = inflight e"
  by (auto simp: start_def split: WorkerState.splits bool.splits)

lemma start_same: "workers s w = Some x \<Longrightarrow>
  same_calls s (snd (case start (wentry x) of (r, e) \<Rightarrow> (r :: unit KtResult, put_worker w (x\<lparr>wentry := e, whandle := h\<rparr>) s)))"
  by (auto split: prod.split simp: flight_def start_inflight intro!: same_calls_put_worker)

lemma drain_metrics_requests: "drain_metrics j ls x = (r, x') \<Longrightarrow> requests x' = requests x"
  by (auto simp: drain_metrics_def Let_def split: prod.splits outcome.splits if_splits)

lemma pending_batch_same: "runtimes s a = Some x \<Longrightarrow> same_calls s (snd (pending_batch env a x s))"
  by (auto simp: pending_batch_def Let_def split: option.split prod.split outcome.split
      intro!: same_calls_refl same_calls_put_runtime dest: drain_metrics_requests)

lemma poll_batch_same:
  "runtimes s (po_runtime po) = Some x \<Longrightarrow> same_calls s (snd (poll_batch env p po x q out cap s))"
proof -
  assume x: "runtimes s (po_runtime po) = Some x"
  have "same_calls s ((put_poller p po' (put_runtime (po_runtime po) (x\<lparr>requests := (requests x)\<lparr>rqueue := q', polled := ps\<rparr>\<rparr>) s))\<lparr>mem := m\<rparr>)"
    "same_calls s (put_poller p po' (put_runtime (po_runtime po) (x\<lparr>requests := (requests x)\<lparr>rqueue := q', polled := ps\<rparr>\<rparr>) s))" for po' q' ps m
    by (rule same_calls_trans [OF same_calls_requests [OF x] same_calls_frame]; simp add: put_poller_def)+
  then show ?thesis by (auto simp: poll_batch_def Let_def split: prod.split outcome.split)
qed

lemma unseen_poll:
  assumes "\<And>s1. P s1 \<Longrightarrow> same_calls s s1"
  shows "unseen s P (poll_finish env timed_out p c)" and "unseen s P (poll_start p c)"
proof -
  have batch: "(\<And>s1. P s1 \<Longrightarrow> same_calls s s1 \<and> runtimes s1 (po_runtime po) = Some x) \<Longrightarrow> unseen s P (poll_batch env p po x q out cap)"
    for P po x q out cap
    by (rule unseen_after) (blast intro: poll_batch_same)+
  show "unseen s P (poll_finish env timed_out p c)"
    unfolding poll_finish_def Let_def by (rule query_rules batch | fastforce dest: assms)+
  have "same_calls s (put_poller p po s1)" if "P s1" for s1 po
    by (rule same_calls_trans [OF assms [OF that] same_calls_frame]) (simp_all add: put_poller_def)
  then show "unseen s P (poll_start p c)" unfolding poll_start_def triple_def
    by (auto simp: deref_def call_defs assms split: option.splits sum.splits outcome.splits prod.splits)
qed

lemma unseen_poller_poll: "unseen s ((=) s) (kt_poller_poll env h out cap timeout n)"
proof -
  have polls: "(\<And>s1. P s1 \<Longrightarrow> same_calls s s1) \<Longrightarrow> unseen s P (poll env p c)" for P p c
    unfolding poll_def
    by (rule triple_then_do [OF unseen_poll(2)]) (auto intro: unseen_mem unseen_poll split: option.split)
  show ?thesis unfolding kt_poller_poll_def
    by (rule query_rules polls unseen_rules | fastforce intro: same_calls_refl)+
qed

section \<open>Entry points\<close>

text \<open>A new object has no user.\<close>

lemma unseen_new_runtime:
  assumes "\<And>s1. P s1 \<Longrightarrow> s1 = s \<and> requests x = RuntimeEntry_new" and "reachable s"
  shows "unseen s P (alloc put_runtime x)"
proof (rule unseen_alloc)
  fix s1
  assume "P s1"
  then have s1: "s1 = s" "requests x = RuntimeEntry_new" using assms(1) by blast+
  then show "same_calls s s1" by (simp add: same_calls_refl)
  have "same_calls s1 (s1\<lparr>next_id := Suc (next_id s1)\<rparr>)" by (rule same_calls_frame) simp_all
  moreover have "runtimes s (next_id s) = None" by (rule safe_new_id(1) [OF reachable_safe [OF assms(2)]])
  ultimately show "same_calls s1 (put_runtime (next_id s1) x (s1\<lparr>next_id := Suc (next_id s1)\<rparr>))"
    using s1 by (auto intro!: same_calls_trans [OF _ same_calls_new_runtime] simp: spawned_def RuntimeEntry_new_def)
qed

lemma unseen_new_worker:
  assumes "\<And>s1. P s1 \<Longrightarrow> s1 = s \<and> wentry x = WorkerEntry_new" and "reachable s"
  shows "unseen s P (alloc put_worker x)"
proof (rule unseen_alloc)
  fix s1
  assume "P s1"
  then have s1: "s1 = s" "wentry x = WorkerEntry_new" using assms(1) by blast+
  then show "same_calls s s1" by (simp add: same_calls_refl)
  have "same_calls s1 (s1\<lparr>next_id := Suc (next_id s1)\<rparr>)" by (rule same_calls_frame) simp_all
  moreover have "workers s (next_id s) = None" by (rule safe_new_id(3) [OF reachable_safe [OF assms(2)]])
  ultimately show "same_calls s1 (put_worker (next_id s1) x (s1\<lparr>next_id := Suc (next_id s1)\<rparr>))"
    using s1 by (auto intro!: same_calls_trans [OF _ same_calls_put_worker] simp: flight_def WorkerEntry_new_def)
qed

lemma unseen_new_other:
  assumes "\<And>s1. P s1 \<Longrightarrow> same_calls s s1"
  shows "unseen s P (alloc put_poller po)" and "unseen s P (alloc put_client c)" and "unseen s P (alloc put_server v)"
  by (rule unseen_alloc [OF assms], assumption, rule same_calls_frame, simp_all add: put_poller_def put_client_def put_server_def)+

text \<open>The entry points that start no request.\<close>

lemma unseen_runtime_new: "reachable s \<Longrightarrow> unseen s ((=) s) (kt_runtime_new env cfg n out)"
  unfolding kt_runtime_new_def
  by (rule query_rules unseen_rules unseen_new_runtime | assumption | fastforce intro: same_calls_refl dest: new_runtime_Ok)+

lemma unseen_worker_new: "reachable s \<Longrightarrow> unseen s ((=) s) (kt_worker_new env h c cfg n out)"
  unfolding kt_worker_new_def
  by (rule query_rules unseen_rules unseen_new_worker | assumption | fastforce intro: same_calls_refl)+

lemma unseen_poller_new: "unseen s ((=) s) (kt_poller_new h fl out)"
  unfolding kt_poller_new_def by (rule query_rules unseen_rules unseen_new_other | fastforce intro: same_calls_refl)+

lemma unseen_infos:
  "unseen s ((=) s) (kt_runtime_info env h out cap n)" "unseen s ((=) s) (kt_ephemeral_info env v out cap n)"
  "unseen s ((=) s) (kt_worker_heartbeat env w b len)"
  unfolding kt_runtime_info_def kt_ephemeral_info_def kt_worker_heartbeat_def
  by (rule query_rules unseen_rules | fastforce intro: same_calls_refl)+

lemma unseen_retrieve_metrics: "unseen s ((=) s) (kt_runtime_retrieve_metrics env h out cap n)"
proof -
  have batch: "(\<And>s1. P s1 \<Longrightarrow> same_calls s s1 \<and> runtimes s1 a = Some x) \<Longrightarrow> unseen s P (pending_batch env a x)" for P a x
    by (rule unseen_after) (blast intro: pending_batch_same)+
  have release: "same_calls s1 (put_runtime a (x\<lparr>metric_batch := None\<rparr>) s1)" if "runtimes s1 a = Some x" for s1 a x
    by (rule same_calls_put_runtime [OF that]) simp
  show ?thesis unfolding kt_runtime_retrieve_metrics_def
    by (rule query_rules batch unseen_rules unseen_change | fastforce intro: same_calls_refl release)+
qed

lemma unseen_tables:
  "unseen s ((=) s) (kt_cancel h r)" "unseen s ((=) s) (kt_poller_wake h)"
  unfolding kt_cancel_def kt_poller_wake_def
  by (rule query_rules unseen_change | fastforce intro: same_calls_refl same_calls_requests)+

lemma unseen_frees:
  "unseen s ((=) s) (kt_client_free h)" "unseen s ((=) s) (kt_poller_free h)" "unseen s ((=) s) (kt_worker_free h)"
proof -
  have "same_calls s1 ((case e of Worker w \<Rightarrow> update_worker w worker_free | _ \<Rightarrow> id) s1)" for e s1
    using same_calls_entry(2) [of s1 e] by (cases e) (simp_all add: same_calls_refl)
  then show "unseen s ((=) s) (kt_client_free h)" "unseen s ((=) s) (kt_poller_free h)" "unseen s ((=) s) (kt_worker_free h)"
    unfolding kt_client_free_def kt_poller_free_def kt_worker_free_def
    by (intro triple_then_do [OF unseen_table(3)] unseen_change; simp add: same_calls_refl same_calls_entry)+
qed

lemma unseen_workers:
  "unseen s ((=) s) (kt_worker_start h w)" "unseen s ((=) s) (kt_worker_initiate_shutdown w)"
  "unseen s ((=) s) (kt_worker_update_resource w m out)"
proof -
  have st: "(\<And>s1. P s1 \<Longrightarrow> same_calls s s1 \<and> workers s1 w = Some x) \<Longrightarrow>
      unseen s P (\<lambda>s. case start (wentry x) of (r, e) \<Rightarrow> (r :: unit KtResult, put_worker w (x\<lparr>wentry := e, whandle := h\<rparr>) s))" for P w x h
    by (rule unseen_after) (blast intro: start_same)+
  show "unseen s ((=) s) (kt_worker_start h w)" unfolding kt_worker_start_def
    by (rule query_rules st | fastforce intro: same_calls_refl)+
  show "unseen s ((=) s) (kt_worker_initiate_shutdown w)" unfolding kt_worker_initiate_shutdown_def
    by (rule query_rules unseen_change | fastforce intro: same_calls_refl same_calls_update_worker)+
  have gate: "same_calls s1 (put_worker w (x\<lparr>wresources := g\<rparr>) s1)" if "workers s1 w = Some x" for s1 w x g
    by (rule same_calls_put_worker) (simp add: flight_def that)
  show "unseen s ((=) s) (kt_worker_update_resource w m out)" unfolding kt_worker_update_resource_def
    by (rule query_rules unseen_change | fastforce intro: same_calls_refl same_calls_frame gate)+
qed

section \<open>Requests\<close>

lemma flight_call:
  "workers s v = Some x \<Longrightarrow> flight (update_worker v (\<lambda>e. e\<lparr>inflight := inflight e + 1\<rparr>) s) w = flight s w + (if v = w then 1 else 0)"
  by (auto simp: flight_def update_worker_def put_worker_def)

lemma op_users_frame:
  "entered (begin_op t op s) = entered s" "running (begin_op t op s) = running s"
  "entered (capture_op op s) = entered s" "running (capture_op op s) = running s"
  "entered (end_op op s) = entered s" "running (end_op op s) = running s"
  "entered (drop_op t op s) = entered s" "running (drop_op t op s) = running s"
proof -
  have w: "entered (update_worker v f s) = entered s" "running (update_worker v f s) = running s" for v f s
    by (simp_all add: update_worker_def put_worker_def running_def fun_eq_iff split: option.split)
  have v: "entered (update_server v f s) = entered s" "running (update_server v f s) = running s" for v f s
    by (simp_all add: update_server_def put_server_def running_def fun_eq_iff split: option.split)
  show "entered (begin_op t op s) = entered s" "running (begin_op t op s) = running s"
    "entered (capture_op op s) = entered s" "running (capture_op op s) = running s"
    "entered (end_op op s) = entered s" "running (end_op op s) = running s"
    "entered (drop_op t op s) = entered s" "running (drop_op t op s) = running s"
    by (cases op; simp add: begin_op_def capture_op_def end_op_def drop_op_def w v)+
qed

lemma flight_begins:
  assumes "\<And>v. calls_core op v \<Longrightarrow> workers s v \<noteq> None"
  shows "flight (begin_op t op s) w = flight s w + (if calls_core op w then 1 else 0)"
    and "flight (capture_op op s) w = flight s w + (if calls_core op w then 1 else 0)"
proof -
  have "same_calls s (update_worker v (go t LockWait) s)" for v
    by (rule same_calls_update_worker) (simp add: go_def)
  then have [simp]: "flight (update_worker v (go t LockWait) s) = flight s" "flight (update_server v f s) = flight s" for v f
    using same_calls_update_server [of s v f] by (simp_all add: same_calls_def)
  have call: "flight (update_worker v (\<lambda>e. e\<lparr>inflight := inflight e + 1\<rparr>) s) w = flight s w + (if v = w then 1 else 0)"
    if "workers s v \<noteq> None" for v
    using that flight_call by blast
  show "flight (begin_op t op s) w = flight s w + (if calls_core op w then 1 else 0)"
    "flight (capture_op op s) w = flight s w + (if calls_core op w then 1 else 0)"
    using assms call by (cases op; simp add: begin_op_def capture_op_def)+
qed

lemma flight_ends:
  "flight (end_op op s) w = flight s w - (if calls_core op w then 1 else 0)"
  "flight (drop_op t op s) w = flight s w - (if calls_core op w then 1 else 0)"
proof -
  show e: "flight (end_op op s) w = flight s w - (if calls_core op w then 1 else 0)"
    by (cases op) (auto simp: end_op_def flight_def update_worker_def put_worker_def split: option.split)
  have "same_calls s (update_worker v (\<lambda>e. if awaiting (shutdowns e t) then e\<lparr>shutdowns := (shutdowns e)(t := None)\<rparr> else e) s)"
    "same_calls s (update_server v f s)" for v f
    by (rule same_calls_update_worker, simp) (rule same_calls_update_server)
  then show "flight (drop_op t op s) w = flight s w - (if calls_core op w then 1 else 0)"
    using e by (cases op) (simp_all add: drop_op_def same_calls_def)
qed

lemma spawn_request_tasks:
  "u \<noteq> t \<Longrightarrow> spawned (snd (spawn_request t r e)) u = spawned e u"
  "spawned (snd (spawn_request t r e)) t \<longleftrightarrow> (\<exists>y. fst (spawn_request t r e) = Ok y)"
  by (auto simp: spawn_request_def register_def Let_def set_phase_def spawned_def)

text \<open>\<^verbatim>\<open>spawn_request\<close> accepts the future, which now runs, or drops it.\<close>

lemma spawn_with_users:
  assumes s: "safe s0 s" and x: "runtimes s a = Some x" and sp: "spawn_with accept reject a r op s = (q, s')"
  shows "\<exists>s1. entered s1 = entered s \<and> workers s1 = workers s \<and> (\<forall>w. flight s1 w = flight s w) \<and> running s (next_id s) = None \<and>
    (q = Ok () \<and> s' = accept (next_id s) s1 \<and> running s1 = (running s)(next_id s \<mapsto> op) \<or>
     (\<forall>y. q \<noteq> Ok y) \<and> s' = reject s1 \<and> running s1 = running s)"
proof -
  let ?t = "next_id s"
  obtain p e where p: "spawn_request ?t r (requests x) = (p, e)" by (cases "spawn_request ?t r (requests x)")
  let ?s1 = "(put_runtime a (x\<lparr>requests := e\<rparr>) s)\<lparr>next_id := ?t + 1, ops := (ops s)(?t \<mapsto> (a, op))\<rparr>"
  let ?s2 = "(put_runtime a (x\<lparr>requests := e\<rparr>) s)\<lparr>next_id := ?t + 1\<rparr>"
  have o: "ops s ?t = None" by (rule safe_new_id(6) [OF s])
  note sp' = spawn_request_tasks [where t = ?t and r = r and e = "requests x", unfolded p, simplified]
  have n: "running s ?t = None" using o by (simp add: running_def)
  have 1: "running ?s1 = (running s)(?t \<mapsto> op)" if "p = Ok ()"
    using sp' x that by (auto simp: running_def fun_eq_iff put_runtime_def split: option.split)
  have 2: "running ?s2 = running s"
  proof
    fix u
    show "running ?s2 u = running s u"
      using sp'(1) [of u] x o by (cases "u = ?t") (auto simp: running_def put_runtime_def split: option.split)
  qed
  have f: "flight ?s1 w = flight s w" "flight ?s2 w = flight s w" "entered ?s1 = entered s" "entered ?s2 = entered s"
    "workers ?s1 = workers s" "workers ?s2 = workers s" for w by (simp_all add: flight_def put_runtime_def)
  have q: "(q, s') = (case p of Ok _ \<Rightarrow> (Ok (), accept ?t ?s1) | Err y \<Rightarrow> (Err y, reject ?s2) | Panicked y \<Rightarrow> (Panicked y, reject ?s2))"
    using sp x p by (simp add: spawn_with_def deref_def call_defs Let_def split: outcome.splits)
  show ?thesis
  proof (cases p)
    case (Ok u)
    then show ?thesis using n 1 f(1,3,5) q by (intro exI [of _ ?s1]) simp
  qed (use n 2 f(2,4,6) q in \<open>intro exI [of _ ?s2]; simp\<close>)+
qed

lemma ready_users: "op_ready s op \<Longrightarrow> calls_core op v \<Longrightarrow> workers s v \<noteq> None"
  by (cases op) auto

lemma counted_spawn:
  assumes "reachable s" and "counted s" and "runtimes s a = Some x" and "op_ready s op"
  shows "counted (snd (spawn a r op s))"
proof -
  obtain q s' where sp: "spawn_with (\<lambda>t. begin_op t op) (\<lambda>s. s) a r op s = (q, s')" by fastforce
  from spawn_with_users [OF reachable_safe [OF assms(1)] assms(3) sp] obtain s1 where
    s1: "entered s1 = entered s" "workers s1 = workers s" "\<And>w. flight s1 w = flight s w" "running s (next_id s) = None"
    and "q = Ok () \<and> s' = begin_op (next_id s) op s1 \<and> running s1 = (running s)(next_id s \<mapsto> op) \<or>
      (\<forall>y. q \<noteq> Ok y) \<and> s' = s1 \<and> running s1 = running s" by blast
  then consider (accepted) "s' = begin_op (next_id s) op s1" "running s1 = (running s)(next_id s \<mapsto> op)"
    | (refused) "s' = s1" "running s1 = running s" by blast
  then have "counted s'"
  proof cases
    case accepted
    have "\<And>v. calls_core op v \<Longrightarrow> workers s1 v \<noteq> None" using ready_users [OF assms(4)] s1(2) by simp
    then show ?thesis
      using accepted s1 flight_begins(1) [of op s1] arriving_cong [of s' s]
      by (intro counted_starts [OF assms(2)]) (simp_all add: op_users_frame)
  next
    case refused
    then show ?thesis using s1 by (intro counted_same [OF assms(2)]) (simp add: same_calls_def fun_eq_iff)
  qed
  then show ?thesis by (simp add: spawn_def sp)
qed

lemma entered_users: "running (s\<lparr>entered := es\<rparr>) = running s" "flight (s\<lparr>entered := es\<rparr>) w = flight s w"
  by (auto simp: running_def flight_def fun_eq_iff split: option.split)

lemma counted_enter:
  assumes "counted s" and "op_ready s op" and "entered s n = None"
  shows "counted (enter n (a, r, op) s)"
proof (rule counted_enters [OF assms(1), of _ n op])
  let ?s = "enter n (a, r, op) s"
  show "arriving ?s = (arriving s)(n \<mapsto> op)" by (simp add: arriving_def enter_def fun_eq_iff)
  show "arriving s n = None" using assms(3) by (simp add: arriving_def)
  show "running ?s = running s" "flight ?s w = flight s w + (if calls_core op w then 1 else 0)" for w
    using flight_begins(2) [of op s w, OF ready_users [OF assms(2)]] by (simp_all add: enter_def op_users_frame entered_users)
qed

lemma run_captured_same: "same_calls s (run_captured t op s)"
  by (cases op) (auto simp: run_captured_def begin_op_def go_def intro: same_calls_refl same_calls_update_worker)

lemma counted_admit:
  assumes "reachable s" and "counted s" and n: "entered s n = Some (a, r, op)" and live: "runtimes s a \<noteq> None"
  shows "counted (snd (admit_entered n s))"
proof -
  obtain x where Some: "runtimes s a = Some x" using live by blast
  let ?s0 = "s\<lparr>entered := (entered s)(n := None)\<rparr>"
  obtain q s' where sp: "spawn_with (\<lambda>t. run_captured t op) (end_op op) a r op ?s0 = (q, s')" by fastforce
  have "safe (s, {}) ?s0" by (rule safe_entered [OF reachable_safe [OF assms(1)]])
  from spawn_with_users [OF this _ sp] Some obtain s1 where
    s1: "entered s1 = (entered s)(n := None)" "\<And>w. flight s1 w = flight ?s0 w" "running ?s0 (next_id s) = None"
    and c: "q = Ok () \<and> s' = run_captured (next_id s) op s1 \<and> running s1 = (running ?s0)(next_id s \<mapsto> op) \<or>
      (\<forall>y. q \<noteq> Ok y) \<and> s' = end_op op s1 \<and> running s1 = running ?s0" by auto
  note 0 = entered_users [where s = s and es = "(entered s)(n := None)"]
  have a: "arriving s n = Some op" using n by (simp add: arriving_def)
  have b: "arriving s' = (arriving s)(n := None)" if "entered s' = entered s1"
    using that s1(1) by (simp add: arriving_def fun_eq_iff)
  from c consider (accepted) "s' = run_captured (next_id s) op s1" "running s1 = (running ?s0)(next_id s \<mapsto> op)"
    | (refused) "s' = end_op op s1" "running s1 = running ?s0" by blast
  then have "counted s'"
  proof cases
    case accepted
    then have f: "entered s' = entered s1" "running s' = (running s)(next_id s \<mapsto> op)" "flight s' w = flight s w" for w
      using run_captured_same [of s1 "next_id s" op] s1(2) 0 by (simp_all add: same_calls_def)
    show ?thesis using a b [OF f(1)] f s1(3) 0 by (intro counted_moves [OF assms(2)]) simp_all
  next
    case refused
    then have f: "entered s' = entered s1" "running s' = running s"
      "flight s' w = flight s w - (if calls_core op w then 1 else 0)" for w
      using s1(2) 0 by (simp_all add: op_users_frame flight_ends)
    show ?thesis using a b [OF f(1)] f by (intro counted_leaves [OF assms(2)]) simp_all
  qed
  then show ?thesis using n by (simp add: admit_entered_def sp)
qed

section \<open>Every step\<close>

text \<open>A step keeps the count, and a thread that is new in \<open>entered\<close> holds a live runtime.\<close>

definition keeps_count :: "Bridge \<Rightarrow> Bridge \<Rightarrow> bool" where
  "keeps_count s s' \<longleftrightarrow> counted s' \<and> (\<forall>n c. entered s' n = Some c \<longrightarrow> entered s n = Some c \<or> runtimes s (fst c) \<noteq> None)"

lemma keeps_count_same: "counted s \<Longrightarrow> same_calls s s' \<Longrightarrow> keeps_count s s'"
  using counted_same by (simp add: keeps_count_def same_calls_def)

lemma keeps_count_unseen: "counted s \<Longrightarrow> unseen s ((=) s) m \<Longrightarrow> keeps_count s (snd (m s))"
  by (rule keeps_count_same, assumption, cases "m s") (auto simp: triple_def split: outcome.splits)

lemma spawn_entered: "entered (snd (spawn a r op s)) = entered s"
  by (simp add: spawn_def spawn_with_def deref_def call_defs op_users_frame put_runtime_def Let_def
      split: option.split prod.split outcome.split)

lemma count_spawn:
  "reachable s \<Longrightarrow> counted s \<Longrightarrow> a \<in> dom (runtimes s) \<Longrightarrow> op_ready s op \<Longrightarrow> keeps_count s (snd (spawn a r op s))"
  using counted_spawn by (auto simp: keeps_count_def spawn_entered)

lemma count_request:
  assumes "reachable s" and "counted s" and "exec env c = then_do (request_args env c) admit"
  shows "keeps_count s (snd (exec env c s))"
proof (cases "\<exists>a r op s'. request_args env c s = (Ok (a, r, op), s')")
  case True
  then obtain a r op s' where q: "request_args env c s = (Ok (a, r, op), s')" by blast
  note k = checked_request [OF assms(1) q]
  have "op_ready s op" using triple_use [OF checks_request reachable_safe [OF assms(1)] q] k(1) by simp
  then show ?thesis using count_spawn [OF assms(1,2) k(2)] exec_request [of env c s] q k(1) by (simp add: admit_def)
next
  case False
  obtain q s' where q: "request_args env c s = (q, s')" by fastforce
  have "s' = s" using triple_use [OF checks_keep [OF reachable_safe [OF assms(1)]] refl q] False q by (cases q) auto
  then have "snd (exec env c s) = s" using assms(3) q False by (cases q) (auto simp: then_do_def)
  then show ?thesis by (simp add: keeps_count_same [OF assms(2) same_calls_refl])
qed

lemma count_server_shutdown:
  assumes "reachable s" and "counted s"
  shows "keeps_count s (snd (kt_ephemeral_shutdown h v r s))"
proof (cases "\<exists>a e. get_runtime (handles s) h = Ok a \<and> get_ephemeral (handles s) v = Ok e \<and>
    kt_ephemeral_shutdown h v r s = spawn a r (StopServer e) s")
  case True
  then obtain a e own own' where "kt_ephemeral_shutdown h v r s = spawn a r (StopServer e) s"
    "lookup_handle (handles s) h = Some (own, Runtime a)" "lookup_handle (handles s) v = Some (own', Ephemeral e)"
    by (blast dest: getters_lookup)
  then show ?thesis
    using count_spawn [OF assms, of a "StopServer e" r] live_runtime [OF reachable_safe [OF assms(1)]]
      live_server [OF reachable_safe [OF assms(1)]] by simp
next
  case False
  then have "snd (kt_ephemeral_shutdown h v r s) = s"
    by (auto simp: kt_ephemeral_shutdown_def some_request_def the_runtime_def owned_by_def the_server_def call_defs split: outcome.split)
  then show ?thesis by (simp add: keeps_count_same [OF assms(2) same_calls_refl])
qed

lemma free_refused_same:
  "returns env c s \<Longrightarrow> c = RuntimeFree h \<or> c = EphemeralFree h \<Longrightarrow> same_calls s (snd (exec env c s))"
  by (elim disjE) (auto simp: kt_runtime_free_def kt_ephemeral_free_def free_begin_def server_free_begin_def
      remove_runtime_handles_def remove_handle_def call_defs split: prod.splits outcome.splits intro: same_calls_handles)

lemma count_call:
  assumes "reachable s" and "counted s" and "returns env c s"
  shows "keeps_count s (snd (exec env c s))"
proof -
  note u = keeps_count_unseen [OF assms(2)]
  note v = keeps_count_same [OF assms(2) free_refused_same [OF assms(3)]]
  show ?thesis
    by (cases c)
      (use u [OF unseen_runtime_new [OF assms(1)]] u [OF unseen_worker_new [OF assms(1)]] u [OF unseen_poller_new] u [OF unseen_infos(1)]
        u [OF unseen_infos(2)] u [OF unseen_infos(3)] u [OF unseen_retrieve_metrics] u [OF unseen_tables(1)] u [OF unseen_tables(2)]
        u [OF unseen_frees(1)] u [OF unseen_frees(2)] u [OF unseen_frees(3)] u [OF unseen_workers(1)] u [OF unseen_workers(2)]
        u [OF unseen_workers(3)] u [OF unseen_poller_poll] v count_server_shutdown [OF assms(1,2)] count_request [OF assms(1,2), of env c]
       in \<open>simp_all add: kt_client_connect_def kt_client_rpc_def kt_worker_validate_def kt_worker_complete_def
         kt_worker_shutdown_def kt_ephemeral_start_def\<close>)
qed

lemma entry_ops [simp]: "ops (drop_entry e s) = ops s" "ops (Entry_close e s) = ops s"
  by (cases e; simp add: update_server_def put_server_def update_worker_def put_worker_def split: option.split)+

lemma close_all_ops [simp]: "ops (fold (\<lambda>e s. drop_entry e (Entry_close e s)) es s) = ops s"
  by (induction es arbitrary: s) simp_all

lemma created_same:
  assumes "report_created r h e f s = (q, s')"
  shows "same_calls s s'" and "ops s' = ops s"
proof -
  have "unseen s ((=) s) (insert_owned_handle h e)" by (rule unseen_table) (simp add: same_calls_refl)
  from triple_use [OF this refl prod.collapse [symmetric]] have "same_calls s (snd (insert_owned_handle h e s))"
    by (simp split: outcome.splits)
  moreover have "ops (snd (insert_owned_handle h e s)) = ops s" by (simp add: insert_owned_handle_def split: prod.split)
  moreover have "s' = snd (insert_owned_handle h e s)"
    using assms by (auto simp: report_created_def split: prod.splits outcome.splits)
  ultimately show "same_calls s s'" "ops s' = ops s" by simp_all
qed

lemma op_result_same: "op_result a op r t s p s' \<Longrightarrow> same_calls s s' \<and> ops s' = ops s"
proof (induction rule: op_result.induct)
  case (op_connected dial options ns conn ns' r runtime s p s' a t)
  let ?s = "put_client (next_id s) ns' (s\<lparr>next_id := Suc (next_id s)\<rparr>)"
  have "same_calls s ?s" "ops ?s = ops s" by (rule same_calls_frame; simp add: put_client_def) (simp add: put_client_def)
  moreover have "report_created r runtime (Client (next_id s)) (\<lambda>h. Pending_aux0 h (Pending_kind ClientConnected (Pending_ack r))) ?s = (Ok p, s')"
    using op_connected(2) by (simp add: client_connected_def alloc_def call_defs)
  note created_same [OF this]
  ultimately show ?case by (auto intro: same_calls_trans)
next
  case (op_server_started open_file start_server options info encode_info r a runtime s p s' t)
  let ?s = "put_server (next_id s) \<lparr>sentry = EphemeralEntry_new, sinfo = info, sruntime = a\<rparr> (s\<lparr>next_id := Suc (next_id s)\<rparr>)"
  have "same_calls s ?s" "ops ?s = ops s" by (rule same_calls_frame; simp add: put_server_def) (simp add: put_server_def)
  moreover have "report_created r runtime (Ephemeral (next_id s))
      (\<lambda>h. Pending_payload (encode_info info) (Pending_aux0 h (Pending_kind EphemeralStarted (Pending_ack r)))) ?s = (Ok p, s')"
    using op_server_started(2) by (simp add: server_started_def alloc_def call_defs)
  note created_same [OF this]
  ultimately show ?case by (auto intro: same_calls_trans)
qed (simp_all add: same_calls_refl)

text \<open>The end of a future.\<close>

lemma op_frames [simp]: "ops (end_op op s) = ops s" "ops (drop_op t op s) = ops s"
  by (cases op; simp add: end_op_def drop_op_def update_server_def put_server_def update_worker_def put_worker_def split: option.split)+

lemma resolve_users:
  assumes "runtimes s a = Some x" and "ops s t = Some (a, op)"
  shows "running (resolve a t r p s) = (running s)(t := None)" "flight (resolve a t r p s) = flight s"
    "entered (resolve a t r p s) = entered s"
  using assms by (auto simp: resolve_def running_def flight_def fun_eq_iff put_runtime_def spawned_def set_phase_def split: option.split)

lemma counted_future_ends:
  assumes "counted s" and s1: "same_calls s s1" "runtimes s1 = runtimes s" "ops s1 = ops s"
    and x: "runtimes s a = Some x" "tasks (requests x) t = Some (r, Spawned)" "ops s t = Some (a, op)"
    and s2: "s2 = end_op op s1 \<or> s2 = drop_op t op s1"
  shows "keeps_count s (resolve a t r p s2)"
proof -
  have f: "runtimes s2 a = Some x" "ops s2 t = Some (a, op)" "entered s2 = entered s" "running s2 = running s"
    "flight s2 w = flight s w - (if calls_core op w then 1 else 0)" for w
    using s1 x s2 by (auto simp: op_users_frame flight_ends same_calls_def)
  have "running s t = Some op" using x by (simp add: running_def spawned_def)
  then have "counted (resolve a t r p s2)"
    using resolve_users [OF f(1,2)] f(3-5) arriving_cong [of "resolve a t r p s2" s]
    by (intro counted_ends [OF assms(1)]) simp_all
  then show ?thesis using resolve_users(3) [OF f(1,2)] f(3) by (simp add: keeps_count_def)
qed

lemma shutdown_inflight: "shutdown_progress e e' \<Longrightarrow> inflight e' = inflight e"
  by (induction rule: shutdown_progress.induct)
    (auto simp: worker_step_defs split: if_splits WorkerState.splits outcome.splits)

lemma retire_same:
  assumes "runtimes s a = Some x" and "tasks (requests x) t = Some (r, Resolved p)"
  shows "same_calls s (retire_op a t r p s)"
proof -
  let ?e = "set_phase t r (Resolved p) Finished (finish_request r p (requests x))"
  have "same_calls s (put_runtime a (x\<lparr>requests := ?e\<rparr>) s)"
    by (rule same_calls_put_runtime [OF assms(1)]) (use assms(2) in \<open>simp add: spawned_def set_phase_def\<close>)
  then show ?thesis
    using same_calls_trans [OF _ same_calls_drop_all] assms(1) by (simp add: retire_op_def Let_def)
qed

lemma unseen_server_shutdown: "(\<And>s1. P s1 \<Longrightarrow> same_calls s s1) \<Longrightarrow> unseen s P (server_shutdown env v)"
proof (rule unseen_after)
  fix s1
  show "same_calls s1 (snd (server_shutdown env v s1))"
    by (simp add: server_shutdown_def deref_def call_defs same_calls_refl same_calls_update_server split: option.split outcome.split)
qed

lemma unseen_blocked:
  "unseen s ((=) s) (free_child env a c cs err)" "unseen s ((=) s) (server_free_end env v)"
proof -
  have f: "same_calls s1 (s1\<lparr>stopping := vs\<rparr>)" for s1 vs
    by (rule same_calls_frame) simp_all
  have d: "same_calls s1 (drop_entry e (Entry_close e s1))" for e s1
    by (rule same_calls_trans [OF same_calls_entry(2) same_calls_entry(1)])
  have c: "(\<And>s1. P s1 \<Longrightarrow> same_calls s s1) \<Longrightarrow> unseen s P (shutdown_child env c)" for P
    by (cases c) (simp_all add: unseen_server_shutdown unseen_mem)
  show "unseen s ((=) s) (free_child env a c cs err)" unfolding free_child_def
    by (intro triple_then_do [OF unseen_change] triple_then_do [OF c] unseen_change) (simp_all add: same_calls_refl same_calls_set_free d)
  show "unseen s ((=) s) (server_free_end env v)" unfolding server_free_end_def
    by (intro triple_then_do [OF unseen_change] triple_then_do [OF unseen_server_shutdown] unseen_change unseen_mem)
      (simp_all add: same_calls_refl f same_calls_update_server)
qed

lemma unseen_poll_end: "unseen s ((=) s) (poller_poll_end env timed_out p c)"
  unfolding poller_poll_end_def
  by (rule triple_then_do [OF unseen_poll(1)]) (auto intro: unseen_mem same_calls_refl)

lemma admit_entered_entered:
  assumes "entered s n = Some (a, r, op)" and "runtimes s a = Some x"
  shows "entered (snd (admit_entered n s)) = (entered s)(n := None)"
proof -
  have "entered (run_captured t op u) = entered u" for t u using run_captured_same [of u t op] by (simp add: same_calls_def)
  then show ?thesis
    using assms by (simp add: admit_entered_def spawn_with_def deref_def call_defs op_users_frame put_runtime_def Let_def
        split: prod.split outcome.split)
qed

lemma count_background:
  "background_step s s' \<Longrightarrow> reachable s \<Longrightarrow> counted s \<Longrightarrow> (\<And>n c. entered s n = Some c \<Longrightarrow> runtimes s (fst c) \<noteq> None) \<Longrightarrow>
   keeps_count s s'"
proof (induction rule: background_step.induct)
  case (sys_op_returns s a x t r op p s')
  then show ?case
    using op_result_same [OF sys_op_returns(7)] op_result_frame [OF sys_op_returns(7)]
    by (intro counted_future_ends [where ?s1.0 = s' and x = x and op = op]) simp_all
next
  case (sys_op_panics s a x t r op y)
  then show ?case by (intro counted_future_ends [where ?s1.0 = s and x = x and op = op]) (simp_all add: same_calls_refl)
next
  case (sys_op_cancelled s a x t r op)
  then show ?case by (intro counted_future_ends [where ?s1.0 = s and x = x and op = op]) (simp_all add: same_calls_refl)
next
  case (sys_retire s a x t r p)
  then show ?case by (intro keeps_count_same retire_same)
next
  case (sys_event s w x k p)
  then show ?case
    by (intro keeps_count_same) (auto simp: update_requests_def split: option.split intro: same_calls_refl same_calls_requests)
next
  case (sys_shutdown s w x e)
  have "same_calls s (s\<lparr>next_id := next_id s + 1\<rparr>)" by (rule same_calls_frame) simp_all
  moreover have "same_calls (s\<lparr>next_id := next_id s + 1\<rparr>) (put_worker w (x\<lparr>wentry := e\<rparr>) (s\<lparr>next_id := next_id s + 1\<rparr>))"
    by (rule same_calls_put_worker) (simp add: flight_def sys_shutdown(1) shutdown_inflight [OF sys_shutdown(2)])
  ultimately show ?case using sys_shutdown by (intro keeps_count_same) (blast intro: same_calls_trans)+
next
  case (sys_core_answers s w x e)
  have "same_calls s (put_worker w (x\<lparr>wentry := e\<rparr>) s)"
    using sys_core_answers(2)
    by (intro same_calls_put_worker) (auto simp: flight_def sys_core_answers(1) return_ok_def elim: core_answers.cases)
  then show ?case using sys_core_answers by (intro keeps_count_same) simp_all
next
  case (sys_server s a x e)
  then show ?case by (intro keeps_count_same same_calls_frame) (simp_all add: put_server_def)
next
  case (sys_metric s a x m m')
  then show ?case by (intro keeps_count_same same_calls_put_runtime) simp_all
next
  case (sys_free_child s a c cs err env s')
  then show ?case using keeps_count_unseen [OF _ unseen_blocked(1), of s env a c cs err] by simp
next
  case (sys_free_drain s a err x ds)
  then show ?case
    by (auto simp: free_drain_def intro!: keeps_count_same same_calls_trans [OF same_calls_requests same_calls_set_free])
next
  case (sys_free_return s a err)
  then show ?case
    by (auto simp: free_return_def split: option.split
        intro!: keeps_count_same same_calls_refl same_calls_trans [OF same_calls_requests same_calls_set_free])
next
  case (sys_server_free a s env r s')
  then show ?case using keeps_count_unseen [OF _ unseen_blocked(2), of s env a] by simp
next
  case (sys_admit s n c)
  obtain a r op where c: "c = (a, r, op)" by (cases c)
  have "counted (snd (admit_entered n s))" using sys_admit counted_admit c by fastforce
  moreover have "entered (snd (admit_entered n s)) = (entered s)(n := None)"
    using sys_admit(1) sys_admit(4) [of n c] c admit_entered_entered [of s n a r op] by fastforce
  ultimately show ?case by (auto simp: keeps_count_def split: if_splits)
next
  case (sys_poll_leaves s p po c x env)
  then show ?case by (intro keeps_count_unseen unseen_poll_end)
next
  case (sys_poll_times_out s p po c env)
  then show ?case by (intro keeps_count_unseen unseen_poll_end)
qed (intro keeps_count_same same_calls_update_worker; simp)+

lemma count_step:
  assumes "bridge_step s s'" and "reachable s" and "counted s" and "\<And>n c. entered s n = Some c \<Longrightarrow> runtimes s (fst c) \<noteq> None"
  shows "keeps_count s s'"
  using assms
proof (induction rule: bridge_step.induct)
  case (sys_call s env c)
  then show ?case by (intro count_call)
next
  case (sys_free_begin h s x s')
  have "same_calls s s'"
    using sys_free_begin(1) same_calls_trans [OF same_calls_handles same_calls_set_free]
    by (auto simp: free_begin_def remove_runtime_handles_def call_defs split: prod.splits outcome.splits)
  then show ?case using sys_free_begin by (intro keeps_count_same)
next
  case (sys_server_free_begin h s a s')
  have "same_calls s s'"
    using sys_server_free_begin(1)
    by (auto simp: server_free_begin_def remove_handle_def call_defs split: prod.splits outcome.splits Entry.splits intro!: same_calls_frame)
  then show ?case using sys_server_free_begin by (intro keeps_count_same)
next
  case (sys_enter s n env c x s')
  obtain a r op where x: "x = (a, r, op)" by (cases x)
  note k = checked_request [OF sys_enter(3) sys_enter(2) [unfolded x]]
  have "op_ready s op" using triple_use [OF checks_request reachable_safe [OF sys_enter(3)] sys_enter(2)] k(1) x by simp
  then have "counted (enter n x s')" using counted_enter [OF sys_enter(4) _ sys_enter(1)] k(1) x by simp
  moreover have "entered (enter n x s') = (entered s)(n \<mapsto> x)" using k(1) by (simp add: enter_def)
  ultimately show ?case using k(2) x by (auto simp: keeps_count_def)
next
  case (sys_poll_begin h c s p s')
  have "unseen s ((=) s) (poller_poll_begin h c)"
    unfolding poller_poll_begin_def by (rule query_rules(1-9) unseen_poll unseen_mem | fastforce intro: same_calls_refl)+
  then show ?case using keeps_count_unseen [OF sys_poll_begin(3)] sys_poll_begin(1) by fastforce
next
  case (sys_background s s')
  then show ?case by (intro count_background)
qed

lemma reachable_counted:
  "reachable s \<Longrightarrow> counted s \<and> (\<forall>n c. entered s n = Some c \<longrightarrow> runtimes s (fst c) \<noteq> None)"
proof (induction rule: runs.induct)
  case (runs_init s)
  then show ?case
    by (auto simp: bridge_init_def Bridge_init_def counted_def core_users_def arriving_def running_def flight_def)
next
  case (runs_step s s')
  have k: "keeps_count s s'" using runs_step by (intro count_step) blast+
  have "evo s s'" using bridge_step_evo [OF br.runs_inv [OF runs_step(1)] runs_step(2)] .
  then have "runtimes s a \<noteq> None \<Longrightarrow> runtimes s' a \<noteq> None" for a
    using evolves_Some [of runtime_init runtime_step "request_pool s" "request_pool s'" a]
    by (fastforce simp: evo_def request_pool_def)
  then show ?case using k runs_step(3) unfolding keeps_count_def by blast
qed

text \<open>C18: The core of a worker is held exactly by those who use it. In every reachable state of the whole bridge the
  number of calls that a worker counts as in flight is the number of threads that passed the checks of
  \<^verbatim>\<open>kt_worker_validate\<close> or \<^verbatim>\<open>kt_worker_complete\<close> for it and have not called \<^verbatim>\<open>spawn_request\<close> yet, plus the number of
  accepted validations and completions for it whose future still runs, whatever way the others ended:
  refused, done, failed, panicked or cancelled. So a core is finalized only when no such thread and
  no such future is left.\<close>

theorem worker_calls_counted:
  assumes "runs bridge_init bridge_step s" and "workers s w = Some x"
  shows "finite (core_users (arriving s) w) \<and> finite (core_users (running s) w) \<and>
    inflight (wentry x) = card (core_users (arriving s) w) + card (core_users (running s) w) \<and>
    (core_finalized (wentry x) \<longrightarrow> core_users (arriving s) w = {} \<and> core_users (running s) w = {})"
proof -
  have c: "finite (core_users (arriving s) w)" "finite (core_users (running s) w)"
    "inflight (wentry x) = card (core_users (arriving s) w) + card (core_users (running s) w)"
    using conjunct1 [OF reachable_counted [OF assms(1)], unfolded counted_def, THEN spec, of w] assms(2) by (simp_all add: flight_def)
  moreover have "inflight (wentry x) = 0" if "core_finalized (wentry x)"
    using reachable_parts(3) [OF assms] that by (auto simp: worker_inv_def finalized_alone_def)
  ultimately show ?thesis by auto
qed

section \<open>A worker in the small run\<close>

text \<open>The small run goes on: the client is connected, a worker is made, and a thread validates it.\<close>

definition demo_client_handle :: u64 where "demo_client_handle = make_handle 2 1 1"
definition demo_worker_handle :: u64 where "demo_worker_handle = make_handle 3 1 2"

definition demo_entries :: "Slot list" where
  "demo_entries = [\<lparr>generation = 1, owner = 0, entry = Some (Runtime 0)\<rparr>,
     \<lparr>generation = 1, owner = demo_handle, entry = Some (Client 2)\<rparr>]"

definition demo_answer :: Pending where
  "demo_answer = Pending_aux0 demo_client_handle (Pending_kind ClientConnected (Pending_ack 7))"

definition demo_connected :: Bridge where
  "demo_connected = resolve 0 1 7 demo_answer (demo_asked\<lparr>handles := \<lparr>slots = demo_entries, free = []\<rparr>, next_id := 3,
     clients := [2 \<mapsto> ''default'']\<rparr>)"

definition demo_worker :: WorkerObject where
  "demo_worker = \<lparr>wentry = WorkerEntry_new, wruntime = 0, whandle = 0, wresources = Some ResourceGate_new\<rparr>"

definition demo_worked :: Bridge where
  "demo_worked = demo_connected\<lparr>mem := store_u64 (mem demo_connected) 8 demo_worker_handle, next_id := 4, workers := [3 \<mapsto> demo_worker],
     handles := \<lparr>slots = demo_entries @ [\<lparr>generation = 1, owner = demo_handle, entry = Some (Worker 3)\<rparr>], free = []\<rparr>\<rparr>"

definition demo_validating :: Bridge where
  "demo_validating = enter 5 (0, 8, Validate 3) demo_worked"

lemma demo_connected_step: "bridge_step demo_asked demo_connected"
proof -
  obtain o' where o': "demo_operation = Connect o' ''default'' demo_handle"
    by (simp add: demo_operation_def demo_platform_def demo_client_def connection_options_def)
  let ?s = "demo_asked\<lparr>handles := \<lparr>slots = demo_entries, free = []\<rparr>, next_id := 3, clients := [2 \<mapsto> ''default'']\<rparr>"
  let ?x = "\<lparr>requests = demo_requests, metrics = Some (BridgeMeter_default, []), metric_batch = None\<rparr> :: RuntimeObject"
  have "validate (handles demo_asked) demo_handle KIND_RUNTIME = Ok 0"
    by (simp add: validate_def demo_handle_fields demo_asked_def demo_opened_def kind_defs) (simp add: demo_handle_def)
  then have "client_connected 7 demo_handle ''default'' demo_asked = (Ok demo_answer, ?s)"
    by (simp add: client_connected_def alloc_def call_defs report_created_def insert_owned_handle_def insert_owned_def put_client_def
        insert_into_def vec_pop_def demo_asked_def demo_opened_def Bridge_init_def kind_defs demo_entries_def
        demo_answer_def demo_client_handle_def Let_def)
  moreover have "connect (\<lambda>_. Ok (0 :: nat)) o' ''default'' = Ok (0, ''default'')" by (simp add: connect_def)
  ultimately have r: "op_result 0 demo_operation 7 1 demo_asked demo_answer ?s" unfolding o' by (rule op_connected [rotated])
  have cur: "op_current 0 demo_operation demo_asked" using demo_runtime(2) by (simp add: op_current_def o')
  have "background_step demo_asked (resolve 0 1 7 demo_answer (end_op demo_operation ?s))"
    by (rule sys_op_returns [where x = ?x, OF _ _ _ _ _ cur r])
      (simp_all add: demo_asked_def demo_requests_def RuntimeEntry_new_def has_room_def demo_opened_def)
  then show ?thesis by (simp add: demo_connected_def o' end_op_def sys_background)
qed

lemma demo_connected_fields:
  "handles demo_connected = \<lparr>slots = demo_entries, free = []\<rparr>" "next_id demo_connected = 3" "workers demo_connected = Map.empty"
  "entered demo_connected = Map.empty"
  by (simp_all add: demo_connected_def resolve_def put_runtime_def demo_asked_def demo_opened_def Bridge_init_def)

lemma demo_table:
  "get_runtime \<lparr>slots = demo_entries @ ss, free = []\<rparr> demo_handle = Ok 0"
  "get_client \<lparr>slots = demo_entries @ ss, free = []\<rparr> demo_client_handle = Ok 2"
  "require_owner \<lparr>slots = demo_entries @ ss, free = []\<rparr> demo_client_handle demo_handle = Ok ()"
  "validate \<lparr>slots = demo_entries @ ss, free = []\<rparr> demo_handle KIND_RUNTIME = Ok 0"
proof -
  have nz: "demo_handle \<noteq> 0" "demo_client_handle \<noteq> 0"
    by (simp_all add: demo_client_handle_def make_handle_nonzero) (simp add: demo_handle_def)
  then show "get_runtime \<lparr>slots = demo_entries @ ss, free = []\<rparr> demo_handle = Ok 0"
    "get_client \<lparr>slots = demo_entries @ ss, free = []\<rparr> demo_client_handle = Ok 2"
    "require_owner \<lparr>slots = demo_entries @ ss, free = []\<rparr> demo_client_handle demo_handle = Ok ()"
    "validate \<lparr>slots = demo_entries @ ss, free = []\<rparr> demo_handle KIND_RUNTIME = Ok 0"
    by (simp_all add: get_runtime_def get_client_def require_owner_def with_entry_def validate_def demo_handle_fields kind_defs
        demo_entries_def demo_client_handle_def Let_def)
qed

definition demo_worker_env :: env where
  "demo_worker_env = demo_env\<lparr>env_decode_worker := (\<lambda>_. Ok demo_options)\<rparr>"

lemma demo_new_worker:
  "exec demo_worker_env (WorkerNew demo_handle demo_client_handle 0 0 8) demo_connected = (Ok (), demo_worked)"
proof -
  let ?e = demo_worker_env
  have "\<exists>c. worker_config_with_resource_gate (env_build_holder ?e) (env_build_tuner ?e) (env_build_config ?e) demo_options (env_now ?e) = Ok c"
    by (subst worker_config_ok) (simp_all add: demo_worker_env_def demo_env_def demo_options_valid)
  then obtain c where
    c: "worker_config_with_resource_gate (env_build_holder ?e) (env_build_tuner ?e) (env_build_config ?e) demo_options (env_now ?e) = Ok c" ..
  have "is_jvm demo_options" by (simp add: is_jvm_def demo_options_def)
  moreover have "env_decode_worker ?e b = Ok demo_options" "env_init_worker ?e c' = Ok ()" for b c'
    by (simp_all add: demo_worker_env_def demo_env_def)
  moreover have "length demo_entries = 2" "(demo_entries @ [z]) ! 2 = z" for z by (simp_all add: demo_entries_def)
  ultimately show ?thesis
    using c demo_table [of "[]"] demo_connected_fields
    by (simp add: kt_worker_new_def call_defs the_runtime_def owned_by_def the_client_def decoded_def read_slice_def slice_def map_err_def
        alloc_def insert_owned_handle_def insert_owned_def insert_into_def vec_pop_def write_u64_def put_worker_def Let_def
        demo_worked_def demo_worker_def demo_worker_handle_def kind_defs)
qed

lemma demo_worked_runs: "runs bridge_init bridge_step demo_worked"
proof -
  have "bridge_step demo_connected demo_worked"
    using sys_call [of demo_connected demo_worker_env "WorkerNew demo_handle demo_client_handle 0 0 8"]
    by (simp add: demo_new_worker del: exec.simps) (simp add: demo_connected_fields demo_entries_def has_room_def)
  then show ?thesis using demo_runs demo_connected_step by (blast intro: runs_step)
qed

lemma demo_validate_args:
  "request_args env (WorkerValidate demo_handle demo_worker_handle 8) demo_worked = (Ok (0, 8, Validate 3), demo_worked)"
proof -
  have "demo_worker_handle \<noteq> 0" by (simp add: demo_worker_handle_def make_handle_nonzero)
  then have "get_worker (handles demo_worked) demo_worker_handle = Ok 3"
    "require_owner (handles demo_worked) demo_worker_handle demo_handle = Ok ()"
    by (simp_all add: get_worker_def require_owner_def with_entry_def validate_def kind_defs demo_worked_def demo_entries_def
        demo_worker_handle_def Let_def)
  moreover have "get_runtime (handles demo_worked) demo_handle = Ok 0" using demo_table(1) by (simp add: demo_worked_def)
  moreover have "workers demo_worked 3 = Some demo_worker" "core_of (wentry demo_worker) = Ok ()"
    by (simp_all add: demo_worked_def demo_worker_def core_of_def WorkerEntry_new_def)
  ultimately show ?thesis
    by (simp add: worker_validate_args_def call_defs some_request_def the_runtime_def owned_by_def the_worker_def core_behind_def deref_def)
qed

theorem worker_calls_counted_witness:
  "\<exists>x. workers demo_validating 3 = Some x \<and> inflight (wentry x) = 1 \<and> core_users (arriving demo_validating) 3 = {5} \<and>
     core_users (running demo_validating) 3 = {} \<and> \<not> core_finalized (wentry x)"
proof -
  let ?x = "demo_worker\<lparr>wentry := (wentry demo_worker)\<lparr>inflight := 1\<rparr>\<rparr>"
  have e: "entered demo_worked = Map.empty" by (simp add: demo_worked_def demo_connected_fields)
  then have "runs bridge_init bridge_step demo_validating"
    unfolding demo_validating_def
    by (intro runs_step [OF demo_worked_runs sys_enter [OF _ demo_validate_args]]) simp
  moreover have x: "workers demo_validating 3 = Some ?x"
    by (simp add: demo_validating_def enter_def capture_op_def update_worker_def put_worker_def demo_worked_def demo_worker_def WorkerEntry_new_def)
  moreover have "core_users (arriving demo_validating) 3 = {5}"
    using e by (auto simp: core_users_def arriving_def demo_validating_def enter_def)
  ultimately show ?thesis using worker_calls_counted [of demo_validating 3 ?x] by auto
qed

end
