(* ===== verification/Kt_Examples.thy ===== *)
theory Kt_Examples
  imports Kt_Calls
begin

text \<open>
  Two concrete runs of the whole bridge, for the theorems of the root theory. A development server is started on the
  runtime of the small run; then the runtime is freed, and the shutdown of the child process fails. And a worker
  is started, its pumps end, and a shutdown request takes it as far as Core's \<^verbatim>\<open>finalize_shutdown\<close>.
\<close>

section \<open>A server that cannot be reaped\<close>

definition demo_server_env :: env where
  "demo_server_env = demo_env\<lparr>env_decode_server := (\<lambda>_. Ok demo_eph_options), env_reap := (\<lambda>_. Err ''no such process'')\<rparr>"

definition demo_starting :: Bridge where
  "demo_starting = demo_asked\<lparr>ops := [1 \<mapsto> (0, StartServer demo_eph_options demo_handle)]\<rparr>"

definition demo_info :: EphemeralServerInfo where
  "demo_info = \<lparr>info_target = ''127.0.0.1:7233'', info_pid = 4711, info_has_test_service = False\<rparr>"

definition demo_server :: ServerObject where
  "demo_server = \<lparr>sentry = EphemeralEntry_new, sinfo = demo_info, sruntime = 0\<rparr>"

definition demo_reply :: Pending where
  "demo_reply = Pending_payload [] (Pending_aux0 (make_handle 4 1 1) (Pending_kind EphemeralStarted (Pending_ack 7)))"

definition demo_server_slots :: "Slot list" where
  "demo_server_slots = [\<lparr>generation = 1, owner = 0, entry = Some (Runtime 0)\<rparr>,
     \<lparr>generation = 1, owner = demo_handle, entry = Some (Ephemeral 2)\<rparr>]"

definition demo_served :: Bridge where
  "demo_served = demo_starting\<lparr>next_id := 3, servers := [2 \<mapsto> demo_server], handles := \<lparr>slots = demo_server_slots, free = []\<rparr>\<rparr>"

definition demo_started :: Bridge where
  "demo_started = retire_op 0 1 7 demo_reply (resolve 0 1 7 demo_reply demo_served)"

lemma demo_starting_runs: "runs bridge_init bridge_step demo_starting"
proof -
  have "unat (eo_port demo_eph_options) < 2 ^ 16" by (simp add: demo_eph_options_def)
  then have "ephemeral_start_args demo_server_env demo_handle 0 0 7 demo_opened =
      (Ok (0, 7, StartServer demo_eph_options demo_handle), demo_opened)"
    using demo_runtime(1)
    by (simp add: ephemeral_start_args_def call_defs some_request_def the_runtime_def read_slice_def slice_def decode_options_def
        port_def demo_server_env_def)
  moreover have "spawn_request 1 7 RuntimeEntry_new = (Ok (), demo_requests)"
    by (simp add: spawn_request_def register_def RuntimeEntry_new_def set_phase_def tokens_def demo_requests_def fun_eq_iff)
  ultimately have "exec demo_server_env (EphemeralStart demo_handle 0 0 7) demo_opened = (Ok (), demo_starting)"
    by (simp add: kt_ephemeral_start_def then_do_def admit_def spawn_def spawn_with_def call_defs Let_def deref_def put_runtime_def
        begin_op_def demo_starting_def demo_asked_def demo_opened_def Bridge_init_def)
  moreover have "bridge_step demo_opened (snd (exec demo_server_env (EphemeralStart demo_handle 0 0 7) demo_opened))"
    by (rule sys_call) (simp_all add: has_room_def demo_opened_def)
  ultimately show ?thesis using runs_step [OF demo_opened_runs] by simp
qed

lemma demo_started_runs: "runs bridge_init bridge_step demo_started"
proof -
  let ?op = "StartServer demo_eph_options demo_handle"
  let ?x = "\<lparr>requests = demo_requests, metrics = Some (BridgeMeter_default, []), metric_batch = None\<rparr> :: RuntimeObject"
  have v: "validate (handles demo_starting) demo_handle KIND_RUNTIME = Ok 0"
    by (simp add: validate_def demo_handle_fields demo_starting_def demo_asked_def demo_opened_def kind_defs) (simp add: demo_handle_def)
  then have "server_started (\<lambda>_. []) 7 0 demo_handle demo_info demo_starting = (Ok demo_reply, demo_served)"
    by (simp add: server_started_def alloc_def call_defs report_created_def insert_owned_handle_def insert_owned_def put_server_def
        insert_into_def vec_pop_def demo_starting_def demo_asked_def demo_opened_def Bridge_init_def kind_defs demo_server_slots_def
        demo_reply_def demo_served_def demo_server_def Let_def)
  moreover have "unat (eo_port demo_eph_options) < 2 ^ 16" by (simp add: demo_eph_options_def)
  then have "ephemeral_start (\<lambda>_ _. Ok 0) (\<lambda>_ _ _. Ok \<lparr>child_pid = Some 4711, server_target = ''127.0.0.1:7233'',
      server_has_test_service = False\<rparr>) demo_eph_options = Ok demo_info"
    by (simp add: ephemeral_start_def port_def redirect_def demo_info_def)
  ultimately have r: "op_result 0 ?op 7 1 demo_starting demo_reply demo_served" by (rule op_server_started [rotated])
  have cur: "op_current 0 ?op demo_starting"
    using demo_runtime(2) by (simp add: op_current_def demo_starting_def)
  have "background_step demo_starting (resolve 0 1 7 demo_reply (end_op ?op demo_served))"
    by (rule sys_op_returns [where x = ?x, OF _ _ _ _ _ cur r])
      (simp_all add: demo_starting_def demo_asked_def demo_requests_def RuntimeEntry_new_def has_room_def demo_opened_def)
  then have 1: "bridge_step demo_starting (resolve 0 1 7 demo_reply demo_served)"
    by (simp add: end_op_def sys_background)
  have "bridge_step (resolve 0 1 7 demo_reply demo_served) demo_started"
    unfolding demo_started_def
    by (rule sys_background, rule sys_retire [where x = "?x\<lparr>requests := set_phase 1 7 Spawned (Resolved demo_reply) demo_requests\<rparr>"])
      (simp_all add: resolve_def demo_served_def demo_starting_def demo_asked_def put_runtime_def set_phase_def)
  with 1 show ?thesis by (blast intro: runs_step demo_starting_runs)
qed

definition demo_ended :: RuntimeEntry where
  "demo_ended = RuntimeEntry_new\<lparr>rqueue := Queue_new\<lparr>queue := [demo_reply]\<rparr>, tasks := [1 \<mapsto> (7, Finished)],
     admitted := [7], answered := [demo_reply]\<rparr>"

lemma demo_started_eq:
  "demo_started = demo_served\<lparr>runtimes := [0 \<mapsto> \<lparr>requests = demo_ended, metrics = Some (BridgeMeter_default, []), metric_batch = None\<rparr>]\<rparr>"
proof -
  have "set_phase 1 7 (Resolved demo_reply) Finished (finish_request 7 demo_reply (set_phase 1 7 Spawned (Resolved demo_reply) demo_requests)) =
      demo_ended"
    by (simp add: set_phase_def finish_request_def retire_def answer_def Sender_push_def demo_requests_def demo_ended_def
        RuntimeEntry_new_def Queue_new_def tokens_def fun_eq_iff)
  moreover have "discarded (set_phase 1 7 Spawned (Resolved demo_reply) demo_requests) = []" "discarded demo_ended = []"
    by (simp_all add: set_phase_def demo_requests_def demo_ended_def RuntimeEntry_new_def)
  ultimately show ?thesis
    by (simp add: demo_started_def retire_op_def resolve_def Let_def demo_served_def demo_starting_def demo_asked_def put_runtime_def)
qed

definition demo_closing :: Bridge where
  "demo_closing = demo_started\<lparr>handles := \<lparr>slots = [\<lparr>generation = 2, owner = 0, entry = None\<rparr>,
     \<lparr>generation = 2, owner = 0, entry = None\<rparr>], free = [0, 1]\<rparr>, frees := [0 \<mapsto> Closing [Ephemeral 2] None]\<rparr>"

lemma demo_closing_runs: "runs bridge_init bridge_step demo_closing"
proof -
  have "free_begin demo_handle demo_started = (Ok (0, [Ephemeral 2]), demo_closing)"
  proof -
    have "demo_handle \<noteq> 0" by (simp add: demo_handle_def)
    then show ?thesis
      by (simp add: free_begin_def remove_runtime_handles_def call_defs remove_runtime_def validate_def demo_handle_fields
        demo_started_eq demo_served_def demo_server_slots_def demo_closing_def kind_defs Let_def set_free_def take_slot_def
        next_generation_def GEN_MASK_def demo_starting_def demo_asked_def demo_opened_def Bridge_init_def)
  qed
  then show ?thesis using demo_started_runs by (blast intro: runs_step sys_free_begin)
qed

definition demo_lost_server :: ServerObject where
  "demo_lost_server = demo_server\<lparr>sentry := EphemeralEntry_new\<lparr>has_server := False,
     shutdown_results := [Err ''no such process''], handle_refs := 0\<rparr>\<rparr>"

definition demo_waiting :: Bridge where
  "demo_waiting = free_drain [] 0 (Some ''no such process'') (demo_closing\<lparr>next_id := 4,
     frees := [0 \<mapsto> Closing [] (Some ''no such process'')], servers := [2 \<mapsto> demo_lost_server]\<rparr>)"

lemma demo_waiting_runs:
  "runs bridge_init bridge_step demo_waiting" "frees demo_waiting 0 = Some (TaskWait (Some ''no such process''))"
  "tracker_empty 0 demo_waiting" "servers demo_waiting 2 = Some demo_lost_server"
proof -
  let ?s = "\<lambda>y. demo_closing\<lparr>next_id := 4, frees := [0 \<mapsto> Closing [] (Some ''no such process'')], servers := [2 \<mapsto> y]\<rparr>"
  let ?x = "\<lparr>requests = demo_ended, metrics = Some (BridgeMeter_default, []), metric_batch = None\<rparr> :: RuntimeObject"
  let ?y = "demo_lost_server\<lparr>sentry := (sentry demo_lost_server)\<lparr>ecalls := [3 \<mapsto> WaitLock]\<rparr>\<rparr>"
  have c: "servers demo_closing = [2 \<mapsto> demo_server]" "frees demo_closing = [0 \<mapsto> Closing [Ephemeral 2] None]"
    "runtimes demo_closing = [0 \<mapsto> ?x]" "next_id demo_closing = 3"
    by (simp_all add: demo_closing_def demo_started_eq demo_served_def)
  then have "free_child demo_server_env 0 (Ephemeral 2) [] None demo_closing = (Ok (), ?s ?y)"
    by (simp add: free_child_def call_defs set_free_def server_shutdown_def deref_def demo_server_env_def update_server_def
        put_server_def eph_shutdown_now_def get_or_insert_def demo_server_def demo_lost_server_def EphemeralEntry_new_def)
  moreover have "server_idle demo_closing 2" using c(1) by (simp add: server_idle_def demo_server_def EphemeralEntry_new_def)
  ultimately have 1: "bridge_step demo_closing (?s ?y)" using c(2) by (intro sys_background sys_free_child) auto
  have "eph_progress (sentry ?y) (sentry demo_lost_server)"
    using eph_locked [of "sentry ?y" 3] by (simp add: demo_lost_server_def EphemeralEntry_new_def)
  from sys_background [OF sys_server [OF _ this, of "?s ?y" 2]] have 2: "bridge_step (?s ?y) (?s demo_lost_server)"
    by (simp add: put_server_def)
  have "drain_order (pending (requests ?x)) []" by (simp add: drain_order_def demo_ended_def RuntimeEntry_new_def)
  then have 3: "bridge_step (?s demo_lost_server) demo_waiting"
    unfolding demo_waiting_def using c(3) by (intro sys_background sys_free_drain [where x = ?x]) simp_all
  show "runs bridge_init bridge_step demo_waiting" using 1 2 3 by (blast intro: runs_step demo_closing_runs)
  show f: "frees demo_waiting 0 = Some (TaskWait (Some ''no such process''))" "servers demo_waiting 2 = Some demo_lost_server"
    using c(3) by (simp_all add: demo_waiting_def free_drain_def set_free_def put_runtime_def)
  have "runtimes demo_waiting 0 = Some (?x\<lparr>requests := (drain_pending_for_shutdown [] demo_ended)\<lparr>tracker_closed := True\<rparr>\<rparr>)"
    "servers demo_waiting = [2 \<mapsto> demo_lost_server]"
    using c(3) by (simp_all add: demo_waiting_def free_drain_def set_free_def put_runtime_def)
  moreover have "tracker (drain_pending_for_shutdown [] demo_ended) = 0"
    by (simp add: drain_pending_for_shutdown_def runtime_op_defs demo_ended_def RuntimeEntry_new_def)
  moreover have "server_released demo_lost_server"
    by (simp add: server_released_def token_held_def demo_lost_server_def demo_server_def EphemeralEntry_new_def)
  ultimately show "tracker_empty 0 demo_waiting" by (simp add: tracker_empty_def)
qed

section \<open>A worker that is finalized\<close>

lemma demo_worker_getters:
  "get_worker (handles demo_worked) demo_worker_handle = Ok 3"
  "require_owner (handles demo_worked) demo_worker_handle demo_handle = Ok ()"
  "get_runtime (handles demo_worked) demo_handle = Ok 0"
proof -
  have "demo_worker_handle \<noteq> 0" by (simp add: demo_worker_handle_def make_handle_nonzero)
  then show "get_worker (handles demo_worked) demo_worker_handle = Ok 3"
    "require_owner (handles demo_worked) demo_worker_handle demo_handle = Ok ()"
    by (simp_all add: get_worker_def require_owner_def with_entry_def validate_def kind_defs demo_worked_def demo_entries_def
        demo_worker_handle_def Let_def)
  show "get_runtime (handles demo_worked) demo_handle = Ok 0" using demo_table(1) by (simp add: demo_worked_def)
qed

definition demo_pumping :: Bridge where
  "demo_pumping = put_worker 3 (demo_worker\<lparr>whandle := demo_worker_handle, wentry := snd (start WorkerEntry_new)\<rparr>) demo_worked"

lemma demo_pumping_runs: "runs bridge_init bridge_step demo_pumping"
proof -
  have "exec demo_env (WorkerStart demo_handle demo_worker_handle) demo_worked = (Ok (), demo_pumping)"
    using demo_worker_getters
    by (simp add: kt_worker_start_def call_defs the_runtime_def owned_by_def the_worker_def deref_def demo_pumping_def)
      (simp add: demo_worked_def demo_worker_def start_def WorkerEntry_new_def)
  moreover have "bridge_step demo_worked (snd (exec demo_env (WorkerStart demo_handle demo_worker_handle) demo_worked))"
    by (rule sys_call) (simp_all add: has_room_def demo_worked_def demo_entries_def)
  ultimately show ?thesis using runs_step [OF demo_worked_runs] by simp
qed

text \<open>A pump whose stream ended drops the core and leaves.\<close>

lemma pump_gone:
  assumes "reachable s" and "workers s w = Some x" and "pumps (wentry x) k = Pumping"
  shows "\<exists>s'. reachable s' \<and> workers s' w =
    Some (x\<lparr>wentry := (wentry x)\<lparr>pumps := (pumps (wentry x))(k := Gone), live_pumps := live_pumps (wentry x) - 1\<rparr>\<rparr>)"
proof -
  let ?s1 = "update_worker w (\<lambda>e. e\<lparr>pumps := (pumps e)(k := CoreDropped)\<rparr>) s"
  let ?s2 = "update_worker w (\<lambda>e. e\<lparr>pumps := (pumps e)(k := Gone), live_pumps := live_pumps e - 1\<rparr>) ?s1"
  let ?y = "x\<lparr>wentry := (wentry x)\<lparr>pumps := (pumps (wentry x))(k := CoreDropped)\<rparr>\<rparr>"
  have y: "workers ?s1 w = Some ?y" using assms(2) by (simp add: update_worker_def put_worker_def)
  have "bridge_step s ?s1" "bridge_step ?s1 ?s2"
    using sys_pump_ends [OF assms(2,3)] sys_pump_leaves [OF y, of k] by (simp_all add: sys_background)
  then have "reachable ?s2" using assms(1) by (blast intro: runs_step)
  moreover have "workers ?s2 w = Some (x\<lparr>wentry := (wentry x)\<lparr>pumps := (pumps (wentry x))(k := Gone), live_pumps := live_pumps (wentry x) - 1\<rparr>\<rparr>)"
    using y by (simp add: update_worker_def [of w _ ?s1] put_worker_def)
  ultimately show ?thesis by blast
qed

lemma demo_stopping:
  "\<exists>s. reachable s \<and> workers s 3 = Some (demo_worker\<lparr>whandle := demo_worker_handle, wentry := go 4 LockWait (snd (start WorkerEntry_new))\<rparr>)"
proof -
  let ?r = "set_phase 1 7 Spawned (Resolved demo_answer) demo_requests"
  let ?c = "WorkerShutdown demo_handle demo_worker_handle 0 9"
  have f: "handles demo_pumping = handles demo_worked" "next_id demo_pumping = 4"
    "workers demo_pumping 3 = Some (demo_worker\<lparr>whandle := demo_worker_handle, wentry := snd (start WorkerEntry_new)\<rparr>)"
    "runtimes demo_pumping 0 = Some \<lparr>requests = ?r, metrics = Some (BridgeMeter_default, []), metric_batch = None\<rparr>"
    by (simp_all add: demo_pumping_def put_worker_def demo_worked_def demo_connected_def resolve_def demo_asked_def put_runtime_def)
  obtain r' where r': "spawn_request 4 9 ?r = (Ok (), r')"
    by (simp add: spawn_request_def register_def set_phase_def demo_requests_def RuntimeEntry_new_def)
  have "workers (snd (exec demo_env ?c demo_pumping)) 3 =
      Some (demo_worker\<lparr>whandle := demo_worker_handle, wentry := go 4 LockWait (snd (start WorkerEntry_new))\<rparr>)"
    using demo_worker_getters f r'
    by (simp add: kt_worker_shutdown_def worker_shutdown_args_def call_defs some_request_def the_runtime_def owned_by_def the_worker_def
        admit_def spawn_def spawn_with_def deref_def Let_def begin_op_def update_worker_def put_worker_def put_runtime_def)
  moreover have "bridge_step demo_pumping (snd (exec demo_env ?c demo_pumping))"
    by (rule sys_call) (simp_all add: has_room_def f demo_worked_def demo_entries_def)
  ultimately show ?thesis using runs_step [OF demo_pumping_runs] by blast
qed

lemma demo_finalizing: "\<exists>s x. runs bridge_init bridge_step s \<and> workers s 3 = Some x \<and> core_finalized (wentry x)"
proof -
  let ?e = "go 4 LockWait (snd (start WorkerEntry_new))"
  let ?x = "\<lambda>e. demo_worker\<lparr>whandle := demo_worker_handle, wentry := e\<rparr>"
  obtain s where s: "reachable s" "workers s 3 = Some (?x ?e)" using demo_stopping by blast
  have e: "pumps ?e = (\<lambda>_. Pumping)" "live_pumps ?e = 3" by (simp_all add: go_def start_def WorkerEntry_new_def)
  obtain s1 where s1: "reachable s1" "workers s1 3 = Some (?x (?e\<lparr>pumps := (pumps ?e)(WorkflowActivation := Gone), live_pumps := 2\<rparr>))"
    using pump_gone [OF s, of WorkflowActivation] e by auto
  obtain s2 where s2: "reachable s2"
    "workers s2 3 = Some (?x (?e\<lparr>pumps := (pumps ?e)(WorkflowActivation := Gone, Activity := Gone), live_pumps := 1\<rparr>))"
    using pump_gone [OF s1, of Activity] e by auto
  obtain s3 where s3: "reachable s3"
    "workers s3 3 = Some (?x (?e\<lparr>pumps := (pumps ?e)(WorkflowActivation := Gone, Activity := Gone, Nexus := Gone), live_pumps := 0\<rparr>))"
    using pump_gone [OF s2, of Nexus] e by auto
  have "?e\<lparr>pumps := (pumps ?e)(WorkflowActivation := Gone, Activity := Gone, Nexus := Gone), live_pumps := 0\<rparr> =
      demo_stopped\<lparr>shutdowns := [4 \<mapsto> LockWait]\<rparr>"
    by (auto simp: go_def demo_stopped_def start_def WorkerEntry_new_def fun_eq_iff all_kinds)
  then have w: "workers s3 3 = Some (?x (demo_stopped\<lparr>shutdowns := [4 \<mapsto> LockWait]\<rparr>))" using s3(2) by simp
  let ?u = "demo_stopped\<lparr>wstate := Finalized, initiated := True, shutdowns := [4 \<mapsto> Unwrapping]\<rparr>"
  let ?f = "go 4 Finalizing (?u\<lparr>core_finalized := True\<rparr>)"
  have "core_refs ?u = 1"
    by (simp add: core_refs_def pump_refs_def demo_stopped_def start_def WorkerEntry_new_def dom_sum_def call_refs_def)
  then have "own_progress ?u ?f" using finalize_unwraps [of ?u 4] by (simp add: own_progress_def go_def)
  then have p: "own_progress\<^sup>*\<^sup>* (demo_stopped\<lparr>shutdowns := [4 \<mapsto> LockWait]\<rparr>) ?f"
    using demo_unwrapping_path [of 4] by (meson rtranclp.rtrancl_into_rtrancl)
  obtain n where n: "later s3 (put_worker 3 (?x ?f) (s3\<lparr>next_id := n\<rparr>))"
    using worker_path [OF w, of ?f] p by auto
  have "reachable (put_worker 3 (?x ?f) (s3\<lparr>next_id := n\<rparr>))" by (rule reachable_later [OF n s3(1)])
  then show ?thesis
    by (intro exI [of _ "put_worker 3 (?x ?f) (s3\<lparr>next_id := n\<rparr>)"] exI [of _ "?x ?f"]) (simp add: put_worker_def go_def)
qed

end
