(* ===== verification/Kt_Service.thy ===== *)
theory Kt_Service
  imports Kt_SystemRuns
begin

text \<open>
  What a runtime promises to its caller, without the table of pending requests, the tokens, the tasks,
  the tracker and the locks that keep the promise.

  \<open>RequestService\<close> is a set of request ids that are owed an answer, the completions that wait to be polled, those
  that were polled, and two flags. \<open>service_step\<close> is all it may do. The runtime of \<^verbatim>\<open>runtime.rs\<close> with its queue
  implements it in every interleaving of \<open>runtime_step\<close>, and the whole bridge implements a family of
  services, one for each runtime: what is shown of \<open>service_step\<close> holds of the program.
\<close>

section \<open>The specification\<close>

record RequestService =
  outstanding :: "u64 set"
  inbox :: "Pending list"
  taken :: "Pending list"
  accepting :: bool
  ended :: bool

text \<open>
  A request is accepted under an id that is not in use; an answer carries the id of an outstanding
  request, which it settles; an event belongs to no request; the caller takes what came first; and the
  service ends when it no longer accepts and owes nothing.
\<close>

inductive service_step :: "RequestService \<Rightarrow> RequestService \<Rightarrow> bool" where
  service_accepts:
    "accepting \<sigma> \<Longrightarrow> r \<notin> outstanding \<sigma> \<Longrightarrow> service_step \<sigma> (\<sigma>\<lparr>outstanding := insert r (outstanding \<sigma>)\<rparr>)"
| service_answers:
    "req_id p \<in> outstanding \<sigma> \<Longrightarrow> \<not> ended \<sigma> \<Longrightarrow>
     service_step \<sigma> (\<sigma>\<lparr>outstanding := outstanding \<sigma> - {req_id p}, inbox := inbox \<sigma> @ [p]\<rparr>)"
| service_event:
    "req_id p = PUSHED \<Longrightarrow> \<not> ended \<sigma> \<Longrightarrow> service_step \<sigma> (\<sigma>\<lparr>inbox := inbox \<sigma> @ [p]\<rparr>)"
| service_taken:
    "inbox \<sigma> = ps @ qs \<Longrightarrow> service_step \<sigma> (\<sigma>\<lparr>inbox := qs, taken := taken \<sigma> @ ps\<rparr>)"
| service_closes: "service_step \<sigma> (\<sigma>\<lparr>accepting := False\<rparr>)"
| service_ends:
    "\<not> accepting \<sigma> \<Longrightarrow> outstanding \<sigma> = {} \<Longrightarrow> service_step \<sigma> (\<sigma>\<lparr>ended := True\<rparr>)"

definition service_init :: "RequestService \<Rightarrow> bool" where
  "service_init \<sigma> \<longleftrightarrow> \<sigma> = \<lparr>outstanding = {}, inbox = [], taken = [], accepting = True, ended = False\<rparr>"

text \<open>Once ended a service owes nothing and never will.\<close>

definition service_inv :: "RequestService \<Rightarrow> bool" where
  "service_inv \<sigma> \<longleftrightarrow> (ended \<sigma> \<longrightarrow> \<not> accepting \<sigma> \<and> outstanding \<sigma> = {})"

interpretation spec: invariant_system service_init service_step service_inv
proof unfold_locales
  show "service_inv \<sigma>" if "service_init \<sigma>" for \<sigma> using that by (simp add: service_init_def service_inv_def)
  show "service_inv \<sigma>'" if "service_inv \<sigma>" "service_step \<sigma> \<sigma>'" for \<sigma> \<sigma>'
    using that(2,1) by (induction rule: service_step.induct) (auto simp: service_inv_def)
qed

text \<open>What came and comes out, as one sequence; a later state only adds to it.\<close>

definition sent :: "RequestService \<Rightarrow> Pending list" where
  "sent \<sigma> = taken \<sigma> @ inbox \<sigma>"

definition later_service :: "RequestService \<Rightarrow> RequestService \<Rightarrow> Pending list \<Rightarrow> bool" where
  "later_service \<sigma> \<sigma>' new \<longleftrightarrow> sent \<sigma>' = sent \<sigma> @ new \<and> length (taken \<sigma>) \<le> length (taken \<sigma>') \<and>
     outstanding \<sigma> \<subseteq> outstanding \<sigma>' \<union> req_id ` set new \<and>
     (accepting \<sigma>' \<longrightarrow> accepting \<sigma>) \<and> (\<not> accepting \<sigma> \<longrightarrow> outstanding \<sigma>' \<subseteq> outstanding \<sigma>) \<and>
     (ended \<sigma> \<longrightarrow> ended \<sigma>' \<and> new = [])"

lemma service_step_later: "service_step \<sigma> \<sigma>' \<Longrightarrow> \<exists>new. later_service \<sigma> \<sigma>' new"
proof (induction rule: service_step.induct)
  case (service_answers p \<sigma>)
  then show ?case by (intro exI [of _ "[p]"]) (auto simp: later_service_def sent_def)
next
  case (service_event p \<sigma>)
  then show ?case by (intro exI [of _ "[p]"]) (auto simp: later_service_def sent_def)
qed (rule exI [of _ "[]"], auto simp: later_service_def sent_def)+

lemma later_service_trans:
  "later_service \<sigma> \<sigma>' new \<Longrightarrow> later_service \<sigma>' \<sigma>'' new' \<Longrightarrow> later_service \<sigma> \<sigma>'' (new @ new')"
  by (auto simp: later_service_def)

lemma service_later: "service_step\<^sup>*\<^sup>* \<sigma> \<sigma>' \<Longrightarrow> \<exists>new. later_service \<sigma> \<sigma>' new"
proof (induction rule: rtranclp_induct)
  case base
  show ?case by (rule exI [of _ "[]"]) (simp add: later_service_def)
next
  case (step \<sigma>' \<sigma>'')
  then show ?case using service_step_later later_service_trans by blast
qed

section \<open>A runtime implements it\<close>

definition service_of :: "RuntimeEntry \<Rightarrow> RequestService" where
  "service_of e = \<lparr>outstanding = dom (pending e) \<union> fst ` set (to_drain e), inbox = queue (rqueue e),
     taken = polled e, accepting = \<not> rclosed e, ended = closed (rqueue e)\<rparr>"

text \<open>The entries a drain still has to answer are distinct: they came from a map.\<close>

definition drain_distinct :: "RuntimeEntry \<Rightarrow> bool" where
  "drain_distinct e \<longleftrightarrow> distinct (map fst (to_drain e))"

lemma task_progress_draining: "task_progress e e' \<Longrightarrow> draining e' = draining e"
  by (induction rule: task_progress.induct)
    (auto simp: runtime_op_defs answer_def Sender_push_def split: if_splits option.splits bool.split)

lemma drain_distinct_step: "runtime_step e e' \<Longrightarrow> drain_distinct e \<Longrightarrow> drain_distinct e'"
  by (induction rule: runtime_step.induct)
    (auto simp: drain_distinct_def to_drain_def runtime_op_defs answer_def Sender_push_def drain_order_def
      task_progress_draining split: option.splits)

lemma service_of_simps [simp]:
  "outstanding (service_of e) = dom (pending e) \<union> fst ` set (to_drain e)" "inbox (service_of e) = queue (rqueue e)"
  "taken (service_of e) = polled e" "accepting (service_of e) = (\<not> rclosed e)" "ended (service_of e) = closed (rqueue e)"
  by (simp_all add: service_of_def)

text \<open>A step that the specification does not see.\<close>

lemma service_unmoved:
  "pending e' = pending e \<Longrightarrow> draining e' = draining e \<Longrightarrow> queue (rqueue e') = queue (rqueue e) \<Longrightarrow>
   closed (rqueue e') = closed (rqueue e) \<Longrightarrow> polled e' = polled e \<Longrightarrow> rclosed e' = rclosed e \<Longrightarrow>
   service_step\<^sup>*\<^sup>* (service_of e) (service_of e')"
  by (simp add: service_of_def to_drain_def)

lemma task_implements:
  "task_progress e e' \<Longrightarrow> runtime_inv e \<Longrightarrow> service_step\<^sup>*\<^sup>* (service_of e) (service_of e')"
proof (induction rule: task_progress.induct)
  case (task_register e t r token e')
  let ?e = "set_phase t r Reserved Registered (e'\<lparr>admitted := admitted e' @ [r]\<rparr>)"
  have "service_of ?e = (service_of e)\<lparr>outstanding := insert r (outstanding (service_of e))\<rparr>"
    using task_register by (auto simp: register_Ok service_of_def to_drain_def set_phase_def)
  moreover have "r \<notin> outstanding (service_of e)" "accepting (service_of e)"
    using task_register by (auto simp: register_Ok to_drain_def)
  ultimately show ?case using service_accepts [of "service_of e" r] by simp
next
  case (task_rejected e t r err e')
  then show ?case by (intro service_unmoved) (auto dest: register_Err simp: set_phase_def)
next
  case (task_finish e t r p)
  let ?e = "set_phase t r (Resolved p) Finished (finish_request r p e)"
  have inv: "shut e" "owned e" using task_finish(3) by (simp_all add: runtime_inv_def)
  then have p: "req_id p = r" using task_finish(1) unfolding owned_def by blast
  from finish_request_cases [OF inv task_finish(1)] show ?case
  proof
    assume f: "pending e r = Some t \<and> \<not> rclosed e \<and> finish_request r p e =
      e\<lparr>pending := (pending e)(r := None), rqueue := rqueue e\<lparr>queue := queue (rqueue e) @ [p]\<rparr>, answered := answered e @ [p]\<rparr>"
    then have "service_of ?e = (service_of e)\<lparr>outstanding := outstanding (service_of e) - {req_id p},
        inbox := inbox (service_of e) @ [p]\<rparr>"
      using p task_finish(2) by (auto simp: service_of_def to_drain_def set_phase_def)
    moreover have "req_id p \<in> outstanding (service_of e)" "\<not> ended (service_of e)"
      using f p inv(1) by (auto simp: shut_def)
    ultimately show ?case using service_answers [of p "service_of e"] by simp
  next
    assume "pending e = Map.empty \<and> rclosed e \<and> finish_request r p e = e\<lparr>discarded := discarded e @ [p]\<rparr>"
    then show ?case by (intro service_unmoved) (simp_all add: set_phase_def)
  qed
qed (rule service_unmoved; simp add: set_phase_def)+

lemma drain_implements:
  assumes "runtime_inv e" and "drain_distinct e" and d: "draining e = Some (d # ds)"
  shows "service_step (service_of e) (service_of ((drain_one d e)\<lparr>draining := Some ds\<rparr>))"
proof -
  let ?p = "shutdown_answer (fst d)"
  have sh: "shut e" using assms(1) by (simp add: runtime_inv_def)
  then have e: "\<not> closed (rqueue e)" "pending e = Map.empty" using d by (auto simp: shut_def)
  have p: "req_id ?p = fst d" by (simp add: shutdown_answer_def Pending_error_def)
  have "fst d \<notin> fst ` set ds" using assms(2) d by (simp add: drain_distinct_def to_drain_def)
  then have "service_of ((drain_one d e)\<lparr>draining := Some ds\<rparr>) = (service_of e)\<lparr>outstanding := outstanding (service_of e) - {req_id ?p},
      inbox := inbox (service_of e) @ [?p]\<rparr>"
    using e d p by (auto simp: drain_one_def answer_open service_of_def to_drain_def)
  then show ?thesis using service_answers [of ?p "service_of e"] p d e(1) by (simp add: to_drain_def)
qed

lemma runtime_implements:
  "runtime_step e e' \<Longrightarrow> runtime_inv e \<Longrightarrow> drain_distinct e \<Longrightarrow> service_step\<^sup>*\<^sup>* (service_of e) (service_of e')"
proof (induction rule: runtime_step.induct)
  case (step_task e e')
  then show ?case by (intro task_implements)
next
  case (step_cancel e r)
  show ?case by (rule service_unmoved) (simp_all add: cancel_def split: option.split)
next
  case (step_event p e q d)
  show ?case
  proof (cases "closed (rqueue e)")
    case True
    then show ?thesis using step_event(2) by (intro service_unmoved) (auto simp: Sender_push_def)
  next
    case False
    then have "service_of (case d of None \<Rightarrow> e\<lparr>rqueue := q, events := events e @ [p]\<rparr>
        | Some x \<Rightarrow> e\<lparr>rqueue := q, discarded := discarded e @ [x]\<rparr>) = (service_of e)\<lparr>inbox := inbox (service_of e) @ [p]\<rparr>"
      using step_event(2) by (auto simp: Sender_push_def service_of_def to_drain_def)
    then show ?thesis using service_event [OF step_event(1), of "service_of e"] False by simp
  qed
next
  case (step_poll e cap ps b q)
  then have "queue (rqueue e) = ps @ queue q" "closed q = closed (rqueue e)"
    by (auto simp: poll_drain_def Let_def)
  moreover from this have "service_of (e\<lparr>rqueue := q, polled := polled e @ ps\<rparr>) =
      (service_of e)\<lparr>inbox := queue q, taken := taken (service_of e) @ ps\<rparr>" by (simp add: service_of_def to_drain_def)
  ultimately show ?case using service_taken [of "service_of e" ps "queue q"] by simp
next
  case (step_poll_check e tm w q)
  then show ?case by (intro service_unmoved) (auto simp: poll_check_def split: if_splits)
next
  case (step_drain_begin e ds)
  then have "dom (pending e) = fst ` set ds" using dom_map_of_conv_image_fst [of ds] by (simp add: drain_order_def)
  then have "service_of (drain_begin ds e) = (service_of e)\<lparr>accepting := False\<rparr>"
    using step_drain_begin(1) by (simp add: service_of_def to_drain_def drain_begin_def)
  then show ?case using service_closes [of "service_of e"] by simp
next
  case (step_drain_one e d ds)
  then show ?case using drain_implements by blast
next
  case (step_drain_end e)
  then have e: "rclosed e" "pending e = Map.empty" by (auto simp: runtime_inv_def shut_def)
  then have "service_of (drain_end e) = (service_of e)\<lparr>ended := True\<rparr>"
    using step_drain_end(1) by (simp add: service_of_def to_drain_def drain_end_def Queue_close_def)
  then show ?case using service_ends [of "service_of e"] e step_drain_end(1) by (simp add: to_drain_def)
qed (rule service_unmoved; simp add: set_phase_def PollerEntry_wake_def)+

interpretation sv: refinement runtime_init runtime_step "\<lambda>e. runtime_inv e \<and> drain_distinct e" service_of service_init service_step
proof unfold_locales
  show "runtime_inv e \<and> drain_distinct e" "service_init (service_of e)" if "runtime_init e" for e
    using that rt.init_inv [OF that] by (simp_all add: runtime_init_def RuntimeEntry_new_def drain_distinct_def to_drain_def
        service_init_def service_of_def Queue_new_def)
  show "runtime_inv e' \<and> drain_distinct e'" if "runtime_inv e \<and> drain_distinct e" "runtime_step e e'" for e e'
    using that rt.step_inv drain_distinct_step by blast
  show "service_step\<^sup>*\<^sup>* (service_of e) (service_of e')" if "runtime_inv e \<and> drain_distinct e" "runtime_step e e'" for e e'
    using that runtime_implements by blast
qed

section \<open>The bridge implements a family of services\<close>

definition services :: "Bridge \<Rightarrow> arc \<rightharpoonup> RequestService" where
  "services s = (\<lambda>a. map_option service_of (request_pool s a))"

lemma bridge_implements:
  assumes "runs bridge_init bridge_step s" and "bridge_step s s'"
  shows "evolves service_init service_step (services s) (services s')"
  unfolding services_def
proof (rule sv.evolves_abs)
  show "evolves runtime_init runtime_step (request_pool s) (request_pool s')"
    using request_tables.pool_step [OF br.runs_inv [OF assms(1)] assms(2)] .
  show "runtime_inv e \<and> drain_distinct e" if "request_pool s a = Some e" for a e
    using sv.runs_inv [OF request_tables.member_runs [OF assms(1) that]] .
qed

interpretation family: refinement bridge_init bridge_step "runs bridge_init bridge_step" services "\<lambda>m. m = Map.empty"
  "evolves service_init service_step"
proof unfold_locales
  show "services s = Map.empty" if "bridge_init s" for s using pools_init [OF that] by (simp add: services_def)
  show "(evolves service_init service_step)\<^sup>*\<^sup>* (services s) (services s')" if "runs bridge_init bridge_step s" "bridge_step s s'" for s s'
    using bridge_implements [OF that] by blast
  show "runs bridge_init bridge_step s" if "bridge_init s" for s using that by (rule runs_init)
  show "runs bridge_init bridge_step s'" if "runs bridge_init bridge_step s" "bridge_step s s'" for s s'
    using that by (rule runs_step)
qed

lemma evolves_path: "(evolves init step)\<^sup>*\<^sup>* m m' \<Longrightarrow> evolves init step m m'"
proof (induction rule: rtranclp_induct)
  case (step m' m'')
  from evolves_trans [OF step.IH step.hyps(2)] show ?case .
qed simp

lemma services_later:
  assumes "runs bridge_init bridge_step s" and "bridge_step\<^sup>*\<^sup>* s s'" and "runtimes s a = Some x"
  shows "\<exists>y new. runtimes s' a = Some y \<and> later_service (service_of (requests x)) (service_of (requests y)) new"
proof -
  have "services s a = Some (service_of (requests x))" using assms(3) by (simp add: services_def request_pool_def)
  moreover have "evolves service_init service_step (services s) (services s')"
    using evolves_path [OF family.abs_path [OF assms(2,1)]] .
  ultimately obtain \<sigma> where \<sigma>: "services s' a = Some \<sigma>" "service_step\<^sup>*\<^sup>* (service_of (requests x)) \<sigma>"
    using evolves_Some by metis
  from \<sigma>(1) obtain y where "runtimes s' a = Some y" "\<sigma> = service_of (requests y)"
    by (auto simp: services_def request_pool_def)
  then show ?thesis using service_later [OF \<sigma>(2)] by blast
qed

end
