(* ===== verification/Spec2Isabelle.thy ===== *)
theory Spec2Isabelle
  imports Kt_Polls Kt_Examples Kt_Service
begin

text \<open>
  A model of the Temporal Kotlin bridge, the Rust library that exposes Temporal Core to the JVM through a
  C interface (\<^verbatim>\<open>src/core-bridge/rust/kt-bridge/src\<close>), with the theorems that make it correct.

  \<^bold>\<open>The program.\<close> The JVM holds 64-bit handles and calls the \<^verbatim>\<open>kt_*\<close> functions of \<^verbatim>\<open>lib.rs\<close>. A handle table
  maps handles to runtimes, clients, workers, development servers and pollers. Calls that take long get a
  request id, run as Tokio tasks, and answer by a completion that is pushed into the runtime's queue; the
  JVM polls the queue in batches. Workers push tasks the same way, under request id 0. Freeing a runtime
  closes what it owns and answers what is outstanding.

  \<^bold>\<open>The theories.\<close> In the order of their imports, with the file each one models:

  \<^item> \<open>Kt_Prelude\<close>: outcomes (\<^verbatim>\<open>Ok\<close>, \<^verbatim>\<open>Err\<close>, a panic), words, lists and maps, and the locales
    \<open>invariant_system\<close> (runs keep an invariant), \<open>component_pool\<close> (a system whose steps move each of its
    objects along the object's own step relation) and \<open>refinement\<close> (a system that implements a specification).
  \<^item> \<open>Kt_Abi\<close> (\<^verbatim>\<open>abi.rs\<close>), \<open>Kt_Error\<close> (\<^verbatim>\<open>error.rs\<close>), \<open>Kt_Panic\<close> (\<^verbatim>\<open>panic.rs\<close>), \<open>Kt_Ffi\<close> (the memory helpers
    and the two diagnostic functions of \<^verbatim>\<open>lib.rs\<close>, over memory as a map from addresses to bytes).
  \<^item> \<open>Kt_Handle\<close> (\<^verbatim>\<open>handle.rs\<close>): the table with its slots, generations and free list, and the locale
    \<open>handle_map\<close>: to its users it is a map under fresh keys.
  \<^item> \<open>Kt_Queue\<close> (\<^verbatim>\<open>queue.rs\<close>): completions, the slab, the queue, and \<open>queue_step\<close>, which interleaves pushes,
    wakes, the close and any number of pollers at their lock acquisitions; the locale \<open>completion_sink\<close>.
  \<^item> \<open>Kt_Runtime\<close> (\<^verbatim>\<open>runtime.rs\<close>): the pending table and \<open>runtime_step\<close>, which cuts \<^verbatim>\<open>spawn_request\<close> and
    \<^verbatim>\<open>free_runtime\<close> at their locks and suspension points. \<open>Kt_RuntimeObject\<close>: construction from options, metrics
    and logs, and \<^verbatim>\<open>spawn_request\<close> and \<^verbatim>\<open>free_runtime\<close> as functions, shown to be paths of \<open>runtime_step\<close>.
  \<^item> \<open>Kt_Slots\<close> (\<^verbatim>\<open>jvm_slots.rs\<close>), \<open>Kt_Telemetry\<close> (\<^verbatim>\<open>telemetry.rs\<close>), \<open>Kt_Worker\<close> and \<open>Kt_WorkerConfig\<close>
    (\<^verbatim>\<open>worker.rs\<close>: the pumps and the life cycle; the option translation), \<open>Kt_Rpc\<close> (\<^verbatim>\<open>rpc.rs\<close>), \<open>Kt_Client\<close>
    (\<^verbatim>\<open>client.rs\<close>), \<open>Kt_Ephemeral\<close> (\<^verbatim>\<open>ephemeral.rs\<close>): each component's data, operations, step relation where it
    has concurrency, invariant and theorems.
  \<^item> \<open>Kt_Call\<close>: calls with a state and errors, and a small Hoare logic for them. \<open>Kt_Bridge\<close> (\<^verbatim>\<open>lib.rs\<close>): one
    state \<open>Bridge\<close> for the process and all 25 \<^verbatim>\<open>kt_export!\<close> functions, line by line. \<open>Kt_System\<close>: what the
    accepted requests do when they run, and \<open>bridge_step\<close>, the whole program as one step relation, of which
    \<open>background_step\<close> is the part that needs no call.
  \<^item> \<open>Kt_SystemInv\<close>, \<open>Kt_SystemSafe\<close>, \<open>Kt_SystemFree\<close>, \<open>Kt_SystemRuns\<close>: the invariant of the bridge; that every entry
    point, every step of the calls that are cut in parts and every background step keeps it; and the
    interpretations of \<open>invariant_system\<close> and \<open>component_pool\<close> that carry the components' theorems into the whole.
  \<^item> \<open>Kt_Shutdown\<close>: a thread in \<^verbatim>\<open>kt_runtime_free\<close> gets to its return, a cancelled request is answered, and the
    sequential functions are schedules of their steps. \<open>Kt_Service\<close>: the abstract specification of a
    runtime, and that the runtime and the whole bridge implement it. \<open>Kt_PollMemory\<close>: what a poll leaves in the
    caller's memory. \<open>Kt_Polls\<close>: threads parked in \<^verbatim>\<open>kt_poller_poll\<close> are released by a wake and by freeing the
    runtime. \<open>Kt_Entered\<close>: threads between the checks of a request and \<^verbatim>\<open>spawn_request\<close>. \<open>Kt_Calls\<close>: who holds a worker's
    core. \<open>Kt_Examples\<close>: concrete runs with a server whose shutdown fails and with a worker that is finalized.

  \<^bold>\<open>State and operations.\<close> A struct of the source is a record of the same name, a method a function of the
  same name on it (\<open>update_worker\<close> and the like put the record back into \<open>Bridge\<close>). An \<^verbatim>\<open>Arc\<close> is a number
  under which the object is kept. A mutex-protected section is one function or one step; \<open>draining\<close>,
  \<open>shutdowns\<close>, \<open>ecalls\<close>, \<open>frees\<close>, \<open>stopping\<close>, \<open>po_in_poll\<close> and \<open>entered\<close> say who is where in what spans several steps. \<^verbatim>\<open>kt_runtime_free\<close> and
  \<^verbatim>\<open>kt_ephemeral_free\<close> block, so each exists twice: as one function (\<open>kt_runtime_free\<close>, \<open>kt_ephemeral_free\<close>) and cut
  where it waits (\<open>free_begin\<close>, \<open>free_child\<close>, \<open>free_drain\<close>, \<open>free_return\<close>; \<open>server_free_begin\<close>, \<open>server_free_end\<close>), so that other
  threads and the background run in between; the function is shown to be one schedule of the steps. In the same
  way \<^verbatim>\<open>kt_poller_poll\<close> is cut where it parks (\<open>poller_poll_begin\<close>, \<open>poller_poll_end\<close>; \<open>po_in_poll\<close> is the flag \<^verbatim>\<open>in_poll\<close> with the
  arguments of the call that set it), and the entry points that start a request are cut before
  \<^verbatim>\<open>spawn_request\<close> (\<open>request_args\<close>, \<open>enter\<close>, \<open>admit_entered\<close>). Fields such as
  \<open>admitted\<close>, \<open>answered\<close>, \<open>polled\<close>, \<open>discarded\<close> and \<open>core_finalized\<close> record history for the theorems and
  are read by no operation; \<open>returned_ok\<close>, \<open>returned_err\<close> and \<open>shutdown_results\<close>, how the shutdowns of a worker and of a
  server's child ended, are read only to answer the requests that asked for them.

  \<^bold>\<open>What is shown.\<close> Per component: exactly one completion per request in any interleaving, and termination of
  the shutdown (\<open>Kt_Runtime\<close>); delivery in order without loss, no missed wakeup, batches that stay readable
  (\<open>Kt_Queue\<close>); the table as a map, stale handles stay stale, closing a runtime closes what it owns
  (\<open>Kt_Handle\<close>); bounds, no starvation and no missed release of slots, with the one race found (\<open>Kt_Slots\<close>);
  bounded and self-contained metric batches (\<open>Kt_Telemetry\<close>); the contract of a pump, aborted or not, finalization only
  after all pumps, and a shutdown call that waits for nothing but Core's \<^verbatim>\<open>finalize_shutdown\<close> beyond its grace
  period (\<open>Kt_Worker\<close>); exactly which options are accepted and what Core is handed (\<open>Kt_WorkerConfig\<close>); that a call reaches
  the method of its name and reports its answer (\<open>Kt_Rpc\<close>); one shutdown of a server's child that runs to its
  end, with success or an error (\<open>Kt_Ephemeral\<close>). In this theory: the same for every
  object of the whole program in every run, a refinement of the whole to a family of request services,
  well-typed handles, what each request entry point admits and refuses, that a cancelled request can
  always be answered, and that freeing a runtime closes it at once for everyone else, can always return,
  and has settled its requests and servers when it does. Freeing a runtime lets every thread parked on its queue go
  (\<open>Kt_Polls\<close>), and a request that it overtakes is turned away (\<open>Kt_Entered\<close>). A worker's core is finalized only
  when no thread and no running request uses it (\<open>Kt_Calls\<close>).

  \<^bold>\<open>Bounds and fuel.\<close> Integers keep their widths (\<open>u8\<close>, \<open>u32\<close>, \<open>u64\<close>, \<open>i32\<close> are words). The theorem on stale
  handles holds for fewer than \<open>2^24 - 2\<close> further table operations, when a slot's generation comes round;
  \<open>has_room\<close> says that the table has fewer than \<open>2^32\<close> slots or a free one, because an index has 32 bits.
  \<open>op_current\<close> excludes that a slot's generation comes round while one request is on its way, which would put
  what the request creates under another runtime. Only
  the pump of a worker, the wait of an RPC and Core's \<^verbatim>\<open>finalize_shutdown\<close> may run forever; the first two take their inputs
  as a list or return \<open>None\<close>, the third is a place where a shutdown call stays until Core answers, and the theorems say
  for which inputs they end.

  \<^bold>\<open>Parameters.\<close> Protobuf decoding and encoding, Core (its builder, \<^verbatim>\<open>init_worker\<close>, polls, completions, logs),
  the gRPC client, process spawning and the platform are arguments: of the functions that use them, and in
  \<open>Kt_Bridge\<close> the record \<open>env\<close>. In \<open>bridge_step\<close> each step chooses them anew.

  \<^bold>\<open>Not modelled.\<close> Thread names; the \<^verbatim>\<open>metrics_meter\<close> field of the connection options, an object of Core handed
  to Core; memory allocation and its failure; Rust's drop order where nothing observable depends on it. In
  \<open>bridge_step\<close> an entry point that neither blocks nor starts a request is atomic, and so are the checks of one that
  starts a request: their interleaving inside a component is the matter of the component's own step
  relation. So \<^verbatim>\<open>kt_worker_heartbeat\<close> and \<^verbatim>\<open>kt_worker_initiate_shutdown\<close>, which clone a worker's core for the length of the
  call only, do not show in \<open>inflight\<close> there (in \<open>worker_step\<close> a call in flight may be one of them). The condition
  variable of a queue is modelled in \<open>queue_step\<close>, with parking and notification; in \<open>bridge_step\<close> a parked thread looks
  again as soon as what it waits for is there. The tracker counts what \<^verbatim>\<open>kt_runtime_free\<close> waits for: request tasks
  and servers; pumps and the background finalization of a worker are not tracked, in the code as in the
  model, and may go on after it. \<^verbatim>\<open>kt_ephemeral_shutdown\<close> is the one request that is not cut before \<^verbatim>\<open>spawn_request\<close>. A panic of Core
  inside the shutdown of a server on a blocked thread is a branch of the functions (\<open>server_shutdown\<close>) and not a step of
  \<open>bridge_step\<close>. The build script, the generated protobuf code, the Kotlin side and the tests are not part of the
  model.
\<close>

section \<open>Properties of the whole bridge\<close>

text \<open>C1: In every run of the whole bridge, with entry points called in any order on any objects and all
  background work interleaved, every runtime accounts for every request it ever admitted: each admitted
  request id has exactly one completion that reached the queue, or it is still in the pending table with
  a live task behind it; every completion and event that was accepted is polled or still queued; and a
  freed runtime has nothing pending and a closed queue.\<close>

theorem system_exactly_one_completion:
  assumes "runs bridge_init bridge_step s" and "runtimes s a = Some x"
  shows "mset (admitted (requests x)) =
      image_mset req_id (mset (answered (requests x))) + mset_set (dom (pending (requests x))) \<and>
    (\<forall>r t. pending (requests x) r = Some t \<longrightarrow>
      (\<exists>ph. tasks (requests x) t = Some (r, ph) \<and> (ph = Spawned \<or> (\<exists>p. ph = Resolved p \<and> req_id p = r)))) \<and>
    mset (answered (requests x)) + mset (events (requests x)) =
      mset (polled (requests x)) + mset (queue (rqueue (requests x))) \<and>
    (rfreed (requests x) \<longrightarrow> pending (requests x) = Map.empty \<and> closed (rqueue (requests x)))"
proof -
  have "request_pool s a = Some (requests x)" using assms(2) by (simp add: request_pool_def)
  then have inv: "runtime_inv (requests x)" using request_tables.member_runs [OF assms(1)] rt.runs_inv by blast
  have q: "quiet (requests x)" using br.runs_inv [OF assms(1)] assms(2) by (simp add: bridge_inv_def bridge_inv_defs)
  then have td: "to_drain (requests x) = []" by (simp add: quiet_def to_drain_def)
  have task: "\<exists>ph. tasks (requests x) t = Some (r, ph) \<and> (ph = Spawned \<or> (\<exists>p. ph = Resolved p \<and> req_id p = r))"
    if pend: "pending (requests x) r = Some t" for r t
  proof -
    obtain ph where ph: "tasks (requests x) t = Some (r, ph)" "active ph"
      using inv pend unfolding runtime_inv_def owned_def by blast
    moreover have "at_rest ph" using q ph(1) by (simp add: quiet_def)
    moreover have "ph = Resolved p \<Longrightarrow> req_id p = r" for p
      using inv ph(1) unfolding runtime_inv_def owned_def by blast
    ultimately show ?thesis by (cases ph) auto
  qed
  from inv td task show ?thesis
    by (auto simp: runtime_inv_def balanced_def traffic_def shut_def quiet_def)
qed

theorem system_exactly_one_completion_witness:
  "\<exists>x. runtimes demo_asked 0 = Some x \<and> admitted (requests x) = [7] \<and>
     mset (admitted (requests x)) =
       image_mset req_id (mset (answered (requests x))) + mset_set (dom (pending (requests x)))"
proof -
  let ?x = "\<lparr>requests = demo_requests, metrics = Some (BridgeMeter_default, []), metric_batch = None\<rparr> :: RuntimeObject"
  have "runtimes demo_asked 0 = Some ?x" by (simp add: demo_asked_def)
  moreover from system_exactly_one_completion [OF demo_runs this]
  have "mset (admitted (requests ?x)) =
      image_mset req_id (mset (answered (requests ?x))) + mset_set (dom (pending (requests ?x)))" by blast
  moreover have "admitted (requests ?x) = [7]" by (simp add: demo_requests_def)
  ultimately show ?thesis by blast
qed

text \<open>C2: The whole bridge implements a family of request services, one for each runtime, that starts empty: a
  step of the bridge, an entry point or a step of the background, moves every runtime along the specification
  \<open>service_step\<close>, and a runtime that is new starts as a fresh service. Seen from its caller a runtime only
  accepts requests under ids not in use, answers each of them once with its own id, pushes events, hands
  over its output in order, closes, and ends when it owes nothing.\<close>

theorem bridge_refines_services:
  "(bridge_init s \<longrightarrow> services s = Map.empty) \<and>
   (runs bridge_init bridge_step s \<and> bridge_step s s' \<longrightarrow>
     evolves service_init service_step (services s) (services s'))"
  using family.abs_init bridge_implements by blast

theorem bridge_refines_services_witness:
  "\<exists>\<sigma>. service_step\<^sup>*\<^sup>* \<lparr>outstanding = {7}, inbox = [], taken = [], accepting = True, ended = False\<rparr> \<sigma> \<and>
     services (snd (exec demo_env (Cancel demo_handle 7) demo_asked)) 0 = Some \<sigma>"
proof -
  have "bridge_step demo_asked (snd (exec demo_env (Cancel demo_handle 7) demo_asked))"
    by (rule sys_call) (simp_all add: has_room_def demo_asked_def demo_opened_def)
  from conjunct2 [OF bridge_refines_services, rule_format, OF conjI [OF demo_runs this]]
  have "evolves service_init service_step (services demo_asked) (services (snd (exec demo_env (Cancel demo_handle 7) demo_asked)))" .
  moreover have "services demo_asked 0 = Some \<lparr>outstanding = {7}, inbox = [], taken = [], accepting = True, ended = False\<rparr>"
    by (simp add: services_def request_pool_def demo_asked_def demo_requests_def service_of_def to_drain_def RuntimeEntry_new_def
        Queue_new_def)
  ultimately show ?thesis using evolves_Some by metis
qed

text \<open>C3: Between any two states of a run, however far apart, a runtime's output only grows. What was polled and what was
  queued stays, in its order, and new completions come after it; a request that was pending
  is still pending, or a completion with its id is among the new ones; a closed runtime stays closed and no request
  becomes pending on it; and after the queue was closed nothing is added.\<close>

theorem output_only_grows:
  assumes "runs bridge_init bridge_step s" and "bridge_step\<^sup>*\<^sup>* s s'" and "runtimes s a = Some x"
  shows "\<exists>y new more. runtimes s' a = Some y \<and>
    polled (requests y) @ queue (rqueue (requests y)) = polled (requests x) @ queue (rqueue (requests x)) @ new \<and>
    polled (requests y) = polled (requests x) @ more \<and>
    dom (pending (requests x)) \<subseteq> dom (pending (requests y)) \<union> req_id ` set new \<and>
    (rclosed (requests x) \<longrightarrow> rclosed (requests y) \<and> pending (requests y) = Map.empty) \<and>
    (closed (rqueue (requests x)) \<longrightarrow> closed (rqueue (requests y)) \<and> new = [])"
proof -
  obtain y new where y: "runtimes s' a = Some y" and l: "later_service (service_of (requests x)) (service_of (requests y)) new"
    using services_later [OF assms] by blast
  have s': "runs bridge_init bridge_step s'"
    using assms(2,1) by (induction rule: rtranclp_induct) (auto intro: runs_step)
  note parts = reachable_parts(1) [OF assms(1,3)] reachable_parts(1) [OF s' y]
  have td: "to_drain (requests x) = []" "to_drain (requests y) = []" using parts by (simp_all add: quiet_def to_drain_def)
  have eq: "polled (requests y) @ queue (rqueue (requests y)) = polled (requests x) @ queue (rqueue (requests x)) @ new"
    and len: "length (polled (requests x)) \<le> length (polled (requests y))"
    using l by (simp_all add: later_service_def sent_def)
  have "take (length (polled (requests x))) (polled (requests y)) = polled (requests x)"
    using arg_cong [OF eq, of "take (length (polled (requests x)))"] len by simp
  then have "polled (requests y) = polled (requests x) @ drop (length (polled (requests x))) (polled (requests y))"
    by (metis append_take_drop_id)
  moreover have closed: "rclosed (requests x) \<longrightarrow> rclosed (requests y)"
    "closed (rqueue (requests x)) \<longrightarrow> closed (rqueue (requests y)) \<and> new = []"
    using l by (simp_all add: later_service_def) blast
  moreover have "rclosed (requests x) \<longrightarrow> pending (requests y) = Map.empty"
    using closed(1) parts(2) by (simp add: runtime_inv_def shut_def)
  moreover have "dom (pending (requests x)) \<subseteq> dom (pending (requests y)) \<union> req_id ` set new"
    using l td by (simp add: later_service_def)
  ultimately show ?thesis using y eq by metis
qed

theorem output_only_grows_witness:
  "\<exists>y new. runtimes demo_drained 0 = Some y \<and> polled (requests y) @ queue (rqueue (requests y)) = new \<and> 7 \<in> req_id ` set new"
proof -
  let ?x = "\<lparr>requests = demo_requests, metrics = Some (BridgeMeter_default, []), metric_batch = None\<rparr> :: RuntimeObject"
  have x: "runtimes demo_freeing 0 = Some ?x" by (simp add: demo_freeing_def demo_asked_def)
  have "dom (pending (requests ?x)) = {7}" "polled (requests ?x) = []" "queue (rqueue (requests ?x)) = []"
    by (simp_all add: demo_requests_def RuntimeEntry_new_def Queue_new_def)
  with output_only_grows [OF demo_free_runs later_steps [OF demo_drained_path(1)] x] obtain y new where y: "runtimes demo_drained 0 = Some y"
    "polled (requests y) @ queue (rqueue (requests y)) = new" "{7} \<subseteq> dom (pending (requests y)) \<union> req_id ` set new" by auto
  have "rclosed (requests y)"
    using safe_freed(2) [OF reachable_safe [OF demo_drained_runs(1)] demo_drained_runs(2)] y(1) by simp
  then have "pending (requests y) = Map.empty"
    using reachable_parts(1) [OF demo_drained_runs(1) y(1)] by (simp add: runtime_inv_def shut_def)
  with y show ?thesis by auto
qed

text \<open>C4: Handles are well typed in every state a run can reach. A handle that a typed getter accepts has an
  object of that type behind it: a runtime that still admits requests, a client, a worker, a server with
  the table's one reference, or a poller whose runtime exists; and no two handles name the same object.\<close>

theorem handles_typed:
  assumes "runs bridge_init bridge_step s"
  shows "(get_runtime (handles s) h = Ok a \<longrightarrow> (\<exists>x. runtimes s a = Some x \<and> \<not> rclosed (requests x))) \<and>
    (get_client (handles s) h = Ok a \<longrightarrow> clients s a \<noteq> None) \<and>
    (get_worker (handles s) h = Ok a \<longrightarrow> (\<exists>w. workers s a = Some w \<and> runtimes s (wruntime w) \<noteq> None)) \<and>
    (get_ephemeral (handles s) h = Ok a \<longrightarrow> (\<exists>v. servers s a = Some v \<and> handle_refs (sentry v) = 1)) \<and>
    (get_poller (handles s) h = Ok a \<longrightarrow> (\<exists>p. pollers s a = Some p \<and> runtimes s (po_runtime p) \<noteq> None)) \<and>
    (lookup_handle (handles s) h = Some (own, e) \<longrightarrow> lookup_handle (handles s) h' = Some (own', e) \<longrightarrow> h = h')"
proof -
  note inv = br.runs_inv [OF assms]
  have live: "lookup_handle (handles s) h = Some (o', e') \<Longrightarrow> entry_live s e'" for o' e'
    using inv unfolding bridge_inv_def bridge_inv_in_def handles_resolve_def by blast
  have objs: "workers s a = Some w \<Longrightarrow> runtimes s (wruntime w) \<noteq> None"
    "pollers s a = Some p \<Longrightarrow> runtimes s (po_runtime p) \<noteq> None" for w p
    using inv unfolding bridge_inv_def bridge_inv_in_def objects_ok_def by blast+
  show ?thesis
    using getters_lookup [of "handles s" h a] live objs inv unfolding bridge_inv_def bridge_inv_in_def handles_unique_def
    by (intro conjI impI) (fastforce+)
qed

theorem handles_typed_witness: "\<exists>x. runtimes demo_asked 0 = Some x \<and> \<not> rclosed (requests x)"
  using handles_typed [OF demo_runs, of demo_handle 0] demo_runtime(2) by simp

text \<open>C5: Freeing a runtime begins by closing it for everyone else, in one step: its handle and every handle it
  owns are gone, no other handle appears or changes, and the call has exactly the entries that were
  behind those handles in its hands, each once, to close. Freeing it again is an error that changes
  nothing.\<close>

theorem runtime_free_closes:
  assumes "runs bridge_init bridge_step s" and "get_runtime (handles s) h = Ok a"
  shows "\<exists>cs s'. free_begin h s = (Ok (a, cs), s') \<and> bridge_step s s' \<and> frees s' a = Some (Closing cs None) \<and>
    (\<forall>k. lookup_handle (handles s') k =
      (if k = h \<or> (\<exists>e. lookup_handle (handles s) k = Some (h, e)) then None else lookup_handle (handles s) k)) \<and>
    distinct cs \<and> (\<forall>c. c \<in> set cs \<longleftrightarrow> (\<exists>k. lookup_handle (handles s) k = Some (h, c))) \<and>
    (\<exists>e. exec env (RuntimeFree h) s' = (Err e, s'))"
proof -
  note safe = reachable_safe [OF assms(1)]
  obtain own where l: "lookup_handle (handles s) h = Some (own, Runtime a)" using getters_lookup(1) [OF assms(2)] ..
  obtain q s' where q: "free_begin h s = (q, s')" by (cases "free_begin h s")
  obtain cs where cs: "q = Ok (a, cs)" "distinct cs"
    using q remove_runtime_live(1,5) [OF safe l] by (auto simp: free_begin_def remove_runtime_handles_def call_defs)
  note b = free_begin_safe [OF safe q [unfolded cs(1)]]
  have gone: "lookup_handle (handles s') h = None" by (simp add: b(4))
  have "\<exists>e. remove_runtime (handles s') h = (Err e, handles s')"
  proof (cases "validate (handles s') h KIND_RUNTIME")
    case (Ok i)
    then show ?thesis using gone by (auto elim: validate_runtime_lookup)
  qed (simp_all add: remove_runtime_def)
  then have "\<exists>e. exec env (RuntimeFree h) s' = (Err e, s')"
    by (auto simp: kt_runtime_free_def free_begin_def remove_runtime_handles_def then_do_def)
  moreover have "bridge_step s s'" using sys_free_begin [OF q [unfolded cs(1)]] .
  ultimately show ?thesis using q cs b by (intro exI [of _ cs] exI [of _ s']) auto
qed

theorem runtime_free_closes_witness:
  "\<exists>cs s'. free_begin demo_handle demo_asked = (Ok (0, cs), s') \<and> lookup_handle (handles s') demo_handle = None"
proof -
  from runtime_free_closes [OF demo_runs demo_runtime(2)] obtain cs s' where
    "free_begin demo_handle demo_asked = (Ok (0, cs), s')" and
    "\<forall>k. lookup_handle (handles s') k = (if k = demo_handle \<or> (\<exists>e. lookup_handle (handles demo_asked) k = Some (demo_handle, e))
      then None else lookup_handle (handles demo_asked) k)" by blast
  then show ?thesis by auto
qed

text \<open>C6: A call of \<^verbatim>\<open>kt_runtime_free\<close> always comes back. From every reachable state in which a thread is in it,
  wherever that thread is, whatever the runtime's requests, its servers and the worker shutdowns are in
  the middle of, and whatever other threads have begun, what goes on by itself can bring the thread to
  the end of its wait and to its return: no further call from the JVM is needed, and no operation has to
  succeed.\<close>

theorem runtime_free_can_return:
  assumes "runs bridge_init bridge_step s" and "frees s a = Some pc"
  shows "\<exists>s' s'' err r. background_step\<^sup>*\<^sup>* s s' \<and> frees s' a = Some (TaskWait err) \<and> tracker_empty a s' \<and>
    free_return a err s' = (r, s'') \<and> background_step s' s'' \<and> (r = Ok () \<or> (\<exists>m. r = Err (Failed m)))"
proof -
  obtain s' err where s': "background_step\<^sup>*\<^sup>* s s'" "frees s' a = Some (TaskWait err)" "tracker_empty a s'"
    using runtime_free_reaches_return [OF assms] by blast
  have "background_step s' (snd (free_return a err s'))" by (rule sys_free_return [OF s'(2,3)])
  moreover have "fst (free_return a err s') = Ok () \<or> (\<exists>m. fst (free_return a err s') = Err (Failed m))"
    by (cases err) (simp_all add: free_return_def)
  ultimately show ?thesis using s' by (metis prod.collapse)
qed

theorem runtime_free_can_return_witness:
  "\<exists>s' err. background_step\<^sup>*\<^sup>* demo_freeing s' \<and> frees s' 0 = Some (TaskWait err) \<and> tracker_empty 0 s'"
proof -
  have "frees demo_freeing 0 = Some (Closing [] None)" by (simp add: demo_freeing_def)
  from runtime_free_can_return [OF demo_free_runs this] show ?thesis by blast
qed

text \<open>C7: When \<^verbatim>\<open>kt_runtime_free\<close> returns, the runtime's requests and servers are settled. Every request it ever admitted
  was answered exactly once, none is pending, no request task of it still runs, and its queue is closed; for every
  development server that was started on it, the shutdown of the child ran to its end exactly once, with success or
  with an error that the code only reports (it may not have reaped the process), no shutdown of it is under
  way, and no handle leads to it or to the runtime. The call reports the first error among the shutdowns it made
  itself, or success. It does not wait for the poll loops it aborted, nor for a worker's finalization in the
  background: those tasks are not tracked and may still run.\<close>

theorem runtime_free_settles:
  assumes "runs bridge_init bridge_step s" and "frees s a = Some (TaskWait err)" and "tracker_empty a s"
    and "free_return a err s = (r, s')"
  shows "(\<exists>x. runtimes s' a = Some x \<and> rfreed (requests x) \<and> pending (requests x) = Map.empty \<and>
      mset (admitted (requests x)) = image_mset req_id (mset (answered (requests x))) \<and>
      (\<forall>t q ph. tasks (requests x) t = Some (q, ph) \<longrightarrow> ph = Finished) \<and> closed (rqueue (requests x))) \<and>
    (\<forall>v y. servers s' v = Some y \<and> sruntime y = a \<longrightarrow> (\<exists>q. shutdown_results (sentry y) = [q]) \<and> ecalls (sentry y) = Map.empty \<and>
      (\<forall>h. get_ephemeral (handles s') h \<noteq> Ok v)) \<and>
    (\<forall>h. get_runtime (handles s') h \<noteq> Ok a) \<and>
    frees s' a = None \<and> r = (case err of None \<Rightarrow> Ok () | Some m \<Rightarrow> Err (Failed m))"
proof (intro conjI)
  note s = reachable_safe [OF assms(1)]
  obtain x where x: "runtimes s a = Some x" "pending (requests x) = Map.empty" "closed (rqueue (requests x))"
    "mset (admitted (requests x)) = image_mset req_id (mset (answered (requests x)))"
    "\<forall>t q ph. tasks (requests x) t = Some (q, ph) \<longrightarrow> ph = Finished"
    using waited_requests [OF assms(1-3)] by blast
  let ?x = "x\<lparr>requests := (requests x)\<lparr>rfreed := True\<rparr>\<rparr>"
  have s': "s' = set_free a None (put_runtime a ?x s)" "r = (case err of None \<Rightarrow> Ok () | Some m \<Rightarrow> Err (Failed m))"
    using assms(4) x(1) by (simp_all add: free_return_def)
  then have same: "handles s' = handles s" "servers s' = servers s" "runtimes s' a = Some ?x"
    by (simp_all add: set_free_def put_runtime_def)
  show "\<exists>x. runtimes s' a = Some x \<and> rfreed (requests x) \<and> pending (requests x) = Map.empty \<and>
      mset (admitted (requests x)) = image_mset req_id (mset (answered (requests x))) \<and>
      (\<forall>t q ph. tasks (requests x) t = Some (q, ph) \<longrightarrow> ph = Finished) \<and> closed (rqueue (requests x))"
    using same(3) x by (intro exI [of _ ?x]) simp
  show "\<forall>v y. servers s' v = Some y \<and> sruntime y = a \<longrightarrow> (\<exists>q. shutdown_results (sentry y) = [q]) \<and> ecalls (sentry y) = Map.empty \<and>
      (\<forall>h. get_ephemeral (handles s') h \<noteq> Ok v)"
    using waited_server [OF assms(1-3)] unfolding same by blast
  show "\<forall>h. get_runtime (handles s') h \<noteq> Ok a"
    using safe_freed(1) [OF s assms(2)] getters_lookup(1) unfolding unnamed_def same by blast
  show "frees s' a = None" "r = (case err of None \<Rightarrow> Ok () | Some m \<Rightarrow> Err (Failed m))"
    using s' by (simp_all add: set_free_def)
qed

theorem runtime_free_settles_witness:
  "\<exists>s' x y. free_return 0 (Some ''no such process'') demo_waiting = (Err (Failed ''no such process''), s') \<and>
     runtimes s' 0 = Some x \<and> mset (admitted (requests x)) = image_mset req_id (mset (answered (requests x))) \<and>
     servers s' 2 = Some y \<and> shutdown_results (sentry y) = [Err ''no such process''] \<and>
     (\<forall>h. get_ephemeral (handles s') h \<noteq> Ok 2)"
proof -
  obtain r s' where r: "free_return 0 (Some ''no such process'') demo_waiting = (r, s')"
    by (cases "free_return 0 (Some ''no such process'') demo_waiting")
  have s: "servers s' 2 = Some demo_lost_server"
    using r demo_waiting_runs(4) by (auto simp: free_return_def set_free_def put_runtime_def split: option.splits)
  have "shutdown_results (sentry demo_lost_server) = [Err ''no such process'']" "sruntime demo_lost_server = 0"
    by (simp_all add: demo_lost_server_def demo_server_def)
  with runtime_free_settles [OF demo_waiting_runs(1-3) r] s r show ?thesis by auto
qed

text \<open>C8: \<^verbatim>\<open>kt_runtime_free\<close> written as the one function of the source, which closes the children in a loop, drains, waits
  and returns, agrees with the call cut into steps that other threads run between: from every
  reachable state in which no server it closes is in a shutdown and every operation is at an await, the
  function's result and final state are those of one run of its steps, from \<open>free_begin\<close> to \<open>free_return\<close>.\<close>

theorem runtime_free_steps:
  assumes "runs bridge_init bridge_step s" and "get_runtime (handles s) h = Ok a" and "runtimes s a = Some x"
    and "drain_order (pending (requests x)) (env_drain_order env)"
    and "\<forall>k v. lookup_handle (handles s) k = Some (h, Ephemeral v) \<longrightarrow> server_idle s v"
    and "\<forall>t b op. ops s t = Some (b, op) \<longrightarrow> at_await t op s"
    and "kt_runtime_free env h s = (r, s')" and "\<not> panics r"
  shows "\<exists>cs s1 s2 err. free_begin h s = (Ok (a, cs), s1) \<and> bridge_step s s1 \<and> background_step\<^sup>*\<^sup>* s1 s2 \<and>
    frees s2 a = Some (TaskWait err) \<and> tracker_empty a s2 \<and> free_return a err s2 = (r, s') \<and> background_step s2 s'"
proof -
  obtain cs s1 s2 err where p: "free_begin h s = (Ok (a, cs), s1)" "bridge_step s s1" "later s1 s2"
    "frees s2 a = Some (TaskWait err)" "tracker_empty a s2" "free_return a err s2 = (r, s')"
    using runtime_free_path [OF assms(1-5) _ assms(7,8)] assms(6) unfolding calm_def by blast
  moreover have "background_step s2 s'" using sys_free_return [OF p(4,5)] p(6) by simp
  ultimately show ?thesis by blast
qed

theorem runtime_free_steps_witness:
  "\<exists>s1 s2 s'. kt_runtime_free demo_env demo_handle demo_asked = (Ok (), s') \<and> bridge_step demo_asked s1 \<and>
     background_step\<^sup>*\<^sup>* s1 s2 \<and> free_return 0 None s2 = (Ok (), s')"
proof -
  let ?x = "\<lparr>requests = demo_requests, metrics = Some (BridgeMeter_default, []), metric_batch = None\<rparr> :: RuntimeObject"
  have x: "runtimes demo_asked 0 = Some ?x" by (simp add: demo_asked_def)
  have ds: "drain_order (pending (requests ?x)) (env_drain_order demo_env)"
    by (simp add: drain_order_def demo_requests_def demo_env_def)
  have idle: "\<forall>k v. lookup_handle (handles demo_asked) k = Some (demo_handle, Ephemeral v) \<longrightarrow> server_idle demo_asked v"
    by (simp add: server_idle_def demo_asked_def demo_opened_def Bridge_init_def)
  obtain s' where r: "kt_runtime_free demo_env demo_handle demo_asked = (Ok (), s')" using demo_free by blast
  from runtime_free_steps [OF demo_runs demo_runtime(2) x ds idle demo_calm(2) [unfolded calm_def] r] obtain s1 s2 err where
    p: "bridge_step demo_asked s1" "background_step\<^sup>*\<^sup>* s1 s2" "free_return 0 err s2 = (Ok (), s')" by auto
  then have "err = None" by (cases err) (simp_all add: free_return_def)
  with p r show ?thesis by blast
qed

text \<open>C11: \<^verbatim>\<open>kt_cancel\<close> always gets its completion. In every reachable state, for a request that is pending on a
  runtime, after \<^verbatim>\<open>kt_cancel\<close> what goes on by itself can answer the request, whatever the operation was
  waiting for and without any help from outside: the completion is the next answer, it is in the
  queue, and the id is free again. It says \<^verbatim>\<open>KT_ERR_CANCELLED\<close>, unless the operation had its result already.\<close>

theorem cancel_completes:
  assumes "runs bridge_init bridge_step s" and "has_room (handles s)" and h: "get_runtime (handles s) h = Ok a"
    and x: "runtimes s a = Some x" and p: "pending (requests x) r = Some t"
  shows "\<exists>s1 s2 y p. exec env (Cancel h r) s = (Ok (), s1) \<and> bridge_step s s1 \<and> background_step\<^sup>*\<^sup>* s1 s2 \<and>
    runtimes s2 a = Some y \<and> req_id p = r \<and> (tasks (requests x) t = Some (r, Spawned) \<longrightarrow> p = cancelled_result r) \<and>
    answered (requests y) = answered (requests x) @ [p] \<and> queue (rqueue (requests y)) = queue (rqueue (requests x)) @ [p] \<and>
    pending (requests y) = (pending (requests x))(r := None) \<and> tasks (requests y) t = Some (r, Finished)"
proof -
  let ?x = "x\<lparr>requests := cancel (requests x) r\<rparr>"
  let ?s = "put_runtime a ?x s"
  have e: "exec env (Cancel h r) s = (Ok (), ?s)"
    using h x by (simp add: kt_cancel_def the_runtime_def deref_def call_defs)
  have step: "bridge_step s ?s" using sys_call [OF assms(2), of env "Cancel h r"] e by simp
  have y: "runtimes ?s a = Some ?x" "pending (requests ?x) r = Some t" "t \<in> cancelled (requests ?x)"
    using p by (simp_all add: cancel_def) (simp add: put_runtime_def cancel_def)
  have same: "tasks (requests ?x) = tasks (requests x)" "answered (requests ?x) = answered (requests x)"
    "rqueue (requests ?x) = rqueue (requests x)" "pending (requests ?x) = pending (requests x)"
    using p by (simp_all add: cancel_def)
  from cancelled_request_answered [OF runs_step [OF assms(1) step] y] e step show ?thesis
    unfolding same by blast
qed

theorem cancel_completes_witness:
  "\<exists>s1 s2 y. exec demo_env (Cancel demo_handle 7) demo_asked = (Ok (), s1) \<and> background_step\<^sup>*\<^sup>* s1 s2 \<and>
     runtimes s2 0 = Some y \<and> answered (requests y) = [cancelled_result 7]"
proof -
  let ?x = "\<lparr>requests = demo_requests, metrics = Some (BridgeMeter_default, []), metric_batch = None\<rparr> :: RuntimeObject"
  have "has_room (handles demo_asked)" "runtimes demo_asked 0 = Some ?x" "pending (requests ?x) 7 = Some 1"
    "tasks (requests ?x) 1 = Some (7, Spawned)" "answered (requests ?x) = []"
    by (simp_all add: has_room_def demo_asked_def demo_opened_def demo_requests_def RuntimeEntry_new_def)
  from cancel_completes [OF demo_runs this(1) demo_runtime(2) this(2,3), of demo_env] this(4,5)
  show ?thesis by fastforce
qed

text \<open>The entry points that start a request: the runtime, the handle it must own, if any, and the request id.\<close>

fun request_of :: "api \<Rightarrow> (u64 \<times> u64 option \<times> u64) option" where
  "request_of (ClientConnect h cfg n r) = Some (h, None, r)"
| "request_of (ClientRpc h c sv np nl rp rl m r) = Some (h, Some c, r)"
| "request_of (WorkerValidate h w r) = Some (h, Some w, r)"
| "request_of (WorkerComplete h w k b n r) = Some (h, Some w, r)"
| "request_of (WorkerShutdown h w g r) = Some (h, Some w, r)"
| "request_of (EphemeralStart h cfg n r) = Some (h, None, r)"
| "request_of (EphemeralShutdown h v r) = Some (h, Some v, r)"
| "request_of _ = None"

lemmas request_entry_defs = kt_client_connect_def kt_client_rpc_def kt_worker_validate_def kt_worker_complete_def
  kt_worker_shutdown_def kt_ephemeral_start_def kt_ephemeral_shutdown_def client_connect_args_def client_rpc_args_def
  worker_validate_args_def worker_complete_args_def worker_shutdown_args_def ephemeral_start_args_def admit_def

lemma begin_op_frame [simp]: "runtimes (begin_op t op s) = runtimes s" "ops (begin_op t op s) = ops s"
  by (cases op; simp add: begin_op_def)+

lemma spawn_request_Ok:
  assumes "spawn_request t r e = (Ok u, e')"
  shows "\<not> rclosed e \<and> pending e r = None \<and> pending e' = (pending e)(r \<mapsto> t) \<and> admitted e' = admitted e @ [r] \<and>
    tasks e' t = Some (r, Spawned)"
  using assms by (auto simp: spawn_request_def register_def Let_def split: if_splits)

lemma spawn_Ok:
  assumes "spawn a r op s = (Ok u, s')"
  shows "\<exists>x x'. runtimes s a = Some x \<and> runtimes s' a = Some x' \<and> \<not> rclosed (requests x) \<and>
    pending (requests x) r = None \<and> pending (requests x') = (pending (requests x))(r \<mapsto> next_id s) \<and>
    admitted (requests x') = admitted (requests x) @ [r] \<and>
    tasks (requests x') (next_id s) = Some (r, Spawned) \<and> ops s' (next_id s) = Some (a, op)"
proof -
  obtain x where x: "runtimes s a = Some x"
    using assms by (auto simp: spawn_def spawn_with_def deref_def call_defs split: option.splits)
  obtain y e where y: "spawn_request (next_id s) r (requests x) = (y, e)"
    by (cases "spawn_request (next_id s) r (requests x)")
  with assms x have "y = Ok ()" and s': "s' = begin_op (next_id s) op ((put_runtime a (x\<lparr>requests := e\<rparr>) s)
      \<lparr>next_id := next_id s + 1, ops := (ops s)(next_id s \<mapsto> (a, op))\<rparr>)"
    by (auto simp: spawn_def spawn_with_def deref_def call_defs Let_def split: outcome.splits)
  with spawn_request_Ok [of "next_id s" r "requests x" "()" e] y x show ?thesis
    by (auto simp: put_runtime_def)
qed

text \<open>C9: A request entry point that returns success has admitted exactly that request: the id is not the
  reserved 0, the runtime handle is live, the client, worker or server it names belongs to that runtime,
  the runtime is not shutting down and the id was not in use; afterwards the id is pending with a new task
  that runs the operation. With the accounting of requests above, exactly one completion follows.\<close>

theorem request_accepted:
  assumes "request_of c = Some (h, k, r)" and "exec env c s = (Ok u, s')"
  shows "r \<noteq> 0 \<and> (\<exists>a x x' op. get_runtime (handles s) h = Ok a \<and>
    (\<forall>k'. k = Some k' \<longrightarrow> require_owner (handles s) k' h = Ok ()) \<and>
    runtimes s a = Some x \<and> runtimes s' a = Some x' \<and> \<not> rclosed (requests x) \<and>
    pending (requests x) r = None \<and> pending (requests x') = (pending (requests x))(r \<mapsto> next_id s) \<and>
    admitted (requests x') = admitted (requests x) @ [r] \<and>
    tasks (requests x') (next_id s) = Some (r, Spawned) \<and> ops s' (next_id s) = Some (a, op))"
proof -
  have "r \<noteq> 0 \<and> (\<exists>a op. get_runtime (handles s) h = Ok a \<and>
      (\<forall>k'. k = Some k' \<longrightarrow> require_owner (handles s) k' h = Ok ()) \<and> spawn a r op s = (Ok u, s'))"
    using assms
    by (cases c) (auto simp: request_entry_defs then_do_Ok_iff call_Ok_iffs some_request_def the_runtime_def owned_by_def
        the_client_def the_worker_def the_server_def decoded_def read_slice_def core_behind_def deref_def
        split: if_splits option.splits)
  then show ?thesis using spawn_Ok by blast
qed

theorem request_accepted_witness:
  "\<exists>x. runtimes demo_asked 0 = Some x \<and> pending (requests x) = [7 \<mapsto> 1] \<and> ops demo_asked 1 \<noteq> None"
  using request_accepted [OF _ demo_connect, of demo_handle None 7] demo_runtime(1)
  by (auto simp: demo_opened_def RuntimeEntry_new_def)

text \<open>C10: A request that is refused before it is admitted leaves the whole bridge as it was and reports why:
  the reserved id 0, a runtime handle that is stale or of the wrong kind, or a client, worker or server of
  another runtime.\<close>

theorem refused_request_changes_nothing:
  assumes "request_of c = Some (h, k, r)"
  shows "(r = 0 \<longrightarrow> exec env c s = (Err (InvalidArgument ''req_id 0 is reserved for pushed events''), s)) \<and>
    (r \<noteq> 0 \<longrightarrow> get_runtime (handles s) h = Err e \<longrightarrow> exec env c s = (Err e, s)) \<and>
    (r \<noteq> 0 \<longrightarrow> get_runtime (handles s) h = Ok a \<longrightarrow> k = Some k' \<longrightarrow> require_owner (handles s) k' h = Err e \<longrightarrow>
      exec env c s = (Err e, s))"
  using assms
  by (cases c) (auto simp: request_entry_defs call_defs some_request_def the_runtime_def owned_by_def)

theorem refused_request_changes_nothing_witness:
  "exec demo_env (WorkerValidate demo_handle 3 0) demo_asked =
     (Err (InvalidArgument ''req_id 0 is reserved for pushed events''), demo_asked) \<and>
   exec demo_env (WorkerValidate 0 3 5) demo_asked = (Err StaleHandle, demo_asked)"
  using refused_request_changes_nothing [of "WorkerValidate demo_handle 3 0" demo_handle "Some 3" 0 demo_env demo_asked]
    refused_request_changes_nothing [of "WorkerValidate 0 3 5" 0 "Some 3" 5 demo_env demo_asked StaleHandle]
  by (simp add: get_runtime_def with_entry_def validate_def del: exec.simps)

text \<open>C16: No metric is lost to a buffer that was too small. When \<^verbatim>\<open>kt_runtime_retrieve_metrics\<close> fails to copy
  its batch out, the batch stays with the runtime; in any later state where it is still there, the next
  call drains nothing, copies exactly those bytes, and only then lets go of them.\<close>

theorem metrics_survive_failed_copy:
  assumes "get_runtime (handles s) h = Ok a" and "runtimes s a = Some x"
    and "pending_batch env a x s = (Ok b, s1)" and "write_out b out cap n (mem s1) = (Err e, m)"
    and "get_runtime (handles s2) h = Ok a" and "runtimes s2 a = Some y" and "metric_batch y = Some b"
    and "write_out b out' cap' n' (mem s2) = (Ok (), m')"
  shows "\<exists>x'. kt_runtime_retrieve_metrics env h out cap n s = (Err e, s1\<lparr>mem := m\<rparr>) \<and>
    runtimes s1 a = Some x' \<and> metric_batch x' = Some b \<and>
    kt_runtime_retrieve_metrics env' h out' cap' n' s2 =
      (Ok (), put_runtime a (y\<lparr>metric_batch := None\<rparr>) (s2\<lparr>mem := m'\<rparr>))"
proof -
  have "\<exists>x'. runtimes s1 a = Some x' \<and> metric_batch x' = Some b"
    using assms(2,3) by (auto simp: pending_batch_def put_runtime_def Let_def split: option.splits outcome.splits prod.splits)
  moreover have "kt_runtime_retrieve_metrics env h out cap n s = (Err e, s1\<lparr>mem := m\<rparr>)"
    using assms(1-4) by (simp add: kt_runtime_retrieve_metrics_def the_runtime_def deref_def copy_out_def call_defs)
  moreover have "pending_batch env' a y s2 = (Ok b, s2)" using assms(7) by (simp add: pending_batch_def)
  then have "kt_runtime_retrieve_metrics env' h out' cap' n' s2 =
      (Ok (), put_runtime a (y\<lparr>metric_batch := None\<rparr>) (s2\<lparr>mem := m'\<rparr>))"
    using assms(5,6,8) by (simp add: kt_runtime_retrieve_metrics_def the_runtime_def deref_def copy_out_def call_defs)
  ultimately show ?thesis by blast
qed

definition demo_held :: Bridge where
  "demo_held = put_runtime 0 \<lparr>requests = demo_requests, metrics = Some (BridgeMeter_default, []),
     metric_batch = Some [10, 20, 30]\<rparr> demo_asked"

lemma demo_batch:
  "pending_batch demo_env 0 \<lparr>requests = demo_requests, metrics = Some (BridgeMeter_default, []), metric_batch = None\<rparr>
     demo_asked = (Ok [10, 20, 30], demo_held)"
  by (simp add: pending_batch_def drain_metrics_def drain_meter_def drain_def BridgeMeter_default_def demo_env_def
      demo_held_def Let_def)

theorem metrics_survive_failed_copy_witness:
  "\<exists>m. kt_runtime_retrieve_metrics demo_env demo_handle 64 2 32 demo_asked = (Err BufferTooSmall, demo_held\<lparr>mem := m\<rparr>)"
proof -
  let ?y = "\<lparr>requests = demo_requests, metrics = Some (BridgeMeter_default, []), metric_batch = Some [10, 20, 30]\<rparr>"
  have h: "get_runtime (handles demo_held) demo_handle = Ok 0" "runtimes demo_held 0 = Some ?y"
    using demo_runtime(2) by (simp_all add: demo_held_def put_runtime_def)
  have "write_out [10, 20, 30] 64 2 32 (mem demo_held) = (Err BufferTooSmall, store_u32 (mem demo_held) 32 3)"
    "write_out [10, 20, 30] 64 3 32 (mem demo_held) =
       (Ok (), store_bytes (store_u32 (mem demo_held) 32 3) 64 [10, 20, 30])"
    by (simp_all add: write_out_def Let_def)
  from metrics_survive_failed_copy [OF demo_runtime(2) _ demo_batch this(1) h(1,2) _ this(2)]
  show ?thesis by (simp add: demo_asked_def) blast
qed

text \<open>C17: The components keep their promises inside the whole bridge. In every run, Core's \<^verbatim>\<open>finalize_shutdown\<close> is called on a
  worker only after its pumps are gone and nobody else holds it; the shutdown of a server's child has run to its
  end, with success or an error, once if the tracker token that \<^verbatim>\<open>kt_runtime_free\<close> waits for was let go and not at
  all before, a call that is in it has the child, and no two calls are in it at a time; and every runtime's
  meter buffers at most 65536 samples, each of an instrument that is registered.\<close>

theorem system_components_safe:
  assumes "runs bridge_init bridge_step s"
  shows "(workers s w = Some x \<and> core_finalized (wentry x) \<longrightarrow>
      live_pumps (wentry x) = 0 \<and> inflight (wentry x) = 0 \<and> (\<forall>k. pumps (wentry x) k \<noteq> Pumping) \<and>
      core_of (wentry x) = Err WorkerShutDown) \<and>
    (servers s v = Some y \<longrightarrow> length (shutdown_results (sentry y)) = (if token_held (sentry y) then 0 else 1) \<and>
      (\<forall>t. ecalls (sentry y) t = Some InShutdown \<longrightarrow> has_server (sentry y)) \<and>
      (\<forall>t u. ecalls (sentry y) t = Some InShutdown \<and> ecalls (sentry y) u = Some InShutdown \<longrightarrow> t = u)) \<and>
    (runtimes s a = Some z \<and> metrics z = Some (st, insts) \<longrightarrow>
      (\<forall>u \<in> set (updates st). valid_id st (sinstrument u)) \<and> length (updates st) \<le> MAX_UPDATES)"
proof (intro conjI impI)
  assume x: "workers s w = Some x \<and> core_finalized (wentry x)"
  then have "worker_pool s w = Some (wentry x)" by (simp add: worker_pool_def)
  then have "worker_inv (wentry x)" using worker_objects.member_runs [OF assms] wk.runs_inv by blast
  then show "live_pumps (wentry x) = 0" "inflight (wentry x) = 0" "\<forall>k. pumps (wentry x) k \<noteq> Pumping"
    "core_of (wentry x) = Err WorkerShutDown"
    using x by (auto simp: worker_inv_def finalized_alone_def core_of_def)
next
  assume "servers s v = Some y"
  then have "server_pool s v = Some (sentry y)" by (simp add: server_pool_def)
  then have "eph_inv (sentry y)" using server_objects.member_runs [OF assms] eph.runs_inv by blast
  then show "length (shutdown_results (sentry y)) = (if token_held (sentry y) then 0 else 1)"
    "\<forall>t. ecalls (sentry y) t = Some InShutdown \<longrightarrow> has_server (sentry y)"
    "\<forall>t u. ecalls (sentry y) t = Some InShutdown \<and> ecalls (sentry y) u = Some InShutdown \<longrightarrow> t = u"
    unfolding eph_inv_def eph_token_ok_def eph_lock_ok_def by blast+
next
  assume "runtimes s a = Some z \<and> metrics z = Some (st, insts)"
  then have "meter_pool s a = Some (st, insts)" by (simp add: meter_pool_def)
  then have "meter_inv (st, insts)" using meters.member_runs [OF assms] meter.runs_inv by blast
  then show "\<forall>u \<in> set (updates st). valid_id st (sinstrument u)" "length (updates st) \<le> MAX_UPDATES"
    by (simp_all add: meter_inv_def definitions_ok_def)
qed

lemma demo_metered:
  fixes st :: MeterState
  defines "st \<equiv> Instrument_record (with_attributes demo_instrument EmptyAttributes) (IntValue 3) demo_meter"
  defines "x \<equiv> \<lambda>m. \<lparr>requests = demo_requests, metrics = Some m, metric_batch = None\<rparr>"
  shows "runs bridge_init bridge_step (put_runtime 0 (x (st, [demo_instrument])) (put_runtime 0 (x (demo_meter, [demo_instrument])) demo_asked))"
proof -
  have 1: "meter_step (BridgeMeter_default, []) (demo_meter, [demo_instrument])"
    by (rule meter_register [of _ 0 demo_params]) (simp_all add: demo_meter_defs)
  have 2: "meter_step (demo_meter, [demo_instrument]) (st, [demo_instrument])" unfolding st_def by (rule meter_record) simp
  have "bridge_step demo_asked (put_runtime 0 (x (demo_meter, [demo_instrument])) demo_asked)"
    using sys_background [OF sys_metric, OF _ _ 1, of demo_asked 0 "x (BridgeMeter_default, [])"] by (simp add: x_def demo_asked_def)
  moreover have "bridge_step (put_runtime 0 (x (demo_meter, [demo_instrument])) demo_asked)
      (put_runtime 0 (x (st, [demo_instrument])) (put_runtime 0 (x (demo_meter, [demo_instrument])) demo_asked))"
    using sys_background [OF sys_metric, OF _ _ 2, of "put_runtime 0 (x (demo_meter, [demo_instrument])) demo_asked" 0 "x (demo_meter, [demo_instrument])"]
    by (simp add: x_def) (simp add: put_runtime_def)
  ultimately show ?thesis by (blast intro: runs_step demo_runs)
qed

theorem system_components_safe_witness:
  "(\<exists>(s :: Bridge) x. workers s 3 = Some x \<and> core_finalized (wentry x) \<and> live_pumps (wentry x) = 0 \<and> core_of (wentry x) = Err WorkerShutDown) \<and>
   (length (shutdown_results (sentry demo_lost_server)) = (if token_held (sentry demo_lost_server) then 0 else 1) \<and>
     \<not> token_held (sentry demo_lost_server)) \<and>
   valid_id (Instrument_record (with_attributes demo_instrument EmptyAttributes) (IntValue 3) demo_meter) 1"
proof (intro conjI)
  obtain s x where s: "runs bridge_init bridge_step s" and x: "workers s 3 = Some x" "core_finalized (wentry x)"
    using demo_finalizing by blast
  from system_components_safe [OF s, where w = 3 and x = x, THEN conjunct1] x
  show "\<exists>(s :: Bridge) x. workers s 3 = Some x \<and> core_finalized (wentry x) \<and> live_pumps (wentry x) = 0 \<and> core_of (wentry x) = Err WorkerShutDown"
    by blast
  show "length (shutdown_results (sentry demo_lost_server)) = (if token_held (sentry demo_lost_server) then 0 else 1)"
    using system_components_safe [OF demo_waiting_runs(1), where v = 2 and y = demo_lost_server, THEN conjunct2, THEN conjunct1]
      demo_waiting_runs(4) by blast
  show "\<not> token_held (sentry demo_lost_server)"
    by (simp add: token_held_def demo_lost_server_def demo_server_def EphemeralEntry_new_def)
  let ?st = "Instrument_record (with_attributes demo_instrument EmptyAttributes) (IntValue 3) demo_meter"
  have "\<forall>u \<in> set (updates ?st). valid_id ?st (sinstrument u)"
    using conjunct2 [OF conjunct2 [OF system_components_safe [OF demo_metered, where a = 0 and st = ?st and
        insts = "[demo_instrument]" and z = "\<lparr>requests = demo_requests, metrics = Some (?st, [demo_instrument]),
          metric_batch = None\<rparr>"]]]
    by (simp add: put_runtime_def)
  moreover have "updates ?st = [\<lparr>sinstrument = 1, sattributes = EmptyAttributes, svalue = IntValue 3\<rparr>]"
    by (simp add: Instrument_record_def with_attributes_def demo_meter_defs MAX_UPDATES_def)
  ultimately show "valid_id ?st 1" by simp
qed

end
